(* ===== verification/Prelude.thy ===== *)
theory Prelude
  imports Main "HOL-Library.Word"
begin

text \<open>
  Shared vocabulary of the development: names for Rust's machine integers, the arithmetic
  of the Rust standard library the sources call (\<^verbatim>\<open>saturating_add\<close>, \<^verbatim>\<open>checked_add\<close>,
  \<^verbatim>\<open>count_ones\<close>, \<^verbatim>\<open>is_power_of_two\<close>, \<^verbatim>\<open>rotate_left\<close>, \<^verbatim>\<open>str::split\<close>, decimal printing), and the
  generic lemmas about them that the component theories use.  Values whose bits matter are
  \<open>w word\<close>; values used only arithmetically are \<open>nat\<close> (or \<open>int\<close>) with the width of the
  Rust type written out where it matters.
\<close>

unbundle bit_operations_syntax

section \<open>Machine integers\<close>

type_synonym u8 = "8 word"
type_synonym u16 = "16 word"
type_synonym u32 = "32 word"
type_synonym u64 = "64 word"

named_theorems sat_arith \<open>the value of the saturating and checked operations\<close>

subsection \<open>Saturating operations on words\<close>

definition saturating_add :: "'a::len word \<Rightarrow> 'a word \<Rightarrow> 'a word" where
  "saturating_add a b = (if unat a + unat b < 2 ^ LENGTH('a) then a + b else - 1)"

definition saturating_sub :: "'a::len word \<Rightarrow> 'a word \<Rightarrow> 'a word" where
  "saturating_sub a b = (if a < b then 0 else a - b)"

definition saturating_mul :: "'a::len word \<Rightarrow> 'a word \<Rightarrow> 'a word" where
  "saturating_mul a b = (if unat a * unat b < 2 ^ LENGTH('a) then a * b else - 1)"

definition rotate_left :: "nat \<Rightarrow> 'a::len word \<Rightarrow> 'a word" where
  "rotate_left n w = word_rotl n w"

lemma unat_u64_less: "unat (x :: u64) < 2 ^ 64"
  using unsigned_less [where 'b = 64 and 'a = nat, of x] by simp

lemma unat_minus_one_word_max: "unat (- 1 :: 'a::len word) = 2 ^ LENGTH('a) - 1"
  by (simp only: unsigned_minus_1_eq_mask mask_eq_exp_minus_1)

lemma unat_saturating_add [sat_arith]:
  fixes a b :: "'a::len word"
  shows "unat (saturating_add a b) = min (unat a + unat b) (2 ^ LENGTH('a) - 1)"
  by (auto simp: saturating_add_def unat_minus_one_word_max unat_word_ariths min_def)

lemma unat_saturating_sub [sat_arith]: "unat (saturating_sub a b) = unat a - unat b"
  by (auto simp: saturating_sub_def word_less_nat_alt unat_sub_if')

lemma unat_saturating_mul [sat_arith]:
  fixes a b :: "'a::len word"
  shows "unat (saturating_mul a b) = min (unat a * unat b) (2 ^ LENGTH('a) - 1)"
proof (cases "unat a * unat b < 2 ^ LENGTH('a)")
  case True
  then have "unat a * unat b \<le> 2 ^ LENGTH('a) - 1" by linarith
  with True show ?thesis
    by (simp only: saturating_mul_def if_True unat_word_ariths mod_less min_absorb1)
next
  case False
  then have "2 ^ LENGTH('a) - 1 \<le> unat a * unat b" by linarith
  with False show ?thesis
    by (simp only: saturating_mul_def if_False unat_minus_one_word_max min_absorb2)
qed

subsection \<open>Unsigned 64-bit arithmetic on naturals\<close>

text \<open>
  Address and size arithmetic is modelled on \<open>nat\<close>; \<open>u64_max\<close> is the largest value, and each
  operation below says what the Rust one does at the top of the range.
\<close>

definition u64_max :: nat where
  "u64_max = 2 ^ 64 - 1"

definition sat_add64 :: "nat \<Rightarrow> nat \<Rightarrow> nat" where
  "sat_add64 a b = min (a + b) u64_max"

definition checked_add64 :: "nat \<Rightarrow> nat \<Rightarrow> nat option" where
  "checked_add64 a b = (if a + b \<le> u64_max then Some (a + b) else None)"

definition checked_mul64 :: "nat \<Rightarrow> nat \<Rightarrow> nat option" where
  "checked_mul64 a b = (if a * b \<le> u64_max then Some (a * b) else None)"

definition not64 :: "nat \<Rightarrow> nat" where
  "not64 a = u64_max - a"

lemma checked_add64_eq_Some [sat_arith]:
  "checked_add64 a b = Some c \<longleftrightarrow> c = a + b \<and> a + b \<le> u64_max"
  by (auto simp: checked_add64_def)

lemma sat_add64_le [sat_arith]: "sat_add64 a b \<le> u64_max" "sat_add64 a b \<le> a + b"
  by (simp_all add: sat_add64_def)

subsection \<open>Counting bits\<close>

definition count_ones :: "'a::len word \<Rightarrow> nat" where
  "count_ones w = length (filter (bit w) [0..<LENGTH('a)])"

lemma count_ones_card: "count_ones w = card {n. bit w n}"
proof -
  have "count_ones w = card (set (filter (bit w) [0..<LENGTH('a)]))"
    unfolding count_ones_def by (simp only: distinct_card distinct_filter distinct_upt)
  also have "set (filter (bit w) [0..<LENGTH('a)]) = {n. bit w n}"
    by (auto dest: bit_imp_le_length)
  finally show ?thesis .
qed

lemma finite_bits_word [simp]: "finite {n. bit (w :: 'a::len word) n}"
  by (rule finite_subset [of _ "{..<LENGTH('a)}"]) (auto dest: bit_imp_le_length)

lemma odd_card_sym_diff:
  assumes "finite A" "finite B"
  shows "odd (card ((A - B) \<union> (B - A))) \<longleftrightarrow> (odd (card A) \<noteq> odd (card B))"
proof -
  have A: "card A = card (A - B) + card (A \<inter> B)"
    using assms by (metis Int_Diff_disjoint Int_commute Un_Diff_Int card_Un_disjoint
        finite_Diff finite_Int)
  have B: "card B = card (B - A) + card (A \<inter> B)"
    using assms by (metis Int_Diff_disjoint Int_commute Un_Diff_Int card_Un_disjoint
        finite_Diff finite_Int)
  have "card ((A - B) \<union> (B - A)) = card (A - B) + card (B - A)"
    using assms by (intro card_Un_disjoint) auto
  with A B show ?thesis by auto
qed

lemma odd_count_ones_xor:
  "odd (count_ones (a XOR b)) \<longleftrightarrow> (odd (count_ones a) \<noteq> odd (count_ones b))"
proof -
  have "{n. bit (a XOR b) n} = ({n. bit a n} - {n. bit b n}) \<union> ({n. bit b n} - {n. bit a n})"
    by (auto simp: bit_xor_iff)
  then show ?thesis by (simp add: count_ones_card odd_card_sym_diff)
qed

lemma count_ones_zero [simp]: "count_ones (0 :: 'a::len word) = 0"
  by (simp add: count_ones_def)

lemma count_ones_single [simp]:
  "n < LENGTH('a) \<Longrightarrow> count_ones (2 ^ n :: 'a::len word) = 1"
proof -
  assume "n < LENGTH('a)"
  then have "{m. bit (2 ^ n :: 'a word) m} = {n}"
    by (auto simp: bit_exp_iff)
  then show ?thesis by (simp add: count_ones_card)
qed

lemma word_xor_eq_0: "a XOR b = 0 \<Longrightarrow> a = (b :: 'a::len word)"
  by (metis xor.right_neutral xor.assoc xor_self_eq xor.left_neutral)

text \<open>\<^verbatim>\<open>is_power_of_two\<close> of an unsigned integer: exactly one bit set.\<close>

definition is_power_of_two :: "nat \<Rightarrow> bool" where
  "is_power_of_two n \<longleftrightarrow> n \<noteq> 0 \<and> n AND (n - 1) = 0"

end
