(* ===== verification/Redundancy.thy ===== *)
theory Redundancy
  imports Prelude
begin

text \<open>
  \<^verbatim>\<open>crates/nanochrono-core/src/redundancy.rs\<close>: words that carry a Hamming(72,64) SECDED code
  and two replicas.  The definitions follow the file from top to bottom: the outcome type,
  the process-wide counters, the code, the replicas and the protected container.  The
  lemmas then show that the code is linear, that its syndrome names the flipped position,
  and from these the repair guarantees of \<open>get_checked\<close> and \<open>verify\<close>.
  Code-word positions, bit numbers and loop counters (\<^verbatim>\<open>u32\<close>/\<^verbatim>\<open>usize\<close> in the source, all
  below 256) are \<open>nat\<close>.
\<close>

section \<open>Definitions\<close>

subsection \<open>Outcomes\<close>

datatype integrity =
    Clean
  | CorrectedByEcc nat
  | CorrectedByTmr nat
  | Unrecoverable

fun severity :: "integrity \<Rightarrow> nat" where
  "severity Clean = 0"
| "severity (CorrectedByEcc _) = 1"
| "severity (CorrectedByTmr _) = 2"
| "severity Unrecoverable = 3"

definition integrity_max :: "integrity \<Rightarrow> integrity \<Rightarrow> integrity" where
  "integrity_max self other = (if severity other > severity self then other else self)"

fun is_usable :: "integrity \<Rightarrow> bool" where
  "is_usable Unrecoverable = False"
| "is_usable _ = True"

fun was_repaired :: "integrity \<Rightarrow> bool" where
  "was_repaired (CorrectedByEcc _) = True"
| "was_repaired (CorrectedByTmr _) = True"
| "was_repaired _ = False"

subsection \<open>Process-wide counters\<close>

text \<open>The four atomics, read and written in program order; \<^verbatim>\<open>fetch_add\<close> wraps.\<close>

record integrity_stats =
  checks :: u64
  ecc_corrections :: u64
  tmr_corrections :: u64
  unrecoverable :: u64

definition stats_is_clean :: "integrity_stats \<Rightarrow> bool" where
  "stats_is_clean s \<longleftrightarrow>
     ecc_corrections s = 0 \<and> tmr_corrections s = 0 \<and> unrecoverable s = 0"

definition record_outcome :: "integrity \<Rightarrow> integrity_stats \<Rightarrow> integrity_stats" where
  "record_outcome outcome s =
     (let s = s\<lparr>checks := checks s + 1\<rparr> in
      case outcome of
        CorrectedByEcc _ \<Rightarrow> s\<lparr>ecc_corrections := ecc_corrections s + 1\<rparr>
      | CorrectedByTmr _ \<Rightarrow> s\<lparr>tmr_corrections := tmr_corrections s + 1\<rparr>
      | Unrecoverable \<Rightarrow> s\<lparr>unrecoverable := unrecoverable s + 1\<rparr>
      | Clean \<Rightarrow> s)"

subsection \<open>Hamming(72,64) SECDED\<close>

definition CODEWORD_LEN :: nat where
  "CODEWORD_LEN = 71"

definition is_parity_position :: "nat \<Rightarrow> bool" where
  "is_parity_position position = is_power_of_two position"

function data_position_loop :: "nat \<Rightarrow> nat \<Rightarrow> nat \<Rightarrow> nat" where
  "data_position_loop index seen position =
     (if position \<le> CODEWORD_LEN then
        if \<not> is_parity_position position then
          if seen = index then position
          else data_position_loop index (seen + 1) (position + 1)
        else data_position_loop index seen (position + 1)
      else 0)"
  by pat_completeness auto
termination
  by (relation "measure (\<lambda>(i, s, p). CODEWORD_LEN + 1 - p)") (auto simp: CODEWORD_LEN_def)

declare data_position_loop.simps [simp del]

definition data_position :: "nat \<Rightarrow> nat" where
  "data_position index = data_position_loop index 0 1"

definition parity_mask_step :: "nat \<Rightarrow> u64 list \<Rightarrow> u64 list" where
  "parity_mask_step index masks =
     map (\<lambda>k. if data_position index AND 2 ^ k \<noteq> 0
              then masks ! k OR push_bit index 1 else masks ! k) [0..<7]"

definition build_parity_masks :: "u64 list" where
  "build_parity_masks = fold parity_mask_step [0..<64] (replicate 7 0)"

definition PARITY_MASKS :: "u64 list" where
  "PARITY_MASKS = build_parity_masks"

definition position_to_data_index :: "nat \<Rightarrow> nat option" where
  "position_to_data_index position =
     (if position = 0 \<or> position > CODEWORD_LEN \<or> is_parity_position position then None
      else Some (length (filter (\<lambda>p. \<not> is_parity_position p) [1..<position])))"

definition hamming_parities :: "u64 \<Rightarrow> u8" where
  "hamming_parities data =
     fold (\<lambda>k parity. parity OR push_bit k (of_nat (count_ones (data AND PARITY_MASKS ! k) mod 2)))
       [0..<7] 0"

definition check_bits :: "u64 \<Rightarrow> u8" where
  "check_bits data =
     (let parity = hamming_parities data;
          overall = (count_ones data + count_ones parity) mod 2
      in parity OR push_bit 7 (of_nat overall))"

datatype decoded =
    DecodedClean
  | Corrected u64 nat
  | DoubleError

definition decode :: "u64 \<Rightarrow> u8 \<Rightarrow> decoded" where
  "decode data stored =
     (let stored_parities = stored AND 0x7F;
          stored_overall = drop_bit 7 stored AND 1;
          syndrome = unat (hamming_parities data XOR stored_parities);
          received_overall = of_nat ((count_ones data + count_ones stored_parities) mod 2);
          overall_differs = (received_overall \<noteq> stored_overall)
      in if syndrome = 0 then
           (if \<not> overall_differs then DecodedClean else Corrected data 72)
         else if overall_differs then
           (case position_to_data_index syndrome of
              Some index \<Rightarrow> Corrected (data XOR push_bit index 1) index
            | None \<Rightarrow> Corrected data (64 + syndrome))
         else DoubleError)"

subsection \<open>Replicas\<close>

record replica =
  r_value :: u64
  r_check :: u8

definition replica_new :: "u64 \<Rightarrow> replica" where
  "replica_new v = \<lparr>r_value = v, r_check = check_bits v\<rparr>"

definition candidate :: "replica \<Rightarrow> u64 option" where
  "candidate r = (case decode (r_value r) (r_check r) of
       DecodedClean \<Rightarrow> Some (r_value r)
     | Corrected data _ \<Rightarrow> Some data
     | DoubleError \<Rightarrow> None)"

subsection \<open>The protected container\<close>

record protected =
  p_value :: u64
  p_check :: u8
  p_replica0 :: replica
  p_replica1 :: replica

definition protected_new :: "u64 \<Rightarrow> protected" where
  "protected_new v =
     \<lparr>p_value = v, p_check = check_bits v, p_replica0 = replica_new v, p_replica1 = replica_new v\<rparr>"

definition protected_get :: "protected \<Rightarrow> u64" where
  "protected_get p = p_value p"

text \<open>The loop of \<^verbatim>\<open>vote\<close>: the first candidate at least two ballots agree on.\<close>

fun vote_loop :: "u64 option list \<Rightarrow> u64 list \<Rightarrow> (u64 \<times> integrity) option" where
  "vote_loop ballots [] = None"
| "vote_loop ballots (cand # rest) =
     (let agreeing = length (filter (\<lambda>c. c = Some cand) ballots) in
      if agreeing < 2 then vote_loop ballots rest
      else Some (cand, CorrectedByTmr (3 - agreeing)))"

definition vote :: "protected \<Rightarrow> u64 \<times> integrity" where
  "vote p =
     (let ballots = [None, candidate (p_replica0 p), candidate (p_replica1 p)] in
      case vote_loop ballots (List.map_filter id ballots) of
        Some r \<Rightarrow> r
      | None \<Rightarrow> (p_value p, Unrecoverable))"

text \<open>
  \<^verbatim>\<open>get_checked\<close>: \<open>checked_read\<close> is the pair it returns, and the counters change only when
  the outcome is not clean (the clean case returns before \<^verbatim>\<open>record\<close>).
\<close>

definition checked_read :: "protected \<Rightarrow> u64 \<times> integrity" where
  "checked_read p = (case decode (p_value p) (p_check p) of
       DecodedClean \<Rightarrow> (p_value p, Clean)
     | Corrected data b \<Rightarrow> (data, CorrectedByEcc b)
     | DoubleError \<Rightarrow> vote p)"

definition get_checked :: "protected \<Rightarrow> integrity_stats \<Rightarrow> (u64 \<times> integrity) \<times> integrity_stats" where
  "get_checked p s = (case decode (p_value p) (p_check p) of
       DecodedClean \<Rightarrow> ((p_value p, Clean), s)
     | Corrected data b \<Rightarrow> ((data, CorrectedByEcc b), record_outcome (CorrectedByEcc b) s)
     | DoubleError \<Rightarrow> (vote p, record_outcome (snd (vote p)) s))"

definition protected_set :: "u64 \<Rightarrow> protected \<Rightarrow> protected" where
  "protected_set v p =
     p\<lparr>p_value := v, p_check := check_bits v,
       p_replica0 := replica_new v, p_replica1 := replica_new v\<rparr>"

definition repair_by_vote :: "protected \<Rightarrow> protected \<times> integrity" where
  "repair_by_vote p =
     (let (v, outcome) = vote p in
      if is_usable outcome then
        (p\<lparr>p_value := v, p_check := check_bits v,
           p_replica0 := replica_new v, p_replica1 := replica_new v\<rparr>, outcome)
      else (p, outcome))"

definition verify :: "protected \<Rightarrow> integrity_stats \<Rightarrow> (protected \<times> integrity) \<times> integrity_stats" where
  "verify p s =
     (let (p', outcome) =
        (case decode (p_value p) (p_check p) of
           DecodedClean \<Rightarrow> (p, Clean)
         | Corrected data b \<Rightarrow>
             (p\<lparr>p_value := data, p_check := check_bits data,
                p_replica0 := replica_new data, p_replica1 := replica_new data\<rparr>,
              CorrectedByEcc b)
         | DoubleError \<Rightarrow> repair_by_vote p)
      in ((p', outcome), record_outcome outcome s))"

definition get_verified :: "protected \<Rightarrow> integrity_stats \<Rightarrow> (protected \<times> u64 \<times> integrity) \<times> integrity_stats" where
  "get_verified p s =
     (let ((p', integrity), s') = verify p s in ((p', p_value p', integrity), s'))"

definition inject_flip :: "nat \<Rightarrow> protected \<Rightarrow> protected" where
  "inject_flip b p =
     (if b \<le> 63 then p\<lparr>p_value := p_value p XOR push_bit b 1\<rparr>
      else if b \<le> 71 then p\<lparr>p_check := p_check p XOR push_bit (b - 64) 1\<rparr>
      else if b \<le> 135 then
        p\<lparr>p_replica0 := (p_replica0 p)\<lparr>r_value := r_value (p_replica0 p) XOR push_bit (b - 72) 1\<rparr>\<rparr>
      else if b \<le> 199 then
        p\<lparr>p_replica1 := (p_replica1 p)\<lparr>r_value := r_value (p_replica1 p) XOR push_bit (b - 136) 1\<rparr>\<rparr>
      else if b \<le> 207 then
        p\<lparr>p_replica0 := (p_replica0 p)\<lparr>r_check := r_check (p_replica0 p) XOR push_bit (b - 200) 1\<rparr>\<rparr>
      else if b \<le> 215 then
        p\<lparr>p_replica1 := (p_replica1 p)\<lparr>r_check := r_check (p_replica1 p) XOR push_bit (b - 208) 1\<rparr>\<rparr>
      else p)"

section \<open>The code\<close>

subsection \<open>The tables\<close>

lemma fold_parity_mask_step:
  assumes "n \<le> 64"
  shows "length (fold parity_mask_step [0..<n] (replicate 7 0)) = 7 \<and>
    (\<forall>k<7. \<forall>i. bit (fold parity_mask_step [0..<n] (replicate 7 0) ! k) i
        \<longleftrightarrow> i < n \<and> bit (data_position i) k)"
  using assms
proof (induction n)
  case 0
  show ?case by simp
next
  case (Suc n)
  have "bit (parity_mask_step n masks ! k) i \<longleftrightarrow> bit (masks ! k) i \<or> i = n \<and> bit (data_position n) k"
    if "k < 7" for masks k i
    using that Suc.prems bit_iff_and_push_bit_not_eq_0 [of "data_position n" k]
    by (auto simp: parity_mask_step_def bit_or_iff bit_exp_iff)
  with Suc show ?case
    by (auto simp: parity_mask_step_def less_Suc_eq)
qed

lemma bit_PARITY_MASKS:
  "k < 7 \<Longrightarrow> bit (PARITY_MASKS ! k) i \<longleftrightarrow> i < 64 \<and> bit (data_position i) k"
  using fold_parity_mask_step [of 64] by (simp add: PARITY_MASKS_def build_parity_masks_def)

lemma bit_parity_u8: "bit (of_nat (m mod 2) :: u8) j \<longleftrightarrow> j = 0 \<and> odd m"
  by (cases "even m") (auto simp: bit_1_iff odd_iff_mod_2_eq_one)

lemma bit_fold_parities:
  "n \<le> 8 \<Longrightarrow> bit (fold (\<lambda>k parity. parity OR push_bit k (of_nat (f k mod 2))) [0..<n] (0 :: u8)) i
     \<longleftrightarrow> i < n \<and> odd (f i)"
proof (induction n)
  case 0
  show ?case by simp
next
  case (Suc n)
  then have "n \<le> 8" "n < 8" by simp_all
  have "bit (push_bit n (of_nat (f n mod 2) :: u8)) i \<longleftrightarrow> i = n \<and> odd (f n)"
    using \<open>n < 8\<close> by (auto simp only: bit_push_bit_iff bit_parity_u8 possible_bit_word) auto
  with Suc.IH [OF \<open>n \<le> 8\<close>] show ?case
    by (simp only: upt_Suc_append le0 fold_append fold_simps o_apply bit_or_iff less_Suc_eq) auto
qed

lemma bit_hamming_parities:
  "bit (hamming_parities d) k \<longleftrightarrow> k < 7 \<and> odd (count_ones (d AND PARITY_MASKS ! k))"
  by (simp only: hamming_parities_def bit_fold_parities [where n = 7])

lemma hamming_parities_xor:
  "hamming_parities (a XOR b) = hamming_parities a XOR hamming_parities b"
proof (rule bit_word_eqI)
  fix k
  have "(a XOR b) AND m = (a AND m) XOR (b AND m)" for m
    by (rule bit_word_eqI) (auto simp: bit_and_iff bit_xor_iff)
  then show "bit (hamming_parities (a XOR b)) k = bit (hamming_parities a XOR hamming_parities b) k"
    by (auto simp: bit_hamming_parities bit_xor_iff odd_count_ones_xor)
qed

lemma hamming_parities_0 [simp]: "hamming_parities 0 = 0"
  by (rule bit_word_eqI) (simp add: bit_hamming_parities)

text \<open>
  The search loop of \<^verbatim>\<open>data_position\<close> returns the position that \<open>position_to_data_index\<close>
  maps back to the index: 71 positions hold exactly 64 that are not parities.
\<close>

abbreviation data_slots :: "nat \<Rightarrow> nat list" where
  "data_slots n \<equiv> filter (\<lambda>p. \<not> is_parity_position p) [1..<n]"

lemma length_data_slots_72: "length (data_slots 72) = 64"
  by code_simp

lemma data_slots_Suc:
  "1 \<le> n \<Longrightarrow> data_slots (Suc n) = data_slots n @ (if is_parity_position n then [] else [n])"
  by simp

lemma data_position_loop_spec:
  assumes "1 \<le> position" "position \<le> 72" "seen = length (data_slots position)"
    "seen \<le> index" "index < 64"
  shows "\<exists>r. data_position_loop index seen position = r \<and> 1 \<le> r \<and> r \<le> CODEWORD_LEN \<and>
    \<not> is_parity_position r \<and> length (data_slots r) = index"
  using assms
proof (induction index seen position rule: data_position_loop.induct)
  case (1 index seen position)
  have "position \<noteq> 72"
    using "1.prems" length_data_slots_72 by auto
  with "1.prems"(2) have le: "position \<le> CODEWORD_LEN"
    by (simp add: CODEWORD_LEN_def)
  then have le': "position + 1 \<le> 72" by (simp add: CODEWORD_LEN_def)
  note unfold = data_position_loop.simps [of index seen position]
  show ?case
  proof (cases "is_parity_position position")
    case True
    then have "data_position_loop index seen position = data_position_loop index seen (position + 1)"
      using le unfold by simp
    with "1.IH"(2) [OF le] "1.prems" True le' show ?thesis
      by (simp add: data_slots_Suc)
  next
    case False
    show ?thesis
    proof (cases "seen = index")
      case True
      then have "data_position_loop index seen position = position"
        using False le unfold by simp
      with False True le "1.prems" show ?thesis by auto
    next
      case neq: False
      then have "data_position_loop index seen position = data_position_loop index (seen + 1) (position + 1)"
        using False le unfold by simp
      with False neq "1.IH"(1) [OF le False neq] "1.prems" le' show ?thesis
        by (simp add: data_slots_Suc)
    qed
  qed
qed

lemma data_position_facts:
  assumes "i < 64"
  shows "1 \<le> data_position i" "data_position i \<le> CODEWORD_LEN"
    "\<not> is_parity_position (data_position i)" "length (data_slots (data_position i)) = i"
  using data_position_loop_spec [of 1 0 i] assms by (auto simp: data_position_def)

lemma data_position_lt: "i < 64 \<Longrightarrow> data_position i < 128"
  using data_position_facts(2) [of i] by (simp add: CODEWORD_LEN_def)

lemma position_to_data_index_data_position:
  "i < 64 \<Longrightarrow> position_to_data_index (data_position i) = Some i"
  using data_position_facts [of i] by (simp add: position_to_data_index_def)

lemma data_position_inj:
  "i < 64 \<Longrightarrow> j < 64 \<Longrightarrow> data_position i = data_position j \<longleftrightarrow> i = j"
  by (metis data_position_facts(4))

lemma hamming_parities_single:
  assumes "i < 64"
  shows "hamming_parities (2 ^ i) = of_nat (data_position i)"
proof (rule bit_word_eqI)
  fix k
  assume "k < LENGTH(8)"
  then have k: "k < 8" by simp
  have single: "2 ^ i AND m = (if bit m i then 2 ^ i else 0)" for m :: u64
    by (rule bit_word_eqI) (auto simp: bit_and_iff bit_exp_iff)
  have "\<not> bit (data_position i) 7"
    using data_position_lt [OF assms] by (simp add: bit_iff_odd)
  moreover have "bit (of_nat (data_position i) :: u8) k \<longleftrightarrow> bit (data_position i) k"
    using k by (simp only: bit_of_nat_iff possible_bit_word) simp
  moreover have "bit (hamming_parities (2 ^ i)) k \<longleftrightarrow> k < 7 \<and> bit (PARITY_MASKS ! k) i"
    using assms by (simp add: bit_hamming_parities single)
  moreover have "k < 7 \<or> k = 7" using k by arith
  ultimately show "bit (hamming_parities (2 ^ i)) k = bit (of_nat (data_position i) :: u8) k"
    using assms bit_PARITY_MASKS by auto
qed

subsection \<open>Decoding is governed by the syndrome and the overall parity\<close>

definition syndrome :: "u64 \<Rightarrow> u8 \<Rightarrow> u8" where
  "syndrome d c = hamming_parities d XOR (c AND 0x7F)"

definition parity_off :: "u64 \<Rightarrow> u8 \<Rightarrow> bool" where
  "parity_off d c \<longleftrightarrow> odd (count_ones d + count_ones (c AND 0x7F)) \<noteq> bit c 7"

lemma drop_bit_7_AND_1: "drop_bit 7 (c :: u8) AND 1 = (if bit c 7 then 1 else 0)"
  by (simp add: and_one_eq bit_iff_odd_drop_bit odd_iff_mod_2_eq_one)

lemma of_nat_mod_2_u8: "(of_nat (n mod 2) :: u8) = (if odd n then 1 else 0)"
  by (simp add: odd_iff_mod_2_eq_one)

lemma decode_alt:
  "decode d c =
     (if syndrome d c = 0 then (if parity_off d c then Corrected d 72 else DecodedClean)
      else if parity_off d c then
        (case position_to_data_index (unat (syndrome d c)) of
           Some i \<Rightarrow> Corrected (d XOR 2 ^ i) i
         | None \<Rightarrow> Corrected d (64 + unat (syndrome d c)))
      else DoubleError)"
  unfolding decode_def Let_def drop_bit_7_AND_1 of_nat_mod_2_u8 syndrome_def parity_off_def
  by (simp only: unat_eq_zero push_bit_of_1 split: if_splits) simp

lemma syndrome_xor: "syndrome (d XOR e) (c XOR f) = syndrome d c XOR syndrome e f"
proof -
  have "(c XOR f) AND 0x7F = (c AND 0x7F) XOR (f AND 0x7F)"
    by (rule bit_word_eqI) (auto simp: bit_and_iff bit_xor_iff)
  then show ?thesis
    by (simp only: syndrome_def hamming_parities_xor xor.assoc xor.left_commute)
qed

lemma parity_off_xor: "parity_off (d XOR e) (c XOR f) \<longleftrightarrow> (parity_off d c \<noteq> parity_off e f)"
proof -
  have "(c XOR f) AND 0x7F = (c AND 0x7F) XOR (f AND 0x7F)"
    by (rule bit_word_eqI) (auto simp: bit_and_iff bit_xor_iff)
  then show ?thesis
    unfolding parity_off_def by (simp only: odd_add odd_count_ones_xor bit_xor_iff) blast
qed

lemma bit_0x7F: "bit (0x7F :: u8) k \<longleftrightarrow> k < 7"
proof -
  have "(0x7F :: u8) = mask 7" by (simp add: mask_eq_exp_minus_1)
  then show ?thesis by (auto simp only: bit_mask_iff possible_bit_word) auto
qed

lemma bit_check_bits:
  "bit (check_bits d) k \<longleftrightarrow> bit (hamming_parities d) k \<or>
     k = 7 \<and> odd (count_ones d + count_ones (hamming_parities d))"
  unfolding check_bits_def Let_def
  by (auto simp only: bit_or_iff bit_push_bit_iff bit_parity_u8 possible_bit_word) auto

lemma check_bits_low: "check_bits d AND 0x7F = hamming_parities d"
  by (rule bit_word_eqI) (simp only: bit_and_iff bit_check_bits bit_0x7F bit_hamming_parities, auto)

lemma syndrome_check_bits [simp]: "syndrome d (check_bits d) = 0"
  by (simp add: syndrome_def check_bits_low)

lemma parity_off_check_bits [simp]: "\<not> parity_off d (check_bits d)"
  by (simp add: parity_off_def check_bits_low bit_check_bits bit_hamming_parities)

lemma decode_check_bits [simp]: "decode d (check_bits d) = DecodedClean"
  by (simp add: decode_alt)

subsection \<open>Error vectors\<close>

text \<open>
  Flipping code-word bit \<open>p < 72\<close> (0..63 the value, 64..71 the check byte) adds the error
  vector \<open>(err_data p, err_check p)\<close>; its syndrome is the column \<open>column p\<close> of the code.
\<close>

definition err_data :: "nat \<Rightarrow> u64" where
  "err_data p = (if p < 64 then 2 ^ p else 0)"

definition err_check :: "nat \<Rightarrow> u8" where
  "err_check p = (if 64 \<le> p \<and> p < 72 then 2 ^ (p - 64) else 0)"

definition column :: "nat \<Rightarrow> nat" where
  "column p = (if p < 64 then data_position p else if p < 71 then 2 ^ (p - 64) else 0)"

definition reported_bit :: "nat \<Rightarrow> nat" where
  "reported_bit p = (if p < 64 then p else if p < 71 then 64 + 2 ^ (p - 64) else 72)"

lemma nat_lt_8_cases:
  assumes "(j::nat) < 8"
  obtains "j = 0" | "j = 1" | "j = 2" | "j = 3" | "j = 4" | "j = 5" | "j = 6" | "j = 7"
  using assms by linarith

lemma exp_AND_0x7F: "j < 8 \<Longrightarrow> (2 ^ j :: u8) AND 0x7F = (if j < 7 then 2 ^ j else 0)"
  by (erule nat_lt_8_cases) simp_all

lemma bit_7_exp: "j < 8 \<Longrightarrow> bit (2 ^ j :: u8) 7 \<longleftrightarrow> j = 7"
  by (auto simp: bit_exp_iff)

lemma parity_off_err:
  assumes "p < 72" shows "parity_off (err_data p) (err_check p)"
proof (cases "p < 64")
  case True
  then show ?thesis by (simp add: parity_off_def err_data_def err_check_def)
next
  case False
  then have j: "p - 64 < 8" and p: "64 \<le> p" using assms by simp_all
  show ?thesis
  proof (cases "p - 64 < 7")
    case True
    then show ?thesis using p assms
      by (simp add: parity_off_def err_data_def err_check_def exp_AND_0x7F bit_7_exp)
  next
    case False
    then show ?thesis using p assms j
      by (simp add: parity_off_def err_data_def err_check_def exp_AND_0x7F bit_7_exp)
  qed
qed

lemma unat_syndrome_err:
  assumes "p < 72" shows "unat (syndrome (err_data p) (err_check p)) = column p"
proof (cases "p < 64")
  case True
  then show ?thesis using data_position_lt [OF True]
    by (simp add: syndrome_def err_data_def err_check_def column_def hamming_parities_single
        unat_of_nat take_bit_nat_eq_self)
next
  case False
  then have "p - 64 < 8" using assms by simp
  then have "unat (2 ^ (p - 64) :: u8) = 2 ^ (p - 64)"
    by (rule nat_lt_8_cases) simp_all
  with False assms show ?thesis
    by (auto simp: syndrome_def err_data_def err_check_def column_def exp_AND_0x7F)
qed

lemma parity_position_exp: "j < 7 \<Longrightarrow> is_parity_position (2 ^ j)"
  by (erule nat_lt_8_cases [OF less_trans]) (simp_all add: is_parity_position_def is_power_of_two_def)

lemma column_eq_0: "p < 72 \<Longrightarrow> column p = 0 \<longleftrightarrow> p = 71"
  using data_position_facts(1) [of p] by (auto simp: column_def)

lemma column_inj:
  assumes "p < 72" "q < 72" "column p = column q" shows "p = q"
proof -
  have mixed: "column a \<noteq> column b" if "a < 64" "64 \<le> b" "b < 72" for a b
    using that data_position_facts(1,3) [of a] parity_position_exp [of "b - 64"]
    by (auto simp: column_def)
  consider "p < 64" "q < 64" | "p < 64" "64 \<le> q" | "64 \<le> p" "q < 64" | "64 \<le> p" "64 \<le> q"
    by linarith
  then show ?thesis
  proof cases
    case 1
    with assms show ?thesis by (simp add: column_def data_position_inj)
  next
    case 2
    with assms mixed show ?thesis by metis
  next
    case 3
    with assms mixed show ?thesis by metis
  next
    case 4
    with assms show ?thesis by (auto simp: column_def split: if_splits)
  qed
qed

text \<open>SECDED: one flip is corrected and named, two distinct flips are detected.\<close>

lemma decode_one_flip:
  assumes "p < 72"
  shows "decode (v XOR err_data p) (check_bits v XOR err_check p) = Corrected v (reported_bit p)"
proof -
  let ?d = "v XOR err_data p" and ?c = "check_bits v XOR err_check p"
  have syn: "syndrome ?d ?c = syndrome (err_data p) (err_check p)"
    by (simp add: syndrome_xor)
  have off: "parity_off ?d ?c"
    using assms by (simp add: parity_off_xor parity_off_err)
  have u: "unat (syndrome ?d ?c) = column p"
    using assms by (simp add: syn unat_syndrome_err)
  then have zero: "syndrome ?d ?c = 0 \<longleftrightarrow> p = 71"
    using column_eq_0 [OF assms] by (metis unat_eq_zero)
  consider "p < 64" | "64 \<le> p" "p < 71" | "p = 71" using assms by linarith
  then show ?thesis
  proof cases
    case 1
    then have "decode ?d ?c = Corrected (?d XOR 2 ^ p) p"
      by (simp add: decode_alt off u zero position_to_data_index_data_position column_def)
    with 1 show ?thesis by (simp add: err_data_def reported_bit_def xor.assoc)
  next
    case 2
    then have "position_to_data_index (2 ^ (p - 64)) = None"
      by (simp add: position_to_data_index_def parity_position_exp)
    with 2 have "decode ?d ?c = Corrected ?d (64 + 2 ^ (p - 64))"
      by (simp add: decode_alt off u zero column_def)
    with 2 show ?thesis by (simp add: err_data_def reported_bit_def)
  next
    case 3
    with zero off have "decode ?d ?c = Corrected ?d 72"
      by (simp add: decode_alt)
    with 3 show ?thesis by (simp add: err_data_def reported_bit_def)
  qed
qed

lemma decode_two_flips:
  assumes "p < 72" "q < 72" "p \<noteq> q"
  shows "decode ((v XOR err_data p) XOR err_data q) ((check_bits v XOR err_check p) XOR err_check q)
    = DoubleError"
proof -
  let ?d = "(v XOR err_data p) XOR err_data q" and ?c = "(check_bits v XOR err_check p) XOR err_check q"
  have "syndrome ?d ?c = syndrome (err_data p) (err_check p) XOR syndrome (err_data q) (err_check q)"
    by (simp add: syndrome_xor)
  moreover have "syndrome (err_data p) (err_check p) \<noteq> syndrome (err_data q) (err_check q)"
    using column_inj [OF assms(1,2)] assms unat_syndrome_err by metis
  ultimately have "syndrome ?d ?c \<noteq> 0"
    using word_xor_eq_0 by metis
  moreover have "\<not> parity_off ?d ?c"
    using assms by (simp add: parity_off_xor parity_off_err)
  ultimately show ?thesis by (simp add: decode_alt)
qed

section \<open>The container\<close>

lemma candidate_one_flip:
  assumes "p < 72" "r_value r = v XOR err_data p" "r_check r = check_bits v XOR err_check p"
  shows "candidate r = Some v"
  using assms by (simp add: candidate_def decode_one_flip)

lemma vote_agree:
  assumes "candidate (p_replica0 p) = Some v" "candidate (p_replica1 p) = Some v"
  shows "vote p = (v, CorrectedByTmr 1)"
  using assms by (simp add: vote_def List.map_filter_simps)

lemma vote_cases:
  "vote p = (case (candidate (p_replica0 p), candidate (p_replica1 p)) of
       (Some a, Some b) \<Rightarrow> if a = b then (a, CorrectedByTmr 1) else (p_value p, Unrecoverable)
     | _ \<Rightarrow> (p_value p, Unrecoverable))"
  by (auto simp: vote_def List.map_filter_simps split: option.splits)

lemma get_checked_eq:
  "get_checked p s =
     (checked_read p,
      if snd (checked_read p) = Clean then s else record_outcome (snd (checked_read p)) s)"
  by (auto simp: get_checked_def checked_read_def vote_cases split: decoded.splits option.splits)

lemma fst_get_checked [simp]: "fst (get_checked p s) = checked_read p"
  by (simp add: get_checked_eq)

text \<open>What \<open>verify\<close> leaves in storage, as a function of the cell alone.\<close>

definition scrub :: "protected \<Rightarrow> protected" where
  "scrub p = (case checked_read p of
       (v, Clean) \<Rightarrow> p
     | (v, Unrecoverable) \<Rightarrow> p
     | (v, _) \<Rightarrow> protected_new v)"

lemma protected_eq_new:
  "p\<lparr>p_value := v, p_check := check_bits v,
     p_replica0 := replica_new v, p_replica1 := replica_new v\<rparr> = protected_new v"
  by (cases p) (simp add: protected_new_def)

lemma protected_set_eq_new [simp]: "protected_set v p = protected_new v"
  by (simp add: protected_set_def protected_eq_new)

lemma verify_eq:
  "verify p s = ((scrub p, snd (checked_read p)), record_outcome (snd (checked_read p)) s)"
  by (auto simp: verify_def scrub_def checked_read_def repair_by_vote_def vote_cases
      protected_eq_new Let_def split: decoded.splits option.splits)

lemma fst_verify: "fst (verify p s) = (scrub p, snd (checked_read p))"
  by (simp add: verify_eq)

lemma snd_verify [simp]: "snd (verify p s) = record_outcome (snd (checked_read p)) s"
  by (simp add: verify_eq)

text \<open>A cell stands for a value when a checked read returns it as usable.\<close>

definition stands_for :: "protected \<Rightarrow> u64 \<Rightarrow> bool" where
  "stands_for p v \<longleftrightarrow> fst (checked_read p) = v \<and> is_usable (snd (checked_read p))"

lemma checked_read_new [simp]: "checked_read (protected_new v) = (v, Clean)"
  by (simp add: checked_read_def protected_new_def)

lemma stands_for_new [simp]: "stands_for (protected_new v) v"
  by (simp add: stands_for_def)

lemma stands_for_unique: "stands_for p v \<Longrightarrow> stands_for p w \<Longrightarrow> v = w"
  by (simp add: stands_for_def)

lemma checked_read_Clean: "checked_read p = (v, Clean) \<Longrightarrow> p_value p = v"
  by (auto simp: checked_read_def vote_cases split: decoded.splits option.splits if_splits)

lemma p_value_new [simp]: "p_value (protected_new v) = v"
  by (simp add: protected_new_def)

lemma scrub_stands_for:
  assumes "stands_for p v"
  shows "stands_for (scrub p) v" "p_value (scrub p) = v" "checked_read (scrub p) = (v, Clean)"
proof -
  obtain i where r: "checked_read p = (v, i)" and u: "is_usable i"
    using assms by (cases "checked_read p") (auto simp: stands_for_def)
  then show "checked_read (scrub p) = (v, Clean)" "p_value (scrub p) = v" "stands_for (scrub p) v"
    by (cases i; auto simp: scrub_def stands_for_def dest: checked_read_Clean)+
qed

subsection \<open>Injected flips\<close>

text \<open>
  \<open>inject_flip\<close> addresses 216 bits: the primary code word (0..71), the first replica (72..135
  and 200..207) and the second (136..199 and 208..215).  A list of flips acts on each code
  word separately, as the sum of its error vectors.
\<close>

definition add_errs :: "nat list \<Rightarrow> u64 \<times> u8 \<Rightarrow> u64 \<times> u8" where
  "add_errs ps w = fold (\<lambda>p (d, c). (d XOR err_data p, c XOR err_check p)) ps w"

definition primary_hits :: "nat list \<Rightarrow> nat list" where
  "primary_hits bs = filter (\<lambda>b. b < 72) bs"

definition replica0_hits :: "nat list \<Rightarrow> nat list" where
  "replica0_hits bs = map (\<lambda>b. if b \<le> 135 then b - 72 else b - 136)
     (filter (\<lambda>b. 72 \<le> b \<and> b \<le> 135 \<or> 200 \<le> b \<and> b \<le> 207) bs)"

definition replica1_hits :: "nat list \<Rightarrow> nat list" where
  "replica1_hits bs = map (\<lambda>b. if b \<le> 199 then b - 136 else b - 144)
     (filter (\<lambda>b. 136 \<le> b \<and> b \<le> 199 \<or> 208 \<le> b \<and> b \<le> 215) bs)"

abbreviation primary_word :: "protected \<Rightarrow> u64 \<times> u8" where
  "primary_word p \<equiv> (p_value p, p_check p)"

abbreviation replica_word :: "replica \<Rightarrow> u64 \<times> u8" where
  "replica_word r \<equiv> (r_value r, r_check r)"

lemma fold_inject_flip:
  "primary_word (fold inject_flip bs p) = add_errs (primary_hits bs) (primary_word p)"
  "replica_word (p_replica0 (fold inject_flip bs p)) = add_errs (replica0_hits bs) (replica_word (p_replica0 p))"
  "replica_word (p_replica1 (fold inject_flip bs p)) = add_errs (replica1_hits bs) (replica_word (p_replica1 p))"
proof (induction bs arbitrary: p)
  case Nil
  case 1 show ?case by (simp add: add_errs_def primary_hits_def)
  case 2 show ?case by (simp add: add_errs_def replica0_hits_def)
  case 3 show ?case by (simp add: add_errs_def replica1_hits_def)
next
  case (Cons b bs)
  case 1 show ?case
    using Cons(1) [of "inject_flip b p"]
    by (auto simp: add_errs_def primary_hits_def inject_flip_def err_data_def err_check_def)
  case 2 show ?case
    using Cons(2) [of "inject_flip b p"]
    by (auto simp: add_errs_def replica0_hits_def inject_flip_def err_data_def err_check_def)
  case 3 show ?case
    using Cons(3) [of "inject_flip b p"]
    by (auto simp: add_errs_def replica1_hits_def inject_flip_def err_data_def err_check_def)
qed

lemma replica_hits_lt: "h \<in> set (replica0_hits bs) \<Longrightarrow> h < 72" "h \<in> set (replica1_hits bs) \<Longrightarrow> h < 72"
  by (auto simp: replica0_hits_def replica1_hits_def split: if_splits)

lemma list_length_le_1: "length xs \<le> 1 \<Longrightarrow> xs = [] \<or> (\<exists>x. xs = [x])"
  by (cases xs) auto

lemma candidate_few_flips:
  assumes "replica_word r = add_errs hs (v, check_bits v)" "length hs \<le> 1" "\<forall>h\<in>set hs. h < 72"
  shows "candidate r = Some v"
  using list_length_le_1 [OF assms(2)] assms(1,3)
  by (auto simp: add_errs_def candidate_def decode_one_flip)

lemma checked_read_one_flip:
  assumes "b < 72"
  shows "checked_read (inject_flip b (protected_new v)) = (v, CorrectedByEcc (reported_bit b))"
proof -
  have "primary_word (inject_flip b (protected_new v)) = (v XOR err_data b, check_bits v XOR err_check b)"
    using assms by (auto simp: inject_flip_def protected_new_def err_data_def err_check_def)
  then show ?thesis
    using assms by (simp add: checked_read_def decode_one_flip)
qed

lemma checked_read_few_flips:
  assumes "distinct bs" "length (primary_hits bs) \<le> 2"
    "length (replica0_hits bs) \<le> 1" "length (replica1_hits bs) \<le> 1"
  shows "stands_for (fold inject_flip bs (protected_new v)) v"
proof -
  let ?p = "fold inject_flip bs (protected_new v)"
  have words: "primary_word ?p = add_errs (primary_hits bs) (v, check_bits v)"
    "replica_word (p_replica0 ?p) = add_errs (replica0_hits bs) (v, check_bits v)"
    "replica_word (p_replica1 ?p) = add_errs (replica1_hits bs) (v, check_bits v)"
    by (simp_all only: fold_inject_flip) (simp_all add: protected_new_def replica_new_def)
  have r0: "candidate (p_replica0 ?p) = Some v" and r1: "candidate (p_replica1 ?p) = Some v"
    using candidate_few_flips words(2,3) assms(3,4) replica_hits_lt by blast+
  have hs: "\<forall>h\<in>set (primary_hits bs). h < 72" "distinct (primary_hits bs)"
    using assms(1) by (auto simp: primary_hits_def)
  consider "primary_hits bs = []" | a where "primary_hits bs = [a]"
    | a b where "primary_hits bs = [a, b]"
    using assms(2) by (cases "primary_hits bs" rule: list.exhaust; cases "tl (primary_hits bs)") auto
  then show ?thesis
  proof cases
    case 1
    then show ?thesis using words(1) by (simp add: add_errs_def stands_for_def checked_read_def)
  next
    case (2 a)
    then show ?thesis using words(1) hs
      by (simp add: add_errs_def stands_for_def checked_read_def decode_one_flip)
  next
    case (3 a b)
    then have "decode (p_value ?p) (p_check ?p) = DoubleError"
      using words(1) hs by (simp add: add_errs_def decode_two_flips)
    then show ?thesis using vote_agree [OF r0 r1]
      by (simp add: stands_for_def checked_read_def)
  qed
qed

section \<open>The cell interface\<close>

text \<open>
  What a client relies on when it keeps its state in protected words: a cell stands for at
  most one value, a fresh or stored cell stands for what was put in it, a checked read
  returns that value, and a scrub makes the plain load return it.
\<close>

locale protected_cell =
  fixes repr :: "'c \<Rightarrow> 'v \<Rightarrow> bool"
    and make :: "'v \<Rightarrow> 'c"
    and store :: "'v \<Rightarrow> 'c \<Rightarrow> 'c"
    and load :: "'c \<Rightarrow> 'v"
    and checked :: "'c \<Rightarrow> 'v"
    and fix_up :: "'c \<Rightarrow> 'c"
  assumes repr_make: "repr (make v) v"
    and repr_store: "repr (store v c) v"
    and repr_checked: "repr c v \<Longrightarrow> checked c = v"
    and repr_fix_up: "repr c v \<Longrightarrow> repr (fix_up c) v"
    and load_fix_up: "repr c v \<Longrightarrow> load (fix_up c) = v"
begin

lemma repr_unique: "repr c v \<Longrightarrow> repr c w \<Longrightarrow> v = w"
  using repr_checked by metis

lemma cells_checked: "list_all2 repr cs vs \<Longrightarrow> map checked cs = vs"
  by (induction rule: list_all2_induct) (simp_all add: repr_checked)

lemma cells_fix_up: "list_all2 repr cs vs \<Longrightarrow> list_all2 repr (map fix_up cs) vs"
  by (induction rule: list_all2_induct) (simp_all add: repr_fix_up)

lemma cells_load_fix_up: "list_all2 repr cs vs \<Longrightarrow> map load (map fix_up cs) = vs"
  by (induction rule: list_all2_induct) (simp_all add: load_fix_up)

lemma cells_append_make: "list_all2 repr cs vs \<Longrightarrow> list_all2 repr (cs @ [make v]) (vs @ [v])"
  by (simp add: list_all2_appendI repr_make)

lemma opt_fix_up: "rel_option repr oc ov \<Longrightarrow> rel_option repr (map_option fix_up oc) ov"
  by (cases oc; cases ov) (simp_all add: repr_fix_up)

end

interpretation cell: protected_cell stands_for protected_new protected_set protected_get
  "\<lambda>p. fst (checked_read p)" scrub
proof unfold_locales
  fix c v
  assume "stands_for c v"
  then show "fst (checked_read c) = v" "stands_for (scrub c) v" "protected_get (scrub c) = v"
    using scrub_stands_for by (simp_all add: stands_for_def protected_get_def)
qed simp_all

section \<open>Properties\<close>

text \<open>C1: Single-error correction.  Whatever the stored value, one flipped bit anywhere in the
  primary code word (64 value bits, 8 check bits) is corrected: a checked read returns the
  stored value and reports an ECC correction, and \<open>verify\<close> rewrites the whole cell to the
  freshly encoded one; both count one check and one ECC correction.\<close>

theorem secded_corrects_single_flip:
  assumes "b < 72"
  shows "get_checked (inject_flip b (protected_new v)) s =
      ((v, CorrectedByEcc (reported_bit b)), record_outcome (CorrectedByEcc (reported_bit b)) s) \<and>
    verify (inject_flip b (protected_new v)) s =
      ((protected_new v, CorrectedByEcc (reported_bit b)), record_outcome (CorrectedByEcc (reported_bit b)) s)"
  using checked_read_one_flip [OF assms] by (simp add: get_checked_eq verify_eq scrub_def)

theorem secded_corrects_single_flip_witness:
  "verify (inject_flip 40 (protected_new 12345)) \<lparr>checks = 0, ecc_corrections = 0, tmr_corrections = 0, unrecoverable = 0\<rparr>
     = ((protected_new 12345, CorrectedByEcc 40), \<lparr>checks = 1, ecc_corrections = 1, tmr_corrections = 0, unrecoverable = 0\<rparr>)"
  using secded_corrects_single_flip [of 40 12345]
  by (simp add: reported_bit_def record_outcome_def)

text \<open>C2: Double-error detection and the emergency tier.  Two distinct flips in the primary code
  word are never taken for a clean or singly damaged word: the decoder reports a double
  error, and \<open>verify\<close> restores the stored value from the replicas, reporting one outvoted copy.\<close>

theorem secded_detects_double_flip:
  assumes "b < 72" "b' < 72" "b \<noteq> b'"
  shows "decode (p_value (inject_flip b' (inject_flip b (protected_new v))))
      (p_check (inject_flip b' (inject_flip b (protected_new v)))) = DoubleError \<and>
    verify (inject_flip b' (inject_flip b (protected_new v))) s =
      ((protected_new v, CorrectedByTmr 1), record_outcome (CorrectedByTmr 1) s)"
proof -
  let ?p = "inject_flip b' (inject_flip b (protected_new v))"
  have p: "?p = fold inject_flip [b, b'] (protected_new v)" by simp
  have hits: "primary_hits [b, b'] = [b, b']" "replica0_hits [b, b'] = []" "replica1_hits [b, b'] = []"
    using assms by (auto simp: primary_hits_def replica0_hits_def replica1_hits_def)
  have "primary_word ?p = add_errs [b, b'] (v, check_bits v)"
    unfolding p by (simp only: fold_inject_flip(1) hits) (simp add: protected_new_def)
  then have d: "decode (p_value ?p) (p_check ?p) = DoubleError"
    using assms by (simp add: add_errs_def decode_two_flips)
  have "replica_word (p_replica0 ?p) = (v, check_bits v)" "replica_word (p_replica1 ?p) = (v, check_bits v)"
    unfolding p by (simp_all only: fold_inject_flip(2,3) hits)
      (simp_all add: protected_new_def replica_new_def add_errs_def)
  then have "vote ?p = (v, CorrectedByTmr 1)"
    by (intro vote_agree) (simp_all add: candidate_def)
  with d show ?thesis
    by (simp add: verify_eq checked_read_def scrub_def)
qed

theorem secded_detects_double_flip_witness:
  "decode (p_value (inject_flip 71 (inject_flip 3 (protected_new 7))))
     (p_check (inject_flip 71 (inject_flip 3 (protected_new 7)))) = DoubleError"
  by (rule secded_detects_double_flip [THEN conjunct1]) simp_all

text \<open>C3: The damage budget of a protected word.  Any set of distinct bit flips with at most two in
  the primary code word and at most one in each replica's is survived: a checked read and a
  \<open>verify\<close> both return the stored value, and after the \<open>verify\<close> the primary word is clean.\<close>

theorem protected_damage_budget:
  assumes "distinct bs" "length (primary_hits bs) \<le> 2"
    "length (replica0_hits bs) \<le> 1" "length (replica1_hits bs) \<le> 1"
  shows "fst (fst (get_checked (fold inject_flip bs (protected_new v)) s)) = v \<and>
    protected_get (fst (fst (verify (fold inject_flip bs (protected_new v)) s))) = v \<and>
    fst (get_checked (fst (fst (verify (fold inject_flip bs (protected_new v)) s))) s') = (v, Clean)"
  using checked_read_few_flips [OF assms, of v]
  by (simp add: fst_verify cell.load_fix_up scrub_stands_for cell.repr_checked)

theorem protected_damage_budget_witness:
  "fst (fst (get_checked (fold inject_flip [3, 40, 100, 210] (protected_new 99))
     \<lparr>checks = 0, ecc_corrections = 0, tmr_corrections = 0, unrecoverable = 0\<rparr>)) = 99"
  by (rule protected_damage_budget [THEN conjunct1])
    (simp_all add: primary_hits_def replica0_hits_def replica1_hits_def)

text \<open>The vote never invents a value.  When the code gives up on the primary word, \<open>verify\<close>
  either restores a value that both replicas vouch for, or reports the word as
  unrecoverable and leaves the storage exactly as it was.\<close>

theorem vote_is_sound:
  assumes "decode (p_value p) (p_check p) = DoubleError"
  shows "(\<exists>v. candidate (p_replica0 p) = Some v \<and> candidate (p_replica1 p) = Some v \<and>
           fst (verify p s) = (protected_new v, CorrectedByTmr 1))
      \<or> fst (verify p s) = (p, Unrecoverable)"
  using assms by (auto simp: verify_eq checked_read_def scrub_def vote_cases split: option.splits)

theorem vote_is_sound_witness:
  "(\<exists>v. candidate (p_replica0 (fold inject_flip [1, 2] (protected_new 5))) = Some v \<and>
        candidate (p_replica1 (fold inject_flip [1, 2] (protected_new 5))) = Some v \<and>
        fst (verify (fold inject_flip [1, 2] (protected_new 5)) \<lparr>checks = 0, ecc_corrections = 0, tmr_corrections = 0, unrecoverable = 0\<rparr>) = (protected_new v, CorrectedByTmr 1))
    \<or> fst (verify (fold inject_flip [1, 2] (protected_new 5)) \<lparr>checks = 0, ecc_corrections = 0, tmr_corrections = 0, unrecoverable = 0\<rparr>) = (fold inject_flip [1, 2] (protected_new 5), Unrecoverable)"
proof (rule vote_is_sound)
  have "primary_word (fold inject_flip [1, 2] (protected_new 5)) = add_errs [1, 2] (5, check_bits 5)"
    by (simp only: fold_inject_flip) (simp add: primary_hits_def protected_new_def)
  then show "decode (p_value (fold inject_flip [1, 2] (protected_new 5)))
      (p_check (fold inject_flip [1, 2] (protected_new 5))) = DoubleError"
    using decode_two_flips [of 1 2 5] by (simp add: add_errs_def)
qed

text \<open>The position reported for damage in the check byte is not a position of the 72-bit code
  word: the parities P1..P64 are reported as 64 plus their power of two (up to 128), and
  a flip of P8 and a flip of the overall parity are both reported as bit 72.\<close>

theorem check_byte_report:
  "snd (checked_read (inject_flip 67 (protected_new v))) = CorrectedByEcc 72 \<and>
   snd (checked_read (inject_flip 71 (protected_new v))) = CorrectedByEcc 72 \<and>
   snd (checked_read (inject_flip 70 (protected_new v))) = CorrectedByEcc 128"
  by (simp add: checked_read_one_flip reported_bit_def)

end
