(* ===== verification/Chronometer.thy ===== *)
theory Chronometer
  imports Redundancy
begin

text \<open>
  \<^verbatim>\<open>crates/nanochrono-core/src/context.rs\<close>: the calibrated counter.  Readings of the hardware
  counter (\<^verbatim>\<open>arch::counter_start\<close>, \<^verbatim>\<open>arch::counter_end\<close>, \<^verbatim>\<open>arch::read_overhead\<close>) and of the
  monotonic clock (\<^verbatim>\<open>platform::monotonic_ns\<close>) are arguments, in the order the code takes
  them; a polling loop takes the list of readings it polls and is \<open>None\<close> while it is still
  waiting at the end of that list.  The drift estimate is an \<^verbatim>\<open>f64\<close> computed from two
  integer rates: the type of floats \<open>'f\<close> and that computation are parameters.
\<close>

section \<open>Definitions\<close>

definition DEFAULT_CALIBRATION_MS :: u32 where
  "DEFAULT_CALIBRATION_MS = 200"

record 'f chronometer =
  counter_hz :: protected
  c_start_units :: protected
  c_start_ns :: u64
  window_units :: u64
  window_ns :: u64
  drift_ppm :: 'f
  overhead_units :: u64
  c_last_integrity :: integrity

text \<open>\<^verbatim>\<open>((x as u128 * m) / y as u128) as u64\<close>: exact in 128 bits, then truncated.\<close>

definition mul_div_u64 :: "u64 \<Rightarrow> nat \<Rightarrow> u64 \<Rightarrow> u64" where
  "mul_div_u64 x m y = of_nat (unat x * m div unat y)"

text \<open>The busy-wait of \<^verbatim>\<open>calibrate\<close>: polls until the window has passed.\<close>

fun calibrate_wait :: "u64 \<Rightarrow> u64 \<Rightarrow> u64 list \<Rightarrow> u64 option" where
  "calibrate_wait win ns0 [] = None"
| "calibrate_wait win ns0 (now # rest) =
     (if now - ns0 \<ge> win then Some now else calibrate_wait win ns0 rest)"

definition calibrate ::
  "u64 option \<Rightarrow> u32 \<Rightarrow> u64 \<Rightarrow> u64 \<Rightarrow> u64 list \<Rightarrow> u64 \<Rightarrow> u64 \<Rightarrow> 'f chronometer \<Rightarrow> ('f chronometer \<times> bool) option" where
  "calibrate declared ms ns0 c0 polls c1 ns1 ctx =
     (case declared of
        Some hz \<Rightarrow> Some (ctx\<lparr>counter_hz := protected_set hz (counter_hz ctx)\<rparr>, True)
      | None \<Rightarrow>
          let win = ucast (max ms 1) * 1000000 in
          case calibrate_wait win ns0 polls of
            None \<Rightarrow> None
          | Some _ \<Rightarrow>
              let d_units = c1 - c0; d_ns = ns1 - ns0 in
              if d_ns = 0 \<or> d_units = 0 then Some (ctx, False)
              else let hz = mul_div_u64 d_units 1000000000 d_ns in
                Some (ctx\<lparr>counter_hz := protected_set (max hz 1) (counter_hz ctx)\<rparr>, True))"

definition chrono_reset :: "'f \<Rightarrow> u64 \<Rightarrow> u64 \<Rightarrow> 'f chronometer \<Rightarrow> 'f chronometer" where
  "chrono_reset zero units ns ctx =
     ctx\<lparr>c_start_units := protected_set units (c_start_units ctx), c_start_ns := ns,
         window_units := units, window_ns := ns, drift_ppm := zero\<rparr>"

definition with_backend ::
  "'f \<Rightarrow> u64 \<Rightarrow> u64 option \<Rightarrow> u64 \<Rightarrow> u64 \<Rightarrow> u64 list \<Rightarrow> u64 \<Rightarrow> u64 \<Rightarrow> u64 \<Rightarrow> u64 \<Rightarrow> 'f chronometer option" where
  "with_backend zero overhead declared ns0 c0 polls c1 ns1 units ns =
     (let ctx = \<lparr>counter_hz = protected_new 1, c_start_units = protected_new 0, c_start_ns = 0,
                 window_units = 0, window_ns = 0, drift_ppm = zero, overhead_units = overhead,
                 c_last_integrity = Clean\<rparr> in
      case calibrate declared DEFAULT_CALIBRATION_MS ns0 c0 polls c1 ns1 ctx of
        None \<Rightarrow> None
      | Some (ctx, _) \<Rightarrow> Some (chrono_reset zero units ns ctx))"

definition chrono_start :: "u64 \<Rightarrow> u64 \<Rightarrow> 'f chronometer \<Rightarrow> u64 \<times> 'f chronometer" where
  "chrono_start units ns ctx =
     (units, ctx\<lparr>c_start_units := protected_set units (c_start_units ctx), c_start_ns := ns,
                 window_units := units, window_ns := ns\<rparr>)"

definition elapsed_units ::
  "(u64 \<Rightarrow> u64 \<Rightarrow> 'f) \<Rightarrow> u64 \<Rightarrow> u64 \<Rightarrow> 'f chronometer \<Rightarrow> integrity_stats
     \<Rightarrow> u64 \<times> 'f chronometer \<times> integrity_stats" where
  "elapsed_units ppm now_units now_ns ctx s =
     (let d_ns = now_ns - window_ns ctx;
          (ctx, s) =
            (if d_ns \<ge> 1000000000 then
               let ((hz', i1), s) = verify (counter_hz ctx) s;
                   ((st', i2), s) = verify (c_start_units ctx) s;
                   ctx = ctx\<lparr>counter_hz := hz', c_start_units := st',
                             c_last_integrity := integrity_max i1 i2\<rparr>;
                   d_units = now_units - window_units ctx;
                   instant_hz = mul_div_u64 d_units 1000000000 d_ns;
                   hz = protected_get (counter_hz ctx);
                   ctx = (if instant_hz \<noteq> 0 \<and> hz \<noteq> 0
                          then ctx\<lparr>drift_ppm := ppm instant_hz hz\<rparr> else ctx)
               in (ctx\<lparr>window_units := now_units, window_ns := now_ns\<rparr>, s)
             else (ctx, s));
          ((start, _), s) = get_checked (c_start_units ctx) s
      in (now_units - start, ctx, s))"

definition units_to_ns :: "'f chronometer \<Rightarrow> u64 \<Rightarrow> u64" where
  "units_to_ns ctx units =
     (let hz = protected_get (counter_hz ctx) in
      if hz = 0 then 0 else mul_div_u64 units 1000000000 hz)"

definition units_to_us :: "'f chronometer \<Rightarrow> u64 \<Rightarrow> u64" where
  "units_to_us ctx units =
     (let hz = protected_get (counter_hz ctx) in
      if hz = 0 then 0 else mul_div_u64 units 1000000 hz)"

definition units_to_ms :: "'f chronometer \<Rightarrow> u64 \<Rightarrow> u64" where
  "units_to_ms ctx units =
     (let hz = protected_get (counter_hz ctx) in
      if hz = 0 then 0 else mul_div_u64 units 1000 hz)"

definition ns_to_units :: "'f chronometer \<Rightarrow> u64 \<Rightarrow> u64" where
  "ns_to_units ctx ns = of_nat (unat ns * unat (protected_get (counter_hz ctx)) div 1000000000)"

definition chrono_elapsed_ns ::
  "(u64 \<Rightarrow> u64 \<Rightarrow> 'f) \<Rightarrow> u64 \<Rightarrow> u64 \<Rightarrow> 'f chronometer \<Rightarrow> integrity_stats
     \<Rightarrow> u64 \<times> 'f chronometer \<times> integrity_stats" where
  "chrono_elapsed_ns ppm now_units now_ns ctx s =
     (let (units, ctx, s) = elapsed_units ppm now_units now_ns ctx s
      in (units_to_ns ctx units, ctx, s))"

definition elapsed_us ::
  "(u64 \<Rightarrow> u64 \<Rightarrow> 'f) \<Rightarrow> u64 \<Rightarrow> u64 \<Rightarrow> 'f chronometer \<Rightarrow> integrity_stats
     \<Rightarrow> u64 \<times> 'f chronometer \<times> integrity_stats" where
  "elapsed_us ppm now_units now_ns ctx s =
     (let (ns, ctx, s) = chrono_elapsed_ns ppm now_units now_ns ctx s in (ns div 1000, ctx, s))"

definition elapsed_ms ::
  "(u64 \<Rightarrow> u64 \<Rightarrow> 'f) \<Rightarrow> u64 \<Rightarrow> u64 \<Rightarrow> 'f chronometer \<Rightarrow> integrity_stats
     \<Rightarrow> u64 \<times> 'f chronometer \<times> integrity_stats" where
  "elapsed_ms ppm now_units now_ns ctx s =
     (let (ns, ctx, s) = chrono_elapsed_ns ppm now_units now_ns ctx s in (ns div 1000000, ctx, s))"

text \<open>The spin loop: \<open>Some n\<close> when it ends at the \<open>n\<close>-th poll.\<close>

fun spin_until :: "u64 \<Rightarrow> u64 list \<Rightarrow> nat \<Rightarrow> nat option" where
  "spin_until target [] n = None"
| "spin_until target (now # rest) n = (if now < target then spin_until target rest (n + 1) else Some n)"

definition spin_ns :: "'f chronometer \<Rightarrow> u64 \<Rightarrow> u64 \<Rightarrow> u64 list \<Rightarrow> nat option" where
  "spin_ns ctx ns now polls =
     (if ns = 0 then Some 0 else spin_until (now + ns_to_units ctx ns) polls 0)"

definition spin_us :: "'f chronometer \<Rightarrow> u64 \<Rightarrow> u64 \<Rightarrow> u64 list \<Rightarrow> nat option" where
  "spin_us ctx us now polls = spin_ns ctx (saturating_mul us 1000) now polls"

definition verify_calibration ::
  "'f chronometer \<Rightarrow> integrity_stats \<Rightarrow> integrity \<times> 'f chronometer \<times> integrity_stats" where
  "verify_calibration ctx s =
     (let ((hz', i), s) = verify (counter_hz ctx) s
      in (i, ctx\<lparr>counter_hz := hz', c_last_integrity := i\<rparr>, s))"

definition inject_calibration_flip :: "nat \<Rightarrow> 'f chronometer \<Rightarrow> 'f chronometer" where
  "inject_calibration_flip b ctx = ctx\<lparr>counter_hz := inject_flip b (counter_hz ctx)\<rparr>"

text \<open>Measurements: each list holds the readings of one loop iteration, in order.\<close>

definition min_or_zero :: "u64 list \<Rightarrow> u64" where
  "min_or_zero xs = (if xs = [] then 0 else Min (set xs))"

definition measure_overhead :: "u64 list \<Rightarrow> 'f chronometer \<Rightarrow> u64 \<times> 'f chronometer" where
  "measure_overhead readings ctx =
     (let best = min_or_zero (take 64 readings) in (best, ctx\<lparr>overhead_units := best\<rparr>))"

definition pair_deltas :: "nat \<Rightarrow> (u64 \<times> u64) list \<Rightarrow> u64 list" where
  "pair_deltas n readings = map (\<lambda>(a, b). b - a) (take n readings)"

definition measure_ffi_overhead :: "u32 \<Rightarrow> (u64 \<times> u64) list \<Rightarrow> u64" where
  "measure_ffi_overhead iterations readings =
     min_or_zero (pair_deltas (unat (max iterations 1)) readings)"

definition measure_call_overhead :: "u32 \<Rightarrow> (u64 \<times> u64) list \<Rightarrow> u64" where
  "measure_call_overhead iterations readings =
     (let n = max iterations 1;
          best = fold (\<lambda>d best. min best d) (pair_deltas (unat n) readings) (- 1)
      in if best = - 1 then 0 else best)"

definition measure_call_avg :: "u32 \<Rightarrow> (u64 \<times> u64) list \<Rightarrow> u64" where
  "measure_call_avg iterations readings =
     (let n = max iterations 1;
          total = fold (\<lambda>d total. total + d) (pair_deltas (unat n) readings) 0
      in total div ucast n)"

definition collect_samples :: "u32 \<Rightarrow> (u64 \<times> u64) list \<Rightarrow> u64 list" where
  "collect_samples count readings = pair_deltas (unat count) readings"

section \<open>Lemmas\<close>

lemma unat_mul_div_u64: "unat (mul_div_u64 x m y) = (unat x * m div unat y) mod 2 ^ 64"
  by (simp add: mul_div_u64_def unat_of_nat)

lemma unat_mul_div_u64_fits:
  "unat x * m div unat y < 2 ^ 64 \<Longrightarrow> unat (mul_div_u64 x m y) = unat x * m div unat y"
  by (simp add: unat_mul_div_u64)

lemma unat_ns_to_units:
  "unat ns * unat (protected_get (counter_hz ctx)) div 1000000000 < 2 ^ 64 \<Longrightarrow>
   unat (ns_to_units ctx ns) = unat ns * unat (protected_get (counter_hz ctx)) div 1000000000"
  by (simp add: ns_to_units_def unat_of_nat)

lemma calibrate_wait_Some:
  "calibrate_wait win ns0 polls = Some now \<Longrightarrow> now \<in> set polls \<and> win \<le> now - ns0"
  by (induction polls) (auto split: if_splits)

lemma spin_until_Some:
  "spin_until target polls k = Some n \<Longrightarrow>
     k \<le> n \<and> n - k < length polls \<and> target \<le> polls ! (n - k) \<and> (\<forall>i < n - k. polls ! i < target)"
proof (induction polls arbitrary: k)
  case Nil
  then show ?case by simp
next
  case (Cons now rest)
  show ?case
  proof (cases "now < target")
    case True
    with Cons have "k + 1 \<le> n \<and> n - (k + 1) < length rest \<and> target \<le> rest ! (n - (k + 1)) \<and>
        (\<forall>i < n - (k + 1). rest ! i < target)"
      by simp
    then show ?thesis using True
      by (auto simp: nth_Cons' Suc_diff_Suc)
  next
    case False
    with Cons.prems show ?thesis by simp
  qed
qed

lemma max_u64_1_nonzero: "max (hz :: u64) 1 \<noteq> 0"
  by (metis max.cobounded2 word_le_0_iff zero_neq_one)

lemma calibrate_rate:
  assumes "calibrate declared ms ns0 c0 polls c1 ns1 ctx = Some (ctx', True)"
  shows "counter_hz ctx' = protected_new
      (case declared of Some hz \<Rightarrow> hz
       | None \<Rightarrow> max (mul_div_u64 (c1 - c0) 1000000000 (ns1 - ns0)) 1)"
  using assms
  by (auto simp: calibrate_def Let_def split: option.splits if_splits)

lemma fold_min_word: "fold (\<lambda>d best. min best d) xs (a :: u64) = Min (insert a (set xs))"
proof (induction xs arbitrary: a)
  case Nil
  show ?case by simp
next
  case (Cons x xs)
  then have "fold (\<lambda>d best. min best d) (x # xs) a = Min (insert (min a x) (set xs))"
    by simp
  also have "\<dots> = Min (insert a (insert x (set xs)))"
    by (cases "set xs = {}") (simp_all add: min.assoc)
  finally show ?case by simp
qed

lemma elapsed_units_checkpoint:
  fixes ctx :: "'f chronometer"
  assumes "1000000000 \<le> now_ns - window_ns ctx" "stands_for (c_start_units ctx) start"
    and r_def: "r = elapsed_units ppm now_units now_ns ctx s"
  shows "fst r = now_units - start"
    "counter_hz (fst (snd r)) = scrub (counter_hz ctx)"
    "c_start_units (fst (snd r)) = scrub (c_start_units ctx)"
  using assms(1) cell.repr_checked [OF cell.repr_fix_up, OF assms(2)]
  by (simp_all add: r_def elapsed_units_def Let_def verify_eq get_checked_eq case_prod_unfold)

section \<open>Properties\<close>

text \<open>C4: The once-a-second checkpoint makes an elapsed reading exact under damage.  When the
  drift window has run for a second, an elapsed reading taken while the stored rate and
  the stored origin are damaged within the repair budget is exactly the number of counter
  units since the origin times \<open>10^9\<close>, divided by the calibrated rate (truncated to 64 bits),
  and both stored words are repaired.\<close>

theorem chrono_checkpoint_exact:
  assumes "1000000000 \<le> now_ns - window_ns ctx"
    and "stands_for (counter_hz ctx) hz" "stands_for (c_start_units ctx) start" "hz \<noteq> 0"
  shows "\<exists>ctx' s'. chrono_elapsed_ns ppm now_units now_ns ctx s =
      (mul_div_u64 (now_units - start) 1000000000 hz, ctx', s') \<and>
      checked_read (counter_hz ctx') = (hz, Clean) \<and> checked_read (c_start_units ctx') = (start, Clean)"
proof -
  let ?r = "elapsed_units ppm now_units now_ns ctx s"
  note step = elapsed_units_checkpoint [OF assms(1,3), of ?r ppm now_units s, OF refl]
  have "protected_get (counter_hz (fst (snd ?r))) = hz"
    using step(2) assms(2) by (simp add: cell.load_fix_up)
  then have "chrono_elapsed_ns ppm now_units now_ns ctx s =
      (mul_div_u64 (now_units - start) 1000000000 hz, fst (snd ?r), snd (snd ?r))"
    using step(1) assms(4) by (simp add: chrono_elapsed_ns_def units_to_ns_def case_prod_unfold)
  moreover have "checked_read (counter_hz (fst (snd ?r))) = (hz, Clean)"
    "checked_read (c_start_units (fst (snd ?r))) = (start, Clean)"
    using step(2,3) assms(2,3) by (simp_all add: scrub_stands_for)
  ultimately show ?thesis by blast
qed

theorem chrono_checkpoint_exact_witness:
  "\<exists>ctx' s'. chrono_elapsed_ns (\<lambda>_ _. ()) 2400000100 1000000000
      \<lparr>counter_hz = inject_flip 5 (protected_new 2400000000), c_start_units = inject_flip 60 (protected_new 100),
       c_start_ns = 0, window_units = 100, window_ns = 0, drift_ppm = (), overhead_units = 0,
       c_last_integrity = Clean\<rparr> \<lparr>checks = 0, ecc_corrections = 0, tmr_corrections = 0, unrecoverable = 0\<rparr>
    = (mul_div_u64 (2400000100 - 100) 1000000000 2400000000, ctx', s') \<and>
      checked_read (counter_hz ctx') = (2400000000, Clean) \<and> checked_read (c_start_units ctx') = (100, Clean)"
proof (rule chrono_checkpoint_exact)
  have flip1: "stands_for (inject_flip b (protected_new v)) v" if "b < 72" for b v
    using that by (simp add: stands_for_def checked_read_one_flip)
  let ?c = "\<lparr>counter_hz = inject_flip 5 (protected_new 2400000000), c_start_units = inject_flip 60 (protected_new 100),
       c_start_ns = 0, window_units = 100, window_ns = 0, drift_ppm = (), overhead_units = 0,
       c_last_integrity = Clean\<rparr>"
  show "stands_for (counter_hz ?c) 2400000000" "stands_for (c_start_units ?c) 100"
    by (simp_all add: flip1)
qed simp_all

text \<open>Conversion bounds.  Converting a duration to counter units and back never exceeds it
  and loses less than one counter period plus one nanosecond, whenever the unit count fits
  64 bits.\<close>

theorem ns_units_round_trip:
  fixes ctx :: "'f chronometer"
  defines "hz \<equiv> unat (protected_get (counter_hz ctx))"
  assumes "0 < hz" "unat ns * hz div 1000000000 < 2 ^ 64"
  shows "unat (units_to_ns ctx (ns_to_units ctx ns)) \<le> unat ns \<and>
    unat ns \<le> unat (units_to_ns ctx (ns_to_units ctx ns)) + 1000000000 div hz + 1"
proof -
  let ?g = "1000000000 :: nat" and ?n = "unat ns"
  let ?u = "?n * hz div ?g"
  have u: "unat (ns_to_units ctx ns) = ?u"
    using assms by (simp add: unat_ns_to_units hz_def)
  have le: "?u * ?g \<le> ?n * hz" by (rule div_times_less_eq_dividend)
  then have down: "?u * ?g div hz \<le> ?n"
    using assms(2) div_le_mono [of "?u * ?g" "?n * hz" hz] by simp
  then have "?u * ?g div hz < 2 ^ 64"
    using unat_u64_less [of ns] by (rule order_le_less_trans)
  then have ret: "unat (units_to_ns ctx (ns_to_units ctx ns)) = ?u * ?g div hz"
    using assms(2) u by (auto simp: units_to_ns_def Let_def hz_def unat_mul_div_u64_fits)
  have "?n * hz < (?u + 1) * ?g"
    using dividend_less_div_times [of ?g "?n * hz"] by (simp add: algebra_simps)
  also have "\<dots> = ?u * ?g + ?g" by simp
  also have "\<dots> < (?u * ?g div hz + 1) * hz + (?g div hz + 1) * hz"
    using dividend_less_div_times [OF assms(2), of "?u * ?g"] dividend_less_div_times [OF assms(2), of ?g]
    by (simp add: algebra_simps)
  finally have "?n * hz < (?u * ?g div hz + ?g div hz + 2) * hz"
    by (simp add: algebra_simps)
  then have "?n < ?u * ?g div hz + ?g div hz + 2"
    by (simp only: mult_less_cancel2)
  with down ret show ?thesis by simp
qed

theorem ns_units_round_trip_witness:
  "unat (units_to_ns (\<lparr>counter_hz = protected_new 3000000000, c_start_units = protected_new 0, c_start_ns = 0,
       window_units = 0, window_ns = 0, drift_ppm = (), overhead_units = 0, c_last_integrity = Clean\<rparr>)
     (ns_to_units (\<lparr>counter_hz = protected_new 3000000000, c_start_units = protected_new 0, c_start_ns = 0,
       window_units = 0, window_ns = 0, drift_ppm = (), overhead_units = 0, c_last_integrity = Clean\<rparr>) 12345)) \<le> unat (12345 :: u64)"
  by (rule ns_units_round_trip [THEN conjunct1]) (simp_all add: protected_get_def)

text \<open>Calibration.  A chronometer that comes out of construction has a usable rate: unless
  the hardware declares a rate of zero, the stored rate is non-zero and intact, it is the
  declared rate or the measured one (counter units times \<open>10^9\<close> over elapsed nanoseconds,
  at least 1), or the initial rate 1 when the measurement window saw no progress.\<close>

theorem with_backend_calibrated:
  assumes "with_backend zero overhead declared ns0 c0 polls c1 ns1 units ns = Some ctx"
    and "declared \<noteq> Some 0"
  shows "\<exists>hz. counter_hz ctx = protected_new hz \<and> hz \<noteq> 0 \<and> c_start_units ctx = protected_new units \<and>
    (declared = Some hz \<or>
     declared = None \<and> (hz = max (mul_div_u64 (c1 - c0) 1000000000 (ns1 - ns0)) 1 \<or>
        hz = 1 \<and> (c1 = c0 \<or> ns1 = ns0)))"
  using assms max_u64_1_nonzero
  by (auto simp: with_backend_def calibrate_def chrono_reset_def Let_def split: option.splits if_splits)

theorem with_backend_calibrated_witness:
  "\<exists>ctx hz. with_backend () 30 None 0 1000 [199999999, 200000000] 480001000 200000000 480002000 200000100 = Some ctx \<and>
     counter_hz ctx = protected_new hz \<and> hz \<noteq> 0"
proof -
  obtain ctx where ctx:
    "with_backend () 30 None 0 1000 [199999999, 200000000] 480001000 200000000 480002000 200000100 = Some ctx"
    by (auto simp: with_backend_def calibrate_def Let_def DEFAULT_CALIBRATION_MS_def max_def)
  with with_backend_calibrated [OF ctx] show ?thesis by blast
qed

text \<open>The call-overhead measurement is the minimum.  On at least one timing the loop with the
  sentinel \<^verbatim>\<open>u64::MAX\<close> returns the least delta, as \<^verbatim>\<open>measure_ffi_overhead\<close> does with an
  iterator, except that a least delta of \<^verbatim>\<open>u64::MAX\<close> is reported as 0.\<close>

theorem measure_call_overhead_is_min:
  assumes "readings \<noteq> []"
  shows "measure_call_overhead iterations readings =
    (let m = measure_ffi_overhead iterations readings in if m = - 1 then 0 else m)"
proof -
  have "1 \<le> max iterations 1" by simp
  then have "0 < unat (max iterations 1)"
    by (metis max_def unat_gt_0 word_le_0_iff zero_neq_one)
  then have ne: "pair_deltas (unat (max iterations 1)) readings \<noteq> []"
    using assms by (simp add: pair_deltas_def)
  have "Min (insert (- 1) A) = Min A" if "finite A" "A \<noteq> {}" for A :: "u64 set"
  proof -
    have "Min A \<le> - 1" by (rule word_order.extremum)
    with that show ?thesis by (simp add: min_absorb2)
  qed
  with ne show ?thesis
    by (simp add: measure_call_overhead_def measure_ffi_overhead_def min_or_zero_def fold_min_word Let_def)
qed

theorem measure_call_overhead_is_min_witness:
  "measure_call_overhead 3 [(10, 40), (50, 70), (80, 120)] =
    (let m = measure_ffi_overhead 3 [(10, 40), (50, 70), (80, 120)] in if m = - 1 then 0 else m)"
  by (rule measure_call_overhead_is_min) simp

end
