(* ===== verification/Strings.thy ===== *)
theory Strings
  imports Prelude
begin

text \<open>
  Text as the Rust sources see it: a \<^verbatim>\<open>str\<close> is its list of bytes (\<open>char\<close> is a byte).  Decimal
  printing and reading, zero padding, \<^verbatim>\<open>str::split\<close>, \<^verbatim>\<open>split_once\<close>, \<^verbatim>\<open>trim\<close>, the ASCII
  classes, and three-way comparison (\<^verbatim>\<open>core::cmp::Ordering\<close>), with the round-trip and order
  lemmas shared by the formatting, version, path and manifest components.
\<close>

section \<open>ASCII\<close>

abbreviation byte_of :: "char \<Rightarrow> nat" where
  "byte_of c \<equiv> of_char c"

definition is_ascii_digit :: "char \<Rightarrow> bool" where
  "is_ascii_digit c \<longleftrightarrow> 48 \<le> byte_of c \<and> byte_of c \<le> 57"

definition is_ascii_lowercase :: "char \<Rightarrow> bool" where
  "is_ascii_lowercase c \<longleftrightarrow> 97 \<le> byte_of c \<and> byte_of c \<le> 122"

definition is_ascii_uppercase :: "char \<Rightarrow> bool" where
  "is_ascii_uppercase c \<longleftrightarrow> 65 \<le> byte_of c \<and> byte_of c \<le> 90"

definition is_ascii_alphanumeric :: "char \<Rightarrow> bool" where
  "is_ascii_alphanumeric c \<longleftrightarrow> is_ascii_digit c \<or> is_ascii_lowercase c \<or> is_ascii_uppercase c"

definition to_ascii_lowercase :: "char \<Rightarrow> char" where
  "to_ascii_lowercase c = (if is_ascii_uppercase c then char_of (byte_of c + 32) else c)"

definition digit_char :: "nat \<Rightarrow> char" where
  "digit_char d = char_of (48 + d)"

definition digit_value :: "char \<Rightarrow> nat" where
  "digit_value c = byte_of c - 48"

lemma byte_of_digit_char: "d < 10 \<Longrightarrow> byte_of (digit_char d) = 48 + d"
  by (simp add: digit_char_def of_char_of)

lemma is_ascii_digit_digit_char [simp]: "d < 10 \<Longrightarrow> is_ascii_digit (digit_char d)"
  by (simp add: is_ascii_digit_def byte_of_digit_char)

lemma digit_value_digit_char [simp]: "d < 10 \<Longrightarrow> digit_value (digit_char d) = d"
  by (simp add: digit_value_def byte_of_digit_char)

lemma digit_char_digit_value: "is_ascii_digit c \<Longrightarrow> digit_char (digit_value c) = c"
  by (simp add: is_ascii_digit_def digit_value_def digit_char_def)

lemma digit_value_less: "is_ascii_digit c \<Longrightarrow> digit_value c < 10"
  unfolding is_ascii_digit_def digit_value_def by linarith

section \<open>Decimal numbers\<close>

fun dec :: "nat \<Rightarrow> string" where
  "dec n = (if n < 10 then [digit_char n] else dec (n div 10) @ [digit_char (n mod 10)])"

declare dec.simps [simp del]

definition dec_value :: "string \<Rightarrow> nat" where
  "dec_value s = fold (\<lambda>c v. 10 * v + digit_value c) s 0"

text \<open>\<^verbatim>\<open>{:0w}\<close> of an unsigned and of a signed integer.\<close>

definition pad0 :: "nat \<Rightarrow> nat \<Rightarrow> string" where
  "pad0 w n = replicate (w - length (dec n)) (CHR ''0'') @ dec n"

definition pad0_int :: "nat \<Rightarrow> int \<Rightarrow> string" where
  "pad0_int w i =
     (if i < 0 then CHR ''-'' # replicate (w - 1 - length (dec (nat (- i)))) (CHR ''0'') @ dec (nat (- i))
      else pad0 w (nat i))"

lemma dec_value_append: "dec_value (s @ [c]) = 10 * dec_value s + digit_value c"
  by (simp add: dec_value_def)

lemma dec_value_Nil [simp]: "dec_value [] = 0"
  by (simp add: dec_value_def)

lemma dec_value_dec [simp]: "dec_value (dec n) = n"
proof (induction n rule: dec.induct)
  case (1 n)
  show ?case
  proof (cases "n < 10")
    case True
    then show ?thesis
      by (simp add: dec.simps [of n] dec_value_def)
  next
    case False
    with 1 show ?thesis
      by (simp add: dec.simps [of n] dec_value_append)
  qed
qed

lemma dec_digits: "\<forall>c\<in>set (dec n). is_ascii_digit c"
proof (induction n rule: dec.induct)
  case (1 n)
  then show ?case by (cases "n < 10") (auto simp: dec.simps [of n])
qed

lemma dec_nonempty [simp]: "dec n \<noteq> []"
  by (simp add: dec.simps [of n])

lemma digit_value_0 [simp]: "digit_value (CHR ''0'') = 0"
  by (simp add: digit_value_def)

lemma is_ascii_digit_0 [simp]: "is_ascii_digit (CHR ''0'')"
  by (simp add: is_ascii_digit_def)

lemma dec_value_replicate_zero: "dec_value (replicate k (CHR ''0'') @ s) = dec_value s"
  by (induction k) (simp_all add: dec_value_def)

lemma dec_value_pad0 [simp]: "dec_value (pad0 w n) = n"
  by (simp add: pad0_def dec_value_replicate_zero)

lemma pad0_digits: "\<forall>c\<in>set (pad0 w n). is_ascii_digit c"
  using dec_digits by (auto simp: pad0_def)

lemma pad0_nonempty [simp]: "pad0 w n \<noteq> []"
  by (simp add: pad0_def)

lemma length_dec_le: "n < 10 ^ k \<Longrightarrow> 0 < k \<Longrightarrow> length (dec n) \<le> k"
proof (induction n arbitrary: k rule: dec.induct)
  case (1 n)
  show ?case
  proof (cases "n < 10")
    case True
    with 1 show ?thesis by (simp add: dec.simps [of n])
  next
    case False
    have "k \<noteq> 1" using False "1.prems"(1) by auto
    with "1.prems"(2) have k: "k = Suc (k - 1)" "0 < k - 1" by auto
    then obtain j where k: "k = Suc j" "0 < j" by blast
    with "1.prems"(1) have "n div 10 < 10 ^ j" by (simp add: less_mult_imp_div_less mult.commute)
    with "1.IH" [OF False _ k(2)] False k show ?thesis
      by (simp add: dec.simps [of n])
  qed
qed

lemma length_pad0: "n < 10 ^ w \<Longrightarrow> 0 < w \<Longrightarrow> length (pad0 w n) = w"
  using length_dec_le [of n w] by (simp add: pad0_def)

lemma dec_not_leading_zero: "length (dec n) > 1 \<Longrightarrow> hd (dec n) \<noteq> CHR ''0''"
proof (induction n rule: dec.induct)
  case (1 n)
  then have n: "\<not> n < 10" by (auto simp: dec.simps [of n])
  show ?case
  proof (cases "n div 10 < 10")
    case True
    with n have "byte_of (digit_char (n div 10)) \<noteq> 48"
      by (subst byte_of_digit_char) simp_all
    then have "digit_char (n div 10) \<noteq> CHR ''0''" by auto
    with True n show ?thesis by (simp add: dec.simps [of n] dec.simps [of "n div 10"])
  next
    case False
    then have "length (dec (n div 10)) > 1" by (simp add: dec.simps [of "n div 10"])
    with "1.IH" [OF n] n show ?thesis by (simp add: dec.simps [of n])
  qed
qed

text \<open>Numerals without leading zeros are in bijection with the numbers, and compare alike.\<close>

definition is_numeral :: "string \<Rightarrow> bool" where
  "is_numeral s \<longleftrightarrow> s \<noteq> [] \<and> (\<forall>c\<in>set s. is_ascii_digit c) \<and> \<not> (1 < length s \<and> hd s = CHR ''0'')"

lemma is_numeral_dec [simp]: "is_numeral (dec n)"
  using dec_digits [of n] dec_not_leading_zero [of n] by (auto simp: is_numeral_def)

lemma dec_value_Cons: "dec_value (c # s) = digit_value c * 10 ^ length s + dec_value s"
proof (induction s rule: rev_induct)
  case (snoc x xs)
  have "dec_value (c # xs @ [x]) = 10 * dec_value (c # xs) + digit_value x"
    using dec_value_append [of "c # xs" x] by simp
  with snoc show ?case by (simp add: dec_value_append algebra_simps)
qed (simp add: dec_value_def)

lemma dec_value_less: "\<forall>c\<in>set s. is_ascii_digit c \<Longrightarrow> dec_value s < 10 ^ length s"
proof (induction s)
  case (Cons c s)
  then have "digit_value c \<le> 9" "dec_value s < 10 ^ length s"
    using digit_value_less [of c] by auto
  then have "digit_value c * 10 ^ length s + dec_value s < 9 * 10 ^ length s + 10 ^ length s"
    by (intro add_le_less_mono mult_right_mono) simp_all
  then show ?case by (simp add: dec_value_Cons)
qed simp

lemma digit_value_eq_0: "is_ascii_digit c \<Longrightarrow> digit_value c = 0 \<longleftrightarrow> c = CHR ''0''"
  using digit_char_digit_value [of c] digit_char_digit_value [of "CHR ''0''"] by (metis digit_value_0 is_ascii_digit_0)

lemma dec_value_ge:
  assumes "is_numeral s" "1 < length s"
  shows "10 ^ (length s - 1) \<le> dec_value s"
proof (cases s)
  case (Cons c t)
  with assms have "digit_value c \<ge> 1"
    using digit_value_eq_0 [of c] by (auto simp: is_numeral_def)
  then have "1 * 10 ^ length t \<le> digit_value c * 10 ^ length t" by (intro mult_right_mono) simp_all
  then have "10 ^ length t \<le> digit_value c * 10 ^ length t + dec_value t" by linarith
  with Cons show ?thesis by (simp only: dec_value_Cons) simp
qed (use assms in simp)

lemma dec_dec_value: "is_numeral s \<Longrightarrow> dec (dec_value s) = s"
proof (induction s rule: rev_induct)
  case (snoc c s)
  then have c: "is_ascii_digit c" by (simp add: is_numeral_def)
  show ?case
  proof (cases "s = []")
    case True
    with c show ?thesis
      by (simp add: dec_value_def dec.simps [of "digit_value c"] digit_value_less digit_char_digit_value)
  next
    case False
    with snoc.prems have "is_numeral s" by (cases s) (auto simp: is_numeral_def)
    moreover have "10 ^ 1 \<le> (10 :: nat) ^ (length (s @ [c]) - 1)"
      using False by (intro power_increasing) (auto simp: Suc_le_eq)
    then have "10 \<le> dec_value (s @ [c])"
      using dec_value_ge [OF snoc.prems] False by simp
    ultimately show ?thesis
      using snoc.IH c digit_value_less [OF c]
      by (simp add: dec.simps [of "10 * dec_value s + digit_value c"] dec_value_append digit_char_digit_value)
  qed
qed (simp add: is_numeral_def)

section \<open>Splitting\<close>

text \<open>\<^verbatim>\<open>s.split(c)\<close>: always at least one piece.\<close>

fun split_on :: "char \<Rightarrow> string \<Rightarrow> string list" where
  "split_on c [] = [[]]"
| "split_on c (x # xs) =
     (if x = c then [] # split_on c xs
      else case split_on c xs of [] \<Rightarrow> [[x]] | p # ps \<Rightarrow> (x # p) # ps)"

definition split_once :: "char \<Rightarrow> string \<Rightarrow> (string \<times> string) option" where
  "split_once c s =
     (if c \<in> set s then Some (takeWhile (\<lambda>x. x \<noteq> c) s, tl (dropWhile (\<lambda>x. x \<noteq> c) s)) else None)"

fun join_with :: "char \<Rightarrow> string list \<Rightarrow> string" where
  "join_with c [] = []"
| "join_with c [p] = p"
| "join_with c (p # ps) = p @ c # join_with c ps"

lemma split_on_nonempty [simp]: "split_on c s \<noteq> []"
  by (induction s) (auto split: list.splits)

lemma split_on_no_sep: "c \<notin> set s \<Longrightarrow> split_on c s = [s]"
  by (induction s) auto

lemma split_on_append: "c \<notin> set p \<Longrightarrow> split_on c (p @ c # s) = p # split_on c s"
  by (induction p) auto

lemma split_on_join:
  assumes "ps \<noteq> []" "\<forall>p\<in>set ps. c \<notin> set p"
  shows "split_on c (join_with c ps) = ps"
  using assms
proof (induction ps rule: join_with.induct)
  case (2 c p)
  then show ?case by (simp add: split_on_no_sep)
next
  case (3 c p q ps)
  then show ?case by (simp add: split_on_append)
qed simp

lemma join_split_on: "join_with c (split_on c s) = s"
proof (induction s)
  case Nil
  show ?case by simp
next
  case (Cons x xs)
  obtain p ps where ps: "split_on c xs = p # ps"
    by (cases "split_on c xs") auto
  show ?case
    using Cons ps by (cases ps) auto
qed

lemma split_on_pieces: "p \<in> set (split_on c s) \<Longrightarrow> c \<notin> set p \<and> set p \<subseteq> set s"
proof (induction s arbitrary: p)
  case Nil
  then show ?case by simp
next
  case (Cons x xs)
  obtain q qs where qs: "split_on c xs = q # qs" by (cases "split_on c xs") auto
  with Cons.prems consider "x = c" "p = []" | "x = c" "p \<in> set (split_on c xs)"
    | "x \<noteq> c" "p = x # q" | "x \<noteq> c" "p \<in> set qs"
    by (auto split: if_splits)
  then show ?case using Cons.IH [of p] Cons.IH [of q] qs by cases auto
qed

lemma split_once_append: "c \<notin> set p \<Longrightarrow> split_once c (p @ c # s) = Some (p, s)"
  unfolding split_once_def by (induction p) auto

lemma split_once_Some: "split_once c s = Some (p, q) \<Longrightarrow> s = p @ c # q \<and> c \<notin> set p"
proof (induction s arbitrary: p)
  case Nil
  then show ?case by (simp add: split_once_def)
next
  case (Cons x xs)
  show ?case
  proof (cases "x = c")
    case True
    with Cons.prems show ?thesis by (auto simp: split_once_def)
  next
    case False
    with Cons.prems have "split_once c xs = Some (tl p, q)" "p = x # tl p"
      by (auto simp: split_once_def split: if_splits)
    with Cons.IH False show ?thesis by (metis append_Cons set_ConsD)
  qed
qed

lemma split_once_None: "split_once c s = None \<longleftrightarrow> c \<notin> set s"
  by (simp add: split_once_def)

section \<open>Trimming\<close>

text \<open>The UTF-8 encodings of the characters with the Unicode property White\_Space.\<close>

definition whitespace_utf8 :: "string list" where
  "whitespace_utf8 = map (map char_of)
     ([[9], [10], [11], [12], [13], [32], [0xC2, 0x85], [0xC2, 0xA0], [0xE1, 0x9A, 0x80],
       [0xE2, 0x80, 0x80], [0xE2, 0x80, 0x81], [0xE2, 0x80, 0x82], [0xE2, 0x80, 0x83],
       [0xE2, 0x80, 0x84], [0xE2, 0x80, 0x85], [0xE2, 0x80, 0x86], [0xE2, 0x80, 0x87],
       [0xE2, 0x80, 0x88], [0xE2, 0x80, 0x89], [0xE2, 0x80, 0x8A], [0xE2, 0x80, 0xA8],
       [0xE2, 0x80, 0xA9], [0xE2, 0x80, 0xAF], [0xE2, 0x81, 0x9F], [0xE3, 0x80, 0x80]] :: nat list list)"

fun strip_first :: "string list \<Rightarrow> string \<Rightarrow> string option" where
  "strip_first [] s = None"
| "strip_first (w # ws) s =
     (if w \<noteq> [] \<and> take (length w) s = w then Some (drop (length w) s) else strip_first ws s)"

lemma strip_first_shorter: "strip_first ws s = Some r \<Longrightarrow> length r < length s"
proof (induction ws)
  case (Cons w ws)
  show ?case
  proof (cases "w \<noteq> [] \<and> take (length w) s = w")
    case True
    then have "s \<noteq> []" by auto
    with True Cons.prems show ?thesis by auto
  next
    case False
    with Cons show ?thesis by simp
  qed
qed simp

function strip_all :: "string list \<Rightarrow> string \<Rightarrow> string" where
  "strip_all ws s = (case strip_first ws s of None \<Rightarrow> s | Some r \<Rightarrow> strip_all ws r)"
  by pat_completeness auto
termination
  by (relation "measure (\<lambda>(ws, s). length s)") (auto dest: strip_first_shorter)

declare strip_all.simps [simp del]

definition trim_start :: "string \<Rightarrow> string" where
  "trim_start s = strip_all whitespace_utf8 s"

definition trim_end :: "string \<Rightarrow> string" where
  "trim_end s = rev (strip_all (map rev whitespace_utf8) (rev s))"

definition trim :: "string \<Rightarrow> string" where
  "trim s = trim_end (trim_start s)"

lemma strip_first_None:
  "s = [] \<or> (\<forall>w\<in>set ws. w \<noteq> [] \<longrightarrow> hd w \<noteq> hd s) \<Longrightarrow> strip_first ws s = None"
proof (induction ws)
  case (Cons w ws)
  have "\<not> (w \<noteq> [] \<and> take (length w) s = w)"
    using Cons.prems by (cases s; cases w) auto
  with Cons show ?case by auto
qed simp

lemma strip_all_suffix: "\<exists>p. s = p @ strip_all ws s"
proof (induction ws s rule: strip_all.induct)
  case (1 ws s)
  show ?case
  proof (cases "strip_first ws s")
    case None
    then show ?thesis by (simp add: strip_all.simps [of ws s])
  next
    case (Some r)
    have "strip_first ws s = Some r \<Longrightarrow> \<exists>p. s = p @ r"
      by (induction ws) (auto split: if_splits intro: append_take_drop_id [symmetric])
    with Some 1 [OF Some] show ?thesis by (auto simp: strip_all.simps [of ws s]) (metis append.assoc)
  qed
qed

lemma set_trim_start: "set (trim_start s) \<subseteq> set s"
  using strip_all_suffix [of s whitespace_utf8] unfolding trim_start_def
  by (metis set_append sup_ge2)

lemma set_trim: "set (trim s) \<subseteq> set s"
proof -
  obtain p where "rev (trim_start s) = p @ strip_all (map rev whitespace_utf8) (rev (trim_start s))"
    using strip_all_suffix by blast
  then have "set (strip_all (map rev whitespace_utf8) (rev (trim_start s))) \<subseteq> set (trim_start s)"
    by (metis set_append set_rev sup_ge2)
  then show ?thesis using set_trim_start [of s] by (auto simp: trim_def trim_end_def)
qed

definition graphic :: "char \<Rightarrow> bool" where
  "graphic c \<longleftrightarrow> 33 \<le> byte_of c \<and> byte_of c < 127"

lemma whitespace_not_graphic:
  "w \<in> set whitespace_utf8 \<Longrightarrow> w \<noteq> [] \<and> \<not> graphic (hd w) \<and> \<not> graphic (last w)"
  unfolding whitespace_utf8_def by (auto simp: graphic_def of_char_of)

lemma trim_start_id: "s = [] \<or> graphic (hd s) \<Longrightarrow> trim_start s = s"
  using strip_first_None [of s whitespace_utf8] whitespace_not_graphic
  by (auto simp: trim_start_def strip_all.simps [of _ s] split: option.splits) metis+

lemma trim_end_id: "s = [] \<or> graphic (last s) \<Longrightarrow> trim_end s = s"
proof -
  assume s: "s = [] \<or> graphic (last s)"
  have "rev s = [] \<or> (\<forall>w\<in>set (map rev whitespace_utf8). w \<noteq> [] \<longrightarrow> hd w \<noteq> hd (rev s))"
    using s by (auto simp: hd_rev dest: whitespace_not_graphic)
  from strip_first_None [OF this] show ?thesis
    by (simp add: trim_end_def strip_all.simps [of _ "rev s"])
qed

lemma trim_id: "s = [] \<or> graphic (hd s) \<and> graphic (last s) \<Longrightarrow> trim s = s"
  by (auto simp: trim_def trim_start_id trim_end_id)

section \<open>Three-way comparison\<close>

datatype ordering = Less | Equal | Greater

fun reverse_ordering :: "ordering \<Rightarrow> ordering" where
  "reverse_ordering Less = Greater"
| "reverse_ordering Equal = Equal"
| "reverse_ordering Greater = Less"

lemma reverse_reverse_ordering [simp]: "reverse_ordering (reverse_ordering a) = a"
  by (cases a) simp_all

definition then_ordering :: "ordering \<Rightarrow> ordering \<Rightarrow> ordering" where
  "then_ordering a b = (if a = Equal then b else a)"

definition cmp :: "'a::linorder \<Rightarrow> 'a \<Rightarrow> ordering" where
  "cmp a b = (if a < b then Less else if a = b then Equal else Greater)"

text \<open>Lexicographic comparison of sequences, by a comparison of their elements.\<close>

fun lex_cmp :: "('a \<Rightarrow> 'a \<Rightarrow> ordering) \<Rightarrow> 'a list \<Rightarrow> 'a list \<Rightarrow> ordering" where
  "lex_cmp f [] [] = Equal"
| "lex_cmp f [] (_ # _) = Less"
| "lex_cmp f (_ # _) [] = Greater"
| "lex_cmp f (x # xs) (y # ys) = then_ordering (f x y) (lex_cmp f xs ys)"

definition str_cmp :: "string \<Rightarrow> string \<Rightarrow> ordering" where
  "str_cmp a b = lex_cmp (\<lambda>x y. cmp (byte_of x) (byte_of y)) a b"

text \<open>
  The contract of a comparison function: it is a total preorder, \<open>Equal\<close> its equivalence.
  Products, lexicographic extension and pull-back along a function keep it.
\<close>

locale total_comparison =
  fixes f :: "'a \<Rightarrow> 'a \<Rightarrow> ordering"
  assumes cmp_refl: "f x x = Equal"
    and cmp_flip: "f y x = reverse_ordering (f x y)"
    and cmp_trans_less: "f x y = Less \<Longrightarrow> f y z \<noteq> Greater \<Longrightarrow> f x z = Less"
    and cmp_trans_equal: "f x y = Equal \<Longrightarrow> f x z = f y z"
begin

lemma cmp_equal_sym: "f x y = Equal \<longleftrightarrow> f y x = Equal"
  using cmp_flip [of x y] by (cases "f x y"; cases "f y x") auto

lemma cmp_less_greater: "f x y = Less \<longleftrightarrow> f y x = Greater"
  using cmp_flip [of x y] by (cases "f x y"; cases "f y x") auto

lemma cmp_le_trans: "f x y \<noteq> Greater \<Longrightarrow> f y z \<noteq> Greater \<Longrightarrow> f x z \<noteq> Greater"
  using cmp_trans_less [of x y z] cmp_trans_equal [of x y z] by (cases "f x y") auto

lemma cmp_le_less_trans: "f x y \<noteq> Greater \<Longrightarrow> f y z = Less \<Longrightarrow> f x z = Less"
  using cmp_trans_less [of x y z] cmp_trans_equal [of x y z] by (cases "f x y") auto

lemma lex_refl: "lex_cmp f xs xs = Equal"
  by (induction xs) (simp_all add: cmp_refl then_ordering_def)

lemma lex_flip: "lex_cmp f ys xs = reverse_ordering (lex_cmp f xs ys)"
proof (induction xs arbitrary: ys)
  case Nil
  show ?case by (cases ys) simp_all
next
  case (Cons x xs)
  show ?case
  proof (cases ys)
    case (Cons y ys')
    show ?thesis
      using Cons.IH [of ys'] cmp_flip [of x y]
      by (cases "f x y"; cases "f y x") (simp_all add: then_ordering_def Cons)
  qed simp
qed

lemma lex_trans_equal: "lex_cmp f xs ys = Equal \<Longrightarrow> lex_cmp f xs zs = lex_cmp f ys zs"
proof (induction xs arbitrary: ys zs)
  case Nil
  then show ?case by (cases ys) simp_all
next
  case (Cons x xs)
  then obtain y ys' where ys: "ys = y # ys'" by (cases ys) simp_all
  with Cons.prems have "f x y = Equal" "lex_cmp f xs ys' = Equal"
    by (auto simp: then_ordering_def split: if_splits)
  with Cons.IH [of ys'] cmp_trans_equal [of x y] ys show ?case
    by (cases zs) (simp_all add: then_ordering_def)
qed

lemma lex_trans_less:
  "lex_cmp f xs ys = Less \<Longrightarrow> lex_cmp f ys zs \<noteq> Greater \<Longrightarrow> lex_cmp f xs zs = Less"
proof (induction xs arbitrary: ys zs)
  case Nil
  then show ?case by (cases ys; cases zs) simp_all
next
  case (Cons x xs)
  then obtain y ys' where ys: "ys = y # ys'" by (cases ys) simp_all
  with Cons.prems obtain z zs' where zs: "zs = z # zs'" by (cases zs) simp_all
  show ?case
    using Cons.prems Cons.IH [of ys' zs'] ys zs
      cmp_trans_less [of x y z] cmp_trans_equal [of x y z]
    by (cases "f x y"; cases "f y z") (auto simp: then_ordering_def)
qed

lemma lex_total: "total_comparison (lex_cmp f)"
  using lex_refl lex_flip lex_trans_less lex_trans_equal by (rule total_comparison.intro)

end

lemma total_comparison_cmp: "total_comparison (cmp :: 'a::linorder \<Rightarrow> 'a \<Rightarrow> ordering)"
  by unfold_locales (auto simp: cmp_def split: if_splits)

lemma total_comparison_on:
  "total_comparison f \<Longrightarrow> total_comparison (\<lambda>a b. f (g a) (g b))"
  unfolding total_comparison_def by blast

lemma total_comparison_then:
  assumes f: "total_comparison f" and g: "total_comparison g"
  shows "total_comparison (\<lambda>a b. then_ordering (f a b) (g a b))"
proof -
  note F = total_comparison.cmp_refl [OF f] total_comparison.cmp_trans_less [OF f]
    total_comparison.cmp_trans_equal [OF f]
  note G = total_comparison.cmp_refl [OF g] total_comparison.cmp_trans_less [OF g]
    total_comparison.cmp_trans_equal [OF g]
  show ?thesis
  proof
    fix x y z
    show "then_ordering (f x x) (g x x) = Equal"
      by (simp add: F(1) G(1) then_ordering_def)
    show "then_ordering (f y x) (g y x) = reverse_ordering (then_ordering (f x y) (g x y))"
      using total_comparison.cmp_flip [OF f, of x y] total_comparison.cmp_flip [OF g, of x y]
      by (cases "f x y"; cases "f y x") (simp_all add: then_ordering_def)
    show "then_ordering (f x z) (g x z) = Less"
      if "then_ordering (f x y) (g x y) = Less" "then_ordering (f y z) (g y z) \<noteq> Greater"
      using that F(2) [of x y z] F(3) [of x y z] G(2) [of x y z]
      by (cases "f x y"; cases "f y z") (auto simp: then_ordering_def split: if_splits)
    show "then_ordering (f x z) (g x z) = then_ordering (f y z) (g y z)"
      if "then_ordering (f x y) (g x y) = Equal"
      using that F(3) [of x y z] G(3) [of x y z]
      by (auto simp: then_ordering_def split: if_splits)
  qed
qed

interpretation bytes: total_comparison "\<lambda>x y. cmp (byte_of x) (byte_of y)"
  by (rule total_comparison_on [OF total_comparison_cmp])

lemma cmp_eq_Equal [simp]: "cmp a b = Equal \<longleftrightarrow> a = b"
  by (auto simp: cmp_def)

lemma total_comparison_str: "total_comparison str_cmp"
  unfolding str_cmp_def by (rule bytes.lex_total)

lemma lex_cmp_Equal:
  assumes "\<And>x y. f x y = Equal \<longleftrightarrow> x = y"
  shows "lex_cmp f xs ys = Equal \<longleftrightarrow> xs = ys"
  using assms by (induction f xs ys rule: lex_cmp.induct) (auto simp: then_ordering_def split: if_splits)

lemma str_cmp_Equal [simp]: "str_cmp a b = Equal \<longleftrightarrow> a = b"
  unfolding str_cmp_def by (rule lex_cmp_Equal) simp

lemma str_cmp_digits:
  "length a = length b \<Longrightarrow> \<forall>c\<in>set a \<union> set b. is_ascii_digit c \<Longrightarrow> str_cmp a b = cmp (dec_value a) (dec_value b)"
proof (induction a b rule: list_induct2)
  case (Cons x xs y ys)
  have xy: "byte_of x = 48 + digit_value x" "byte_of y = 48 + digit_value y"
    using Cons.prems by (auto simp: is_ascii_digit_def digit_value_def)
  have bound: "dec_value xs < 10 ^ length ys" "dec_value ys < 10 ^ length ys"
    using Cons dec_value_less [of xs] dec_value_less [of ys] by auto
  have less: "u * 10 ^ length ys + p < v * 10 ^ length ys + q"
    if "u < v" "p < 10 ^ length ys" for u v p q :: nat
  proof -
    from that(1) have "Suc u * 10 ^ length ys \<le> v * 10 ^ length ys" by (intro mult_right_mono) simp_all
    with that(2) show ?thesis by simp
  qed
  show ?case
    using Cons bound less [of "digit_value x" "digit_value y" "dec_value xs" "dec_value ys"]
      less [of "digit_value y" "digit_value x" "dec_value ys" "dec_value xs"]
    by (auto simp: str_cmp_def then_ordering_def dec_value_Cons cmp_def xy split: if_splits)
qed (simp add: str_cmp_def cmp_def)

end
