(* ===== verification/Time_Format.thy ===== *)
theory Time_Format
  imports Strings
begin

text \<open>
  \<^verbatim>\<open>crates/nanochrono-core/src/format.rs\<close>: elapsed durations and civil dates as text.  Dates are
  specified by counting days from the Gregorian leap-year rule (\<open>epoch_day\<close>); the branch-free
  conversion of the code is proved to invert that count, and the elapsed display to lose nothing.
  The machine's zone database (\<^verbatim>\<open>platform::utc_offset_minutes\<close>) is a parameter \<open>utc_off\<close>.
\<close>

section \<open>The operations of the code\<close>

datatype time_zone_mode = Local | Utc | CustomOffset int

definition tz_name :: "time_zone_mode \<Rightarrow> string" where
  "tz_name z = (case z of Local \<Rightarrow> ''local'' | Utc \<Rightarrow> ''utc'' | CustomOffset _ \<Rightarrow> ''utc-offset'')"

definition offset_minutes :: "(nat \<Rightarrow> int) \<Rightarrow> time_zone_mode \<Rightarrow> nat \<Rightarrow> int" where
  "offset_minutes utc_off z unix_ns =
     (case z of Local \<Rightarrow> utc_off unix_ns | Utc \<Rightarrow> 0 | CustomOffset m \<Rightarrow> m)"

datatype detail_mode = Simple | Nano

definition detail_name :: "detail_mode \<Rightarrow> string" where
  "detail_name d = (case d of Simple \<Rightarrow> ''simple'' | Nano \<Rightarrow> ''nano'')"

record civil_time =
  year :: int
  month :: nat
  day :: nat
  hour :: nat
  minute :: nat
  second :: nat
  nanosecond :: nat
  weekday :: nat

definition weekday_names :: "string list" where
  "weekday_names = [''SUNDAY'', ''MONDAY'', ''TUESDAY'', ''WEDNESDAY'', ''THURSDAY'', ''FRIDAY'',
     ''SATURDAY'']"

definition month_names :: "string list" where
  "month_names = [''JANUARY'', ''FEBRUARY'', ''MARCH'', ''APRIL'', ''MAY'', ''JUNE'', ''JULY'',
     ''AUGUST'', ''SEPTEMBER'', ''OCTOBER'', ''NOVEMBER'', ''DECEMBER'']"

definition weekday_name :: "civil_time \<Rightarrow> string" where
  "weekday_name c = weekday_names ! (weekday c mod 7)"

definition month_name :: "civil_time \<Rightarrow> string" where
  "month_name c = month_names ! ((max (month c) 1 - 1) mod 12)"

text \<open>
  Every intermediate value fits its Rust type (\<open>u64\<close> nanoseconds are below year 2555, an \<open>i32\<close> of
  minutes is about four thousand years), so the arithmetic is that of \<open>int\<close>; divisors are positive
  and dividends are not negative, where \<^verbatim>\<open>/\<close>, \<^verbatim>\<open>div_euclid\<close> and \<open>div\<close> agree.
\<close>

definition civil_from_unix_ns :: "nat \<Rightarrow> int \<Rightarrow> civil_time" where
  "civil_from_unix_ns unix_ns off =
     (let adjusted = int unix_ns + off * 60 * 1000000000;
          adjusted = max adjusted 0;
          total_secs = adjusted div 1000000000;
          ns = adjusted mod 1000000000;
          days = total_secs div 86400;
          secs_of_day = total_secs mod 86400;
          wd = (days + 4) mod 7;
          z = days + 719468;
          era = z div 146097;
          doe = z mod 146097;
          yoe = (doe - doe div 1460 + doe div 36524 - doe div 146096) div 365;
          y = yoe + era * 400;
          doy = doe - (365 * yoe + yoe div 4 - yoe div 100);
          mp = (5 * doy + 2) div 153;
          d = nat (doy - (153 * mp + 2) div 5 + 1);
          m = nat (if mp < 10 then mp + 3 else mp - 9)
      in \<lparr> year = (if m \<le> 2 then y + 1 else y), month = m, day = d,
           hour = nat (secs_of_day div 3600), minute = nat ((secs_of_day div 60) mod 60),
           second = nat (secs_of_day mod 60), nanosecond = nat ns, weekday = nat wd \<rparr>)"

definition format_elapsed_nano :: "nat \<Rightarrow> string" where
  "format_elapsed_nano ns =
     (let h = ns div 3600000000000;
          m = (ns div 60000000000) mod 60;
          s = (ns div 1000000000) mod 60;
          ms = (ns div 1000000) mod 1000;
          us = (ns div 1000) mod 1000;
          n = ns mod 1000
      in pad0 2 h @ '':'' @ pad0 2 m @ '':'' @ pad0 2 s @ '':'' @ pad0 3 ms @ '':'' @ pad0 3 us
         @ '':'' @ pad0 3 n)"

definition format_elapsed_simple :: "nat \<Rightarrow> string" where
  "format_elapsed_simple ns =
     (let total_ms = ns div 1000000;
          ms = total_ms mod 1000;
          total_s = total_ms div 1000;
          s = total_s mod 60;
          m = total_s div 60
      in pad0 2 m @ '':'' @ pad0 2 s @ ''.'' @ pad0 3 ms)"

definition format_elapsed :: "nat \<Rightarrow> detail_mode \<Rightarrow> string" where
  "format_elapsed ns d =
     (case d of Simple \<Rightarrow> format_elapsed_simple ns | Nano \<Rightarrow> format_elapsed_nano ns)"

definition format_unix_utc :: "nat \<Rightarrow> string" where
  "format_unix_utc unix_ns =
     (let c = civil_from_unix_ns unix_ns 0
      in pad0_int 4 (year c) @ ''-'' @ pad0 2 (month c) @ ''-'' @ pad0 2 (day c) @ '' ''
         @ pad0 2 (hour c) @ '':'' @ pad0 2 (minute c) @ '':'' @ pad0 2 (second c) @ ''.''
         @ pad0 9 (nanosecond c) @ ''Z'')"

definition format_offset :: "int \<Rightarrow> string" where
  "format_offset off =
     (let sign = (if off < 0 then CHR ''-'' else CHR ''+'');
          a = nat \<bar>off\<bar>
      in ''UTC'' @ [sign] @ pad0 2 (a div 60) @ '':'' @ pad0 2 (a mod 60))"

definition format_unix_zoned :: "(nat \<Rightarrow> int) \<Rightarrow> nat \<Rightarrow> time_zone_mode \<Rightarrow> string" where
  "format_unix_zoned utc_off unix_ns mode =
     (let off = offset_minutes utc_off mode unix_ns;
          c = civil_from_unix_ns unix_ns off;
          suffix = (case mode of Utc \<Rightarrow> ''Z'' | _ \<Rightarrow> format_offset off)
      in pad0_int 4 (year c) @ ''-'' @ pad0 2 (month c) @ ''-'' @ pad0 2 (day c) @ '' ''
         @ pad0 2 (hour c) @ '':'' @ pad0 2 (minute c) @ '':'' @ pad0 2 (second c) @ ''.''
         @ pad0 9 (nanosecond c) @ '' '' @ suffix)"

definition format_clock_face :: "(nat \<Rightarrow> int) \<Rightarrow> nat \<Rightarrow> time_zone_mode \<Rightarrow> bool \<Rightarrow> string" where
  "format_clock_face utc_off unix_ns mode fractional =
     (let off = offset_minutes utc_off mode unix_ns;
          c = civil_from_unix_ns unix_ns off
      in if fractional
         then pad0 2 (hour c) @ '':'' @ pad0 2 (minute c) @ '':'' @ pad0 2 (second c) @ ''.''
              @ pad0 9 (nanosecond c)
         else pad0 2 (hour c) @ '':'' @ pad0 2 (minute c) @ '':'' @ pad0 2 (second c))"

definition format_long_date :: "(nat \<Rightarrow> int) \<Rightarrow> nat \<Rightarrow> time_zone_mode \<Rightarrow> string" where
  "format_long_date utc_off unix_ns mode =
     (let c = civil_from_unix_ns unix_ns (offset_minutes utc_off mode unix_ns)
      in weekday_name c @ '', '' @ month_name c @ '' '' @ pad0 2 (day c) @ '', '' @ pad0_int 4 (year c))"

section \<open>The calendar as a specification\<close>

definition is_leap :: "int \<Rightarrow> bool" where
  "is_leap y \<longleftrightarrow> y mod 4 = 0 \<and> (y mod 100 \<noteq> 0 \<or> y mod 400 = 0)"

definition days_in_month :: "int \<Rightarrow> nat \<Rightarrow> int" where
  "days_in_month y m =
     (if m = 2 then (if is_leap y then 29 else 28) else if m \<in> {4, 6, 9, 11} then 30 else 31)"

definition days_before_month :: "int \<Rightarrow> nat \<Rightarrow> int" where
  "days_before_month y m = sum_list (map (days_in_month y) [1..<m])"

definition days_before_year :: "int \<Rightarrow> int" where
  "days_before_year y = 365 * (y - 1) + (y - 1) div 4 - (y - 1) div 100 + (y - 1) div 400"

text \<open>Days since 1970-01-01.\<close>

definition epoch_day :: "int \<Rightarrow> nat \<Rightarrow> nat \<Rightarrow> int" where
  "epoch_day y m d = days_before_year y + days_before_month y m + (int d - 1) - 719162"

definition valid_date :: "int \<Rightarrow> nat \<Rightarrow> nat \<Rightarrow> bool" where
  "valid_date y m d \<longleftrightarrow> 1 \<le> m \<and> m \<le> 12 \<and> 1 \<le> d \<and> int d \<le> days_in_month y m"

definition next_date :: "int \<times> nat \<times> nat \<Rightarrow> int \<times> nat \<times> nat" where
  "next_date = (\<lambda>(y, m, d).
     if int d < days_in_month y m then (y, m, d + 1)
     else if m < 12 then (y, m + 1, 1) else (y + 1, 1, 1))"

text \<open>The instant a civil time denotes, in nanoseconds since the epoch.\<close>

definition instant_ns :: "civil_time \<Rightarrow> int" where
  "instant_ns c =
     (((epoch_day (year c) (month c) (day c) * 24 + int (hour c)) * 60 + int (minute c)) * 60
        + int (second c)) * 1000000000 + int (nanosecond c)"

definition valid_civil :: "civil_time \<Rightarrow> bool" where
  "valid_civil c \<longleftrightarrow> valid_date (year c) (month c) (day c) \<and> hour c < 24 \<and> minute c < 60
     \<and> second c < 60 \<and> nanosecond c < 1000000000 \<and> weekday c < 7"

lemma div_pred: "0 < k \<Longrightarrow> (y :: int) div k = (y - 1) div k + (if y mod k = 0 then 1 else 0)"
proof -
  assume k: "0 < k"
  define q r where "q = y div k" and "r = y mod k"
  have y: "y = k * q + r" and r: "0 \<le> r" "r < k" using k by (simp_all add: q_def r_def)
  have "(y - 1) div k = (if r = 0 then q - 1 else q)"
  proof (cases "r = 0")
    case True
    have "(y - 1) div k = q - 1"
      by (rule int_div_pos_eq [where r = "k - 1"]) (use y True k in \<open>simp_all add: algebra_simps\<close>)
    with True show ?thesis by simp
  next
    case False
    have "(y - 1) div k = q"
      by (rule int_div_pos_eq [where r = "r - 1"]) (use y False r k in simp_all)
    with False show ?thesis by simp
  qed
  then show ?thesis by (simp add: q_def r_def)
qed

lemma leap_mods: "(y :: int) mod 400 = 0 \<Longrightarrow> y mod 100 = 0" "(y :: int) mod 100 = 0 \<Longrightarrow> y mod 4 = 0"
  using dvd_trans [of 100 400 y] dvd_trans [of 4 100 y] by (simp_all add: mod_eq_0_iff_dvd)

lemma div_bounds: "0 < k \<Longrightarrow> k * (x div k) \<le> x \<and> x < k * (x div k) + (k :: int)"
proof -
  assume "0 < k"
  then have "0 \<le> x mod k" "x mod k < k" by simp_all
  moreover have "x = k * (x div k) + x mod k" by simp
  ultimately show ?thesis by (metis add.commute add_less_cancel_right le_add_same_cancel1)
qed

lemma days_before_year_Suc:
  "days_before_year (y + 1) = days_before_year y + 365 + (if is_leap y then 1 else 0)"
proof -
  have count: "365 * y + a - b + c
      = 365 * (y - 1) + a' - b' + c' + 365 + (if P \<and> (\<not> Q \<or> R) then 1 else 0)"
    if "a = a' + (if P then 1 else 0)" "b = b' + (if Q then 1 else 0)" "c = c' + (if R then 1 else 0)"
      "R \<Longrightarrow> Q" "Q \<Longrightarrow> P"
    for a a' b b' c c' :: int and P Q R
    using that by (cases P; cases Q; cases R) simp_all
  show ?thesis
    unfolding days_before_year_def is_leap_def add_diff_cancel_right'
    by (rule count [OF div_pred div_pred div_pred leap_mods]) simp_all
qed

lemma days_before_month_cases:
  "days_before_month y (Suc 0) = 0" "days_before_month y 2 = 31"
  "3 \<le> m \<Longrightarrow> m \<le> 12 \<Longrightarrow> days_before_month y m
    = [59, 90, 120, 151, 181, 212, 243, 273, 304, 334] ! (m - 3) + (if is_leap y then 1 else 0)"
proof -
  show "days_before_month y (Suc 0) = 0" "days_before_month y 2 = 31"
    by (simp_all add: days_before_month_def days_in_month_def upt_rec)
  assume "3 \<le> m" "m \<le> 12"
  then have "m \<in> {3, 4, 5, 6, 7, 8, 9, 10, 11, 12}" by simp presburger
  then show "days_before_month y m
    = [59, 90, 120, 151, 181, 212, 243, 273, 304, 334] ! (m - 3) + (if is_leap y then 1 else 0)"
    by (elim insertE emptyE) (simp_all add: days_before_month_def days_in_month_def upt_rec)
qed

text \<open>The specification counts days: successive dates have successive numbers, from the epoch.\<close>

lemma epoch_day_epoch: "epoch_day 1970 1 1 = 0"
  by (simp add: epoch_day_def days_before_month_cases days_before_year_def)

lemma epoch_day_next_date:
  assumes "valid_date y m d" "next_date (y, m, d) = (y', m', d')"
  shows "epoch_day y' m' d' = epoch_day y m d + 1 \<and> valid_date y' m' d'"
proof -
  consider "int d < days_in_month y m" | "int d = days_in_month y m" "m < 12"
    | "int d = days_in_month y m" "m = 12"
    using assms(1) by (force simp: valid_date_def)
  then show ?thesis
  proof cases
    case 1
    with assms show ?thesis by (auto simp: next_date_def epoch_day_def valid_date_def)
  next
    case 2
    then have "days_before_month y (Suc m) = days_before_month y m + days_in_month y m"
      using assms(1) by (simp add: days_before_month_def valid_date_def)
    moreover have "1 \<le> days_in_month y (Suc m)" by (simp add: days_in_month_def)
    ultimately show ?thesis
      using 2 assms by (auto simp: next_date_def epoch_day_def valid_date_def)
  next
    case 3
    with assms show ?thesis
      by (auto simp: next_date_def epoch_day_def valid_date_def days_before_year_Suc
          days_before_month_cases days_in_month_def)
  qed
qed

section \<open>The conversion inverts the count\<close>

text \<open>A day of the 400-year era, by century, four-year cycle, year and day of the year.\<close>

lemma era_decomposition:
  fixes doe :: int
  assumes "0 \<le> doe" "doe \<le> 146096"
  obtains c q a t where "doe = 36524 * c + 1461 * q + 365 * a + t"
    and "0 \<le> c" "c \<le> 3" "0 \<le> q" "q \<le> 24" "0 \<le> a" "a \<le> 3" "0 \<le> t" "t \<le> 365"
    and "t = 365 \<longrightarrow> a = 3 \<and> (q < 24 \<or> c = 3)"
proof -
  define c where "c = min 3 (doe div 36524)"
  define r where "r = doe - 36524 * c"
  define q where "q = r div 1461"
  define s where "s = r - 1461 * q"
  define a where "a = min 3 (s div 365)"
  define t where "t = s - 365 * a"
  have c: "0 \<le> c" "c \<le> 3" using assms by (simp_all add: c_def)
  have r: "0 \<le> r" "r \<le> 36524" "c < 3 \<longrightarrow> r \<le> 36523"
    using assms div_bounds [of 36524 doe] by (auto simp: r_def c_def min_def)
  have q: "0 \<le> q" "q \<le> 24" using r div_bounds [of 1461 r] by (auto simp: q_def)
  have s: "0 \<le> s" "s \<le> 1460" using div_bounds [of 1461 r] by (auto simp: s_def q_def)
  have a: "0 \<le> a" "a \<le> 3" "0 \<le> t" "t \<le> 365" "t = 365 \<longrightarrow> a = 3 \<and> s = 1460"
    using s div_bounds [of 365 s] by (auto simp: t_def a_def min_def)
  have "t = 365 \<longrightarrow> a = 3 \<and> (q < 24 \<or> c = 3)"
    using a r q c by (auto simp: s_def)
  moreover have "doe = 36524 * c + 1461 * q + 365 * a + t"
    by (simp add: t_def s_def r_def)
  ultimately show thesis using that c q a by blast
qed

lemma year_of_era:
  fixes c q a t :: int
  assumes doe: "doe = 36524 * c + 1461 * q + 365 * a + t"
    and "0 \<le> c" "c \<le> 3" "0 \<le> q" "q \<le> 24" "0 \<le> a" "a \<le> 3" "0 \<le> t" "t \<le> 365"
    and leap: "t = 365 \<longrightarrow> a = 3 \<and> (q < 24 \<or> c = 3)"
  shows "(doe - doe div 1460 + doe div 36524 - doe div 146096) div 365 = 100 * c + 4 * q + a"
proof -
  define e :: int where "e = (if 24 * c + q + 365 * a + t \<ge> 1460 then 1 else 0)"
  define g :: int where "g = (if doe = 146096 then 1 else 0)"
  have t: "t < 365 \<or> t = 365 \<and> a = 3 \<and> q < 24 \<or> t = 365 \<and> a = 3 \<and> c = 3"
    using leap \<open>t \<le> 365\<close> by linarith
  have e: "0 \<le> t - e" "t - e < 365" using assms by (auto simp: e_def; linarith)+
  have "doe div 1460 = 25 * c + q + e"
    by (rule int_div_pos_eq [where r = "24 * c + q + 365 * a + t - 1460 * e"])
      (use assms in \<open>auto simp: e_def\<close>)
  moreover have "doe div 36524 = c + g"
    by (rule int_div_pos_eq [where r = "doe - 36524 * (c + g)"]) (use assms t in \<open>auto simp: g_def\<close>)
  moreover have "doe div 146096 = g"
    by (rule int_div_pos_eq [where r = "doe - 146096 * g"]) (use assms in \<open>auto simp: g_def\<close>)
  ultimately have "doe - doe div 1460 + doe div 36524 - doe div 146096
      = 365 * (100 * c + 4 * q + a) + (t - e)"
    using doe by simp
  then show ?thesis using e by simp
qed

lemma day_of_year:
  fixes c q a t :: int
  assumes "0 \<le> c" "0 \<le> q" "q \<le> 24" "0 \<le> a" "a \<le> 3"
  shows "365 * (100 * c + 4 * q + a) + (100 * c + 4 * q + a) div 4 - (100 * c + 4 * q + a) div 100
    = 36524 * c + 1461 * q + 365 * a"
proof -
  have "(100 * c + 4 * q + a) div 4 = 25 * c + q"
    by (rule int_div_pos_eq [where r = a]) (use assms in simp_all)
  moreover have "(100 * c + 4 * q + a) div 100 = c"
    by (rule int_div_pos_eq [where r = "4 * q + a"]) (use assms in simp_all)
  ultimately show ?thesis by simp
qed

text \<open>The first of March of year \<open>Y\<close>, counted through \<open>days_before_year\<close>.\<close>

lemma days_before_year_era:
  fixes c q a :: int
  assumes "0 \<le> c" "c \<le> 3" "0 \<le> q" "q \<le> 24" "0 \<le> a" "a \<le> 3"
  shows "days_before_year (100 * c + 4 * q + a + era * 400 + 1)
    = 146097 * era + 36524 * c + 1461 * q + 365 * a"
proof -
  let ?Y = "100 * c + 4 * q + a + era * 400"
  have "?Y div 4 = 100 * era + 25 * c + q"
    by (rule int_div_pos_eq [where r = a]) (use assms in simp_all)
  moreover have "?Y div 100 = 4 * era + c"
    by (rule int_div_pos_eq [where r = "4 * q + a"]) (use assms in simp_all)
  moreover have "?Y div 400 = era"
    by (rule int_div_pos_eq [where r = "100 * c + 4 * q + a"]) (use assms in simp_all)
  ultimately show ?thesis by (simp add: days_before_year_def)
qed

lemma leap_of_long_year:
  fixes c q :: int
  assumes "0 \<le> c" "c \<le> 3" "0 \<le> q" "q \<le> 24" "q < 24 \<or> c = 3"
  shows "is_leap (100 * c + 4 * q + 3 + era * 400 + 1)"
proof -
  let ?Y = "100 * c + 4 * q + 3 + era * 400 + 1"
  have "?Y mod 4 = 0"
    by (rule int_mod_pos_eq [where q = "25 * c + q + 1 + 100 * era"]) simp_all
  moreover have "?Y mod 100 \<noteq> 0" if "q < 24"
  proof -
    have "?Y mod 100 = 4 * q + 4"
      by (rule int_mod_pos_eq [where q = "c + 4 * era"]) (use assms that in simp_all)
    with assms show ?thesis by simp
  qed
  moreover have "?Y mod 400 = 0" if "q = 24" "c = 3"
    by (rule int_mod_pos_eq [where q = "era + 1"]) (use that in simp_all)
  moreover have "q < 24 \<or> q = 24 \<and> c = 3" using assms by linarith
  ultimately show ?thesis unfolding is_leap_def by metis
qed

text \<open>
  From the day \<open>t\<close> of a year that starts in March to month and day: the \<open>(153 mp + 2) / 5\<close> rule.
  \<open>Y\<close> is the year the March belongs to.
\<close>

lemma month_of_march_year:
  fixes t Y :: int
  assumes t: "0 \<le> t" "t \<le> 365" and leap: "t = 365 \<Longrightarrow> is_leap (Y + 1)"
    and mp: "mp = (5 * t + 2) div 153"
    and d: "d = nat (t - (153 * mp + 2) div 5 + 1)"
    and m: "m = nat (if mp < 10 then mp + 3 else mp - 9)"
    and y: "y = (if m \<le> 2 then Y + 1 else Y)"
  shows "valid_date y m d \<and> epoch_day y m d = days_before_year (Y + 1) - 306 + t - 719162"
proof -
  have b: "153 * mp \<le> 5 * t + 2" "5 * t + 2 < 153 * mp + 153"
    using div_bounds [of 153 "5 * t + 2"] mp by auto
  with t have "0 \<le> mp" "mp \<le> 11" by linarith+
  have leap': "t \<le> 364 \<or> is_leap (Y + 1)" using leap t by linarith
  from \<open>0 \<le> mp\<close> \<open>mp \<le> 11\<close> have "mp \<in> {0, 1, 2, 3, 4, 5, 6, 7, 8, 9, 10, 11}" by simp presburger
  then show ?thesis
    using b t leap'
    by (elim insertE emptyE) (auto simp: d m y valid_date_def epoch_day_def days_in_month_def
        days_before_month_cases days_before_year_Suc)
qed

lemma civil_date_of_days:
  fixes days :: int
  assumes "0 \<le> days"
    and z: "z = days + 719468" and era: "era = z div 146097" and doe: "doe = z mod 146097"
    and yoe: "yoe = (doe - doe div 1460 + doe div 36524 - doe div 146096) div 365"
    and doy: "doy = doe - (365 * yoe + yoe div 4 - yoe div 100)"
    and mp: "mp = (5 * doy + 2) div 153"
    and d: "d = nat (doy - (153 * mp + 2) div 5 + 1)"
    and m: "m = nat (if mp < 10 then mp + 3 else mp - 9)"
    and y: "y = (if m \<le> 2 then yoe + era * 400 + 1 else yoe + era * 400)"
  shows "valid_date y m d \<and> epoch_day y m d = days"
proof -
  have "0 \<le> doe" "doe \<le> 146096"
    using pos_mod_sign [of 146097 z] pos_mod_bound [of 146097 z] by (auto simp: doe)
  then obtain c q a t where dec: "doe = 36524 * c + 1461 * q + 365 * a + t"
    and cqa: "0 \<le> c" "c \<le> 3" "0 \<le> q" "q \<le> 24" "0 \<le> a" "a \<le> 3" and t: "0 \<le> t" "t \<le> 365"
    and leap: "t = 365 \<longrightarrow> a = 3 \<and> (q < 24 \<or> c = 3)"
    by (rule era_decomposition)
  have yoe': "yoe = 100 * c + 4 * q + a"
    unfolding yoe using dec cqa t leap by (rule year_of_era)
  have doy': "doy = t"
    using day_of_year [of c q a] cqa dec by (simp add: doy yoe')
  have long: "is_leap (yoe + era * 400 + 1)" if "t = 365"
    using leap that leap_of_long_year [of c q era] cqa by (auto simp: yoe' algebra_simps)
  have "valid_date y m d \<and>
      epoch_day y m d = days_before_year (yoe + era * 400 + 1) - 306 + t - 719162"
    by (rule month_of_march_year [OF t long mp [unfolded doy'] d [unfolded doy'] m y])
  moreover have "days_before_year (yoe + era * 400 + 1) = 146097 * era + doe - t"
    using days_before_year_era [OF cqa, of era] dec by (simp add: yoe')
  moreover have "z = 146097 * era + doe" by (simp add: era doe)
  ultimately show ?thesis using z by simp
qed

lemma time_of_day_split:
  fixes s :: int
  shows "s = ((s div 86400 * 24 + s mod 86400 div 3600) * 60 + s mod 86400 div 60 mod 60) * 60
    + s mod 86400 mod 60"
proof -
  have split: "s = ((D * 24 + h) * 60 + mi) * 60 + se"
    if "s = 86400 * D + r" "r = 60 * k + se" "k = 60 * h + mi" for D r k h mi se :: int
    using that by simp
  have "s mod 86400 div 3600 = s mod 86400 div 60 div 60"
    using zdiv_zmult2_eq [of 60 "s mod 86400" 60] by simp
  then show ?thesis
    by (metis split mult_div_mod_eq)
qed

lemma civil_fields:
  assumes "A = max (int unix_ns + off * 60 * 1000000000) 0"
    and "s = A div 1000000000" and "days = s div 86400"
    and "z = days + 719468" and "era = z div 146097" and "doe = z mod 146097"
    and "yoe = (doe - doe div 1460 + doe div 36524 - doe div 146096) div 365"
    and "doy = doe - (365 * yoe + yoe div 4 - yoe div 100)"
    and "mp = (5 * doy + 2) div 153"
    and "m = nat (if mp < 10 then mp + 3 else mp - 9)"
  shows "civil_from_unix_ns unix_ns off =
    \<lparr> year = (if m \<le> 2 then yoe + era * 400 + 1 else yoe + era * 400), month = m,
      day = nat (doy - (153 * mp + 2) div 5 + 1),
      hour = nat (s mod 86400 div 3600), minute = nat (s mod 86400 div 60 mod 60),
      second = nat (s mod 86400 mod 60), nanosecond = nat (A mod 1000000000),
      weekday = nat ((days + 4) mod 7) \<rparr>"
  unfolding civil_from_unix_ns_def Let_def assms ..

lemma civil_exact:
  "valid_civil (civil_from_unix_ns unix_ns off)
   \<and> instant_ns (civil_from_unix_ns unix_ns off) = max (int unix_ns + off * 60000000000) 0
   \<and> int (weekday (civil_from_unix_ns unix_ns off))
       = (epoch_day (year (civil_from_unix_ns unix_ns off)) (month (civil_from_unix_ns unix_ns off))
            (day (civil_from_unix_ns unix_ns off)) + 4) mod 7"
proof -
  define A where "A = max (int unix_ns + off * 60 * 1000000000) 0"
  define s where "s = A div 1000000000"
  define days where "days = s div 86400"
  let ?c = "civil_from_unix_ns unix_ns off"
  note eq = civil_fields [OF A_def s_def days_def refl refl refl refl refl refl refl]
  have "0 \<le> A" by (simp add: A_def)
  then have "0 \<le> s" by (simp add: s_def pos_imp_zdiv_nonneg_iff)
  then have d: "0 \<le> days" by (simp add: days_def pos_imp_zdiv_nonneg_iff)
  have date: "valid_date (year ?c) (month ?c) (day ?c)
      \<and> epoch_day (year ?c) (month ?c) (day ?c) = days"
    unfolding eq civil_time.select_convs
    by (rule civil_date_of_days [OF d refl refl refl refl refl refl refl refl refl])
  have tod: "int (hour ?c) = s mod 86400 div 3600" "int (minute ?c) = s mod 86400 div 60 mod 60"
    "int (second ?c) = s mod 86400 mod 60" "int (nanosecond ?c) = A mod 1000000000"
    "int (weekday ?c) = (days + 4) mod 7"
    unfolding eq civil_time.select_convs by (simp_all add: pos_imp_zdiv_nonneg_iff)
  have "int (hour ?c) < 24" unfolding tod
    using div_bounds [of 3600 "s mod 86400"] pos_mod_bound [of 86400 s] by linarith
  moreover have "int (minute ?c) < 60" "int (second ?c) < 60" "int (nanosecond ?c) < 1000000000"
    "int (weekday ?c) < 7"
    unfolding tod by simp_all
  ultimately have "valid_civil ?c" using date by (simp add: valid_civil_def)
  moreover have "instant_ns ?c = s * 1000000000 + A mod 1000000000"
    unfolding instant_ns_def tod using date time_of_day_split [of s] by (simp only: days_def)
  then have "instant_ns ?c = A" unfolding s_def by simp
  ultimately show ?thesis using date tod(5) by (simp add: A_def)
qed

text \<open>
  C6: \<open>civil_from_unix_ns\<close> is exact: for every instant and offset it yields a real calendar date and
  time of day (month lengths and leap years respected) that denotes precisely the requested
  instant, shifted by the offset and clamped at the epoch, with the right day of the week (the
  epoch was a Thursday).
\<close>

theorem civil_from_unix_ns_exact:
  "valid_civil (civil_from_unix_ns unix_ns off)
   \<and> instant_ns (civil_from_unix_ns unix_ns off) = max (int unix_ns + off * 60000000000) 0
   \<and> int (weekday (civil_from_unix_ns unix_ns off))
       = (epoch_day (year (civil_from_unix_ns unix_ns off)) (month (civil_from_unix_ns unix_ns off))
            (day (civil_from_unix_ns unix_ns off)) + 4) mod 7"
  by (rule civil_exact)

section \<open>The texts can be read back\<close>

definition read_elapsed_nano :: "string \<Rightarrow> nat" where
  "read_elapsed_nano t =
     (case map dec_value (split_on (CHR '':'') t) of
        [h, m, s, ms, us, n] \<Rightarrow>
          ((((h * 60 + m) * 60 + s) * 1000 + ms) * 1000 + us) * 1000 + n
      | _ \<Rightarrow> 0)"

definition read_unix_utc :: "string \<Rightarrow> int" where
  "read_unix_utc t =
     (let field = (\<lambda>i n. dec_value (take n (drop i t)))
      in instant_ns \<lparr> year = int (field 0 4), month = field 5 2, day = field 8 2, hour = field 11 2,
           minute = field 14 2, second = field 17 2, nanosecond = field 20 9, weekday = 0 \<rparr>)"

lemma colon_not_in_pad0 [simp]: "CHR '':'' \<notin> set (pad0 w n)"
  using pad0_digits [of w n] by (auto simp: is_ascii_digit_def)

lemma elapsed_weights:
  fixes ns :: nat
  shows "((((ns div 3600000000000 * 60 + ns div 60000000000 mod 60) * 60 + ns div 1000000000 mod 60)
      * 1000 + ns div 1000000 mod 1000) * 1000 + ns div 1000 mod 1000) * 1000 + ns mod 1000 = ns"
proof -
  have nest: "ns div 1000000 = ns div 1000 div 1000" "ns div 1000000000 = ns div 1000000 div 1000"
    "ns div 60000000000 = ns div 1000000000 div 60" "ns div 3600000000000 = ns div 60000000000 div 60"
    by (simp_all only: div_mult2_eq [symmetric] mult_numeral_1 numeral_times_numeral num.simps
        semiring_norm)
  have step: "x div k * k + x mod k = x" for x k :: nat by simp
  show ?thesis by (metis nest step)
qed

text \<open>
   The elapsed display loses nothing: reading the six colon-separated fields of
  \<open>format_elapsed_nano ns\<close> with their weights gives back \<open>ns\<close>, for every number of hours, and
  below 100 hours the display has exactly its 20 characters \<open>hh:mm:ss:mmm:uuu:nnn\<close>.
\<close>

theorem elapsed_nano_lossless:
  "read_elapsed_nano (format_elapsed ns Nano) = ns
   \<and> (ns < 360000000000000 \<longrightarrow> length (format_elapsed ns Nano) = 20)"
proof -
  let ?f = "[ns div 3600000000000, ns div 60000000000 mod 60, ns div 1000000000 mod 60,
    ns div 1000000 mod 1000, ns div 1000 mod 1000, ns mod 1000]"
  have "split_on (CHR '':'') (format_elapsed ns Nano) =
      [pad0 2 (?f ! 0), pad0 2 (?f ! 1), pad0 2 (?f ! 2), pad0 3 (?f ! 3), pad0 3 (?f ! 4), pad0 3 (?f ! 5)]"
    by (simp add: format_elapsed_def format_elapsed_nano_def Let_def split_on_append split_on_no_sep)
  then have "read_elapsed_nano (format_elapsed ns Nano) = ns"
    unfolding read_elapsed_nano_def using elapsed_weights [of ns] by simp
  moreover have "length (format_elapsed ns Nano) = 20" if "ns < 360000000000000"
  proof -
    from that have "ns div 3600000000000 < 10 ^ 2" by (simp add: less_mult_imp_div_less)
    then show ?thesis
      by (simp add: format_elapsed_def format_elapsed_nano_def Let_def length_pad0)
  qed
  ultimately show ?thesis by simp
qed

theorem elapsed_nano_lossless_witness:
  "read_elapsed_nano (format_elapsed 3723004005006 Nano) = 3723004005006
   \<and> length (format_elapsed 3723004005006 Nano) = 20"
  using elapsed_nano_lossless [of 3723004005006] by simp

text \<open>Below \<open>2 ^ 64\<close> nanoseconds the year has four digits.\<close>

lemma days_before_month_bounds:
  "1 \<le> m \<Longrightarrow> m \<le> 12 \<Longrightarrow> 0 \<le> days_before_month y m \<and> days_before_month y m \<le> 335"
proof -
  assume "1 \<le> m" "m \<le> 12"
  then have "m \<in> {1, 2, 3, 4, 5, 6, 7, 8, 9, 10, 11, 12}" by simp presburger
  then show ?thesis by (elim insertE emptyE) (simp_all add: days_before_month_cases)
qed

lemma year_of_u64:
  assumes v: "valid_date y m d" and e: "0 \<le> epoch_day y m d" "epoch_day y m d \<le> 213504"
  shows "1 \<le> y \<and> y \<le> 9999"
proof -
  have md: "0 \<le> days_before_month y m" "days_before_month y m \<le> 335" "1 \<le> d" "int d \<le> 31"
    using v days_before_month_bounds [of m y]
    by (auto simp: valid_date_def days_in_month_def split: if_splits)
  have b: "4 * ((y - 1) div 4) \<le> y - 1" "y - 1 < 4 * ((y - 1) div 4) + 4"
    "100 * ((y - 1) div 100) \<le> y - 1" "y - 1 < 100 * ((y - 1) div 100) + 100"
    "400 * ((y - 1) div 400) \<le> y - 1" "y - 1 < 400 * ((y - 1) div 400) + 400"
    using div_bounds [of 4 "y - 1"] div_bounds [of 100 "y - 1"] div_bounds [of 400 "y - 1"] by auto
  have "0 \<le> days_before_year y + 335 + 30 - 719162" "days_before_year y - 719162 \<le> 213504"
    using e md unfolding epoch_day_def by linarith+
  moreover have "1 \<le> y \<and> y \<le> 9999"
    if "0 \<le> 365 * (y - 1) + p - q + r + 335 + 30 - 719162"
      "365 * (y - 1) + p - q + r - 719162 \<le> 213504"
      "4 * p \<le> y - 1" "y - 1 < 4 * p + 4" "100 * q \<le> y - 1" "y - 1 < 100 * q + 100"
      "400 * r \<le> y - 1" "y - 1 < 400 * r + 400"
    for p q r :: int
    using that by simp
  ultimately show ?thesis
    using b unfolding days_before_year_def by blast
qed

lemma utc_text:
  assumes v: "valid_civil c" and y: "1 \<le> year c" "year c \<le> 9999"
    and t: "t = pad0_int 4 (year c) @ ''-'' @ pad0 2 (month c) @ ''-'' @ pad0 2 (day c) @ '' ''
         @ pad0 2 (hour c) @ '':'' @ pad0 2 (minute c) @ '':'' @ pad0 2 (second c) @ ''.''
         @ pad0 9 (nanosecond c) @ ''Z''"
  shows "length t = 30 \<and> read_unix_utc t = instant_ns c"
proof -
  have "int (day c) \<le> 31"
    using v by (auto simp: valid_civil_def valid_date_def days_in_month_def split: if_splits)
  then have len: "length (pad0 4 (nat (year c))) = 4" "length (pad0 2 (month c)) = 2"
    "length (pad0 2 (day c)) = 2" "length (pad0 2 (hour c)) = 2" "length (pad0 2 (minute c)) = 2"
    "length (pad0 2 (second c)) = 2" "length (pad0 9 (nanosecond c)) = 9"
    using v y by (auto simp: valid_civil_def valid_date_def intro!: length_pad0)
  have "pad0_int 4 (year c) = pad0 4 (nat (year c))" using y by (simp add: pad0_int_def)
  with len y show ?thesis
    by (simp add: t read_unix_utc_def Let_def instant_ns_def)
qed

text \<open>
  C7: A UTC timestamp can be read back exactly: for every \<open>u64\<close> of nanoseconds, the text of
  \<open>format_unix_utc\<close> has the 30 characters of \<open>YYYY-MM-DD HH:MM:SS.nnnnnnnnnZ\<close>, and the fields at
  those positions denote, by the calendar, the very instant that was formatted.
\<close>

theorem format_unix_utc_round_trip:
  assumes "unix_ns < 2 ^ 64"
  shows "length (format_unix_utc unix_ns) = 30
    \<and> read_unix_utc (format_unix_utc unix_ns) = int unix_ns"
proof -
  let ?c = "civil_from_unix_ns unix_ns 0"
  have v: "valid_civil ?c" and i: "instant_ns ?c = int unix_ns"
    using civil_exact [of unix_ns 0] by simp_all
  have days: "0 \<le> e \<and> e \<le> 213504"
    if "(((e * 24 + int h) * 60 + int mi) * 60 + int s) * 1000000000 + int n = int unix_ns"
      "h < 24" "mi < 60" "s < 60" "n < 1000000000" for e h mi s n
    using that assms by simp
  have "0 \<le> epoch_day (year ?c) (month ?c) (day ?c)"
    "epoch_day (year ?c) (month ?c) (day ?c) \<le> 213504"
    using days [OF i [unfolded instant_ns_def]] v by (simp_all add: valid_civil_def)
  with v have "1 \<le> year ?c" "year ?c \<le> 9999"
    using year_of_u64 by (auto simp: valid_civil_def)
  from utc_text [OF v this] i show ?thesis
    by (simp add: format_unix_utc_def Let_def)
qed

theorem format_unix_utc_round_trip_witness:
  "(1788458401123456789 :: nat) < 2 ^ 64 \<and> length (format_unix_utc 1788458401123456789) = 30
    \<and> read_unix_utc (format_unix_utc 1788458401123456789) = 1788458401123456789"
  using format_unix_utc_round_trip [of 1788458401123456789] by simp

end
