(* ===== verification/Stopwatch.thy ===== *)
theory Stopwatch
  imports Chronometer Time_Format
begin

text \<open>
  \<^verbatim>\<open>crates/nanochrono-core/src/stopwatch.rs\<close>: the start/pause/resume/stop state machine, its
  words held in protected cells.  A counter reading is an argument of the operation that
  takes it; the process-wide integrity counters are threaded through.  The second half
  gives the abstract stopwatch (plain words, no codes) and shows that the detailed one
  refines it, even when the stored words are damaged between operations.
\<close>

section \<open>Definitions\<close>

datatype stopwatch_state = Reset | Running | Paused | Stopped

record stopwatch =
  sw_state :: stopwatch_state
  accumulated_ns :: protected
  start_units :: "protected option"
  sw_laps :: "protected list"
  sw_last_integrity :: integrity

definition stopwatch_new :: stopwatch where
  "stopwatch_new = \<lparr>sw_state = Reset, accumulated_ns = protected_new 0, start_units = None,
                    sw_laps = [], sw_last_integrity = Clean\<rparr>"

definition lap_count :: "stopwatch \<Rightarrow> nat" where
  "lap_count sw = length (sw_laps sw)"

text \<open>\<^verbatim>\<open>laps\<close>: each lap is verified as it is yielded, in order.\<close>

fun read_cells :: "protected list \<Rightarrow> integrity_stats \<Rightarrow> u64 list \<times> integrity_stats" where
  "read_cells [] s = ([], s)"
| "read_cells (c # cs) s =
     (let ((v, _), s) = get_checked c s; (vs, s) = read_cells cs s in (v # vs, s))"

definition laps :: "stopwatch \<Rightarrow> integrity_stats \<Rightarrow> u64 list \<times> integrity_stats" where
  "laps sw s = read_cells (sw_laps sw) s"

definition last_lap :: "stopwatch \<Rightarrow> integrity_stats \<Rightarrow> u64 option \<times> integrity_stats" where
  "last_lap sw s =
     (if sw_laps sw = [] then (None, s)
      else let ((v, _), s) = get_checked (last (sw_laps sw)) s in (Some v, s))"

definition elapsed_ns ::
  "'f chronometer \<Rightarrow> u64 \<Rightarrow> stopwatch \<Rightarrow> integrity_stats \<Rightarrow> u64 \<times> integrity_stats" where
  "elapsed_ns chrono now sw s =
     (let ((accumulated, _), s) = get_checked (accumulated_ns sw) s in
      case start_units sw of
        Some start \<Rightarrow>
          let ((st, _), s) = get_checked start s; live = now - st
          in (saturating_add accumulated (units_to_ns chrono live), s)
      | None \<Rightarrow> (accumulated, s))"

fun worst_of_cells :: "protected list \<Rightarrow> integrity \<Rightarrow> integrity_stats \<Rightarrow> integrity \<times> integrity_stats" where
  "worst_of_cells [] worst s = (worst, s)"
| "worst_of_cells (c # cs) worst s =
     (let ((_, i), s) = get_checked c s in worst_of_cells cs (integrity_max worst i) s)"

definition sw_integrity :: "stopwatch \<Rightarrow> integrity_stats \<Rightarrow> integrity \<times> integrity_stats" where
  "sw_integrity sw s =
     (let ((_, worst), s) = get_checked (accumulated_ns sw) s;
          (worst, s) = (case start_units sw of
             Some start \<Rightarrow> (let ((_, i), s) = get_checked start s in (integrity_max worst i, s))
           | None \<Rightarrow> (worst, s))
      in worst_of_cells (sw_laps sw) worst s)"

fun verify_cells ::
  "protected list \<Rightarrow> integrity \<Rightarrow> integrity_stats \<Rightarrow> (protected list \<times> integrity) \<times> integrity_stats" where
  "verify_cells [] worst s = (([], worst), s)"
| "verify_cells (c # cs) worst s =
     (let ((c', i), s) = verify c s;
          ((cs', worst), s) = verify_cells cs (integrity_max worst i) s
      in ((c' # cs', worst), s))"

definition sw_verify :: "stopwatch \<Rightarrow> integrity_stats \<Rightarrow> (stopwatch \<times> integrity) \<times> integrity_stats" where
  "sw_verify sw s =
     (let ((acc', worst), s) = verify (accumulated_ns sw) s;
          ((start', worst), s) = (case start_units sw of
             Some start \<Rightarrow> (let ((st', i), s) = verify start s in ((Some st', integrity_max worst i), s))
           | None \<Rightarrow> ((None, worst), s));
          ((laps', worst), s) = verify_cells (sw_laps sw) worst s
      in ((sw\<lparr>accumulated_ns := acc', start_units := start', sw_laps := laps',
              sw_last_integrity := worst\<rparr>, worst), s))"

definition sw_format ::
  "'f chronometer \<Rightarrow> detail_mode \<Rightarrow> u64 \<Rightarrow> stopwatch \<Rightarrow> integrity_stats \<Rightarrow> string \<times> integrity_stats" where
  "sw_format chrono detail now sw s =
     (let (ns, s) = elapsed_ns chrono now sw s in (format_elapsed (unat ns) detail, s))"

definition sw_start :: "u64 \<Rightarrow> stopwatch \<Rightarrow> stopwatch" where
  "sw_start now sw =
     sw\<lparr>accumulated_ns := protected_new 0, sw_laps := [], sw_last_integrity := Clean,
        start_units := Some (protected_new now), sw_state := Running\<rparr>"

definition sw_resume :: "u64 \<Rightarrow> stopwatch \<Rightarrow> integrity_stats \<Rightarrow> stopwatch \<times> integrity_stats" where
  "sw_resume now sw s =
     (if sw_state sw = Running then (sw, s)
      else let ((sw, _), s) = sw_verify sw s
           in (sw\<lparr>start_units := Some (protected_new now), sw_state := Running\<rparr>, s))"

definition sw_freeze ::
  "'f chronometer \<Rightarrow> u64 \<Rightarrow> stopwatch \<Rightarrow> integrity_stats \<Rightarrow> stopwatch \<times> integrity_stats" where
  "sw_freeze chrono now sw s =
     (let ((sw, _), s) = sw_verify sw s in
      case start_units sw of
        Some start \<Rightarrow>
          let live = now - protected_get start;
              total = saturating_add (protected_get (accumulated_ns sw)) (units_to_ns chrono live)
          in (sw\<lparr>start_units := None,
                 accumulated_ns := protected_set total (accumulated_ns sw)\<rparr>, s)
      | None \<Rightarrow> (sw, s))"

definition sw_pause ::
  "'f chronometer \<Rightarrow> u64 \<Rightarrow> stopwatch \<Rightarrow> integrity_stats \<Rightarrow> stopwatch \<times> integrity_stats" where
  "sw_pause chrono now sw s =
     (if sw_state sw \<noteq> Running then (sw, s)
      else let (sw, s) = sw_freeze chrono now sw s in (sw\<lparr>sw_state := Paused\<rparr>, s))"

definition sw_stop ::
  "'f chronometer \<Rightarrow> u64 \<Rightarrow> stopwatch \<Rightarrow> integrity_stats \<Rightarrow> stopwatch \<times> integrity_stats" where
  "sw_stop chrono now sw s =
     (let (sw, s) = (if sw_state sw = Running then sw_freeze chrono now sw s else (sw, s))
      in (sw\<lparr>sw_state := Stopped\<rparr>, s))"

definition sw_reset :: "stopwatch \<Rightarrow> stopwatch" where
  "sw_reset sw =
     sw\<lparr>accumulated_ns := protected_new 0, start_units := None, sw_laps := [],
        sw_last_integrity := Clean, sw_state := Reset\<rparr>"

definition sw_lap ::
  "'f chronometer \<Rightarrow> u64 \<Rightarrow> stopwatch \<Rightarrow> integrity_stats \<Rightarrow> u64 \<times> stopwatch \<times> integrity_stats" where
  "sw_lap chrono now sw s =
     (let ((sw, _), s) = sw_verify sw s; (v, s) = elapsed_ns chrono now sw s
      in (v, sw\<lparr>sw_laps := sw_laps sw @ [protected_new v]\<rparr>, s))"

definition sw_toggle ::
  "'f chronometer \<Rightarrow> u64 \<Rightarrow> stopwatch \<Rightarrow> integrity_stats \<Rightarrow> stopwatch \<times> integrity_stats" where
  "sw_toggle chrono now sw s =
     (case sw_state sw of
        Reset \<Rightarrow> (sw_start now sw, s)
      | Running \<Rightarrow> sw_pause chrono now sw s
      | Paused \<Rightarrow> sw_resume now sw s
      | Stopped \<Rightarrow> sw_resume now sw s)"

definition inject_total_flip :: "nat \<Rightarrow> stopwatch \<Rightarrow> stopwatch" where
  "inject_total_flip b sw = sw\<lparr>accumulated_ns := inject_flip b (accumulated_ns sw)\<rparr>"

section \<open>Operations and runs\<close>

datatype sw_op = OpStart | OpResume | OpPause | OpStop | OpReset | OpLap | OpToggle | OpVerify

text \<open>One public operation at counter reading \<open>now\<close>.\<close>

fun sw_apply ::
  "'f chronometer \<Rightarrow> sw_op \<Rightarrow> u64 \<Rightarrow> stopwatch \<Rightarrow> integrity_stats \<Rightarrow> stopwatch \<times> integrity_stats" where
  "sw_apply chrono OpStart now sw s = (sw_start now sw, s)"
| "sw_apply chrono OpResume now sw s = sw_resume now sw s"
| "sw_apply chrono OpPause now sw s = sw_pause chrono now sw s"
| "sw_apply chrono OpStop now sw s = sw_stop chrono now sw s"
| "sw_apply chrono OpReset now sw s = (sw_reset sw, s)"
| "sw_apply chrono OpLap now sw s = snd (sw_lap chrono now sw s)"
| "sw_apply chrono OpToggle now sw s = sw_toggle chrono now sw s"
| "sw_apply chrono OpVerify now sw s = (let ((sw, _), s) = sw_verify sw s in (sw, s))"

section \<open>The abstract stopwatch\<close>

record ideal =
  i_state :: stopwatch_state
  i_total :: u64
  i_start :: "u64 option"
  i_laps :: "u64 list"

definition ideal_new :: ideal where
  "ideal_new = \<lparr>i_state = Reset, i_total = 0, i_start = None, i_laps = []\<rparr>"

definition ideal_elapsed :: "(u64 \<Rightarrow> u64) \<Rightarrow> u64 \<Rightarrow> ideal \<Rightarrow> u64" where
  "ideal_elapsed conv now w =
     (case i_start w of None \<Rightarrow> i_total w | Some st \<Rightarrow> saturating_add (i_total w) (conv (now - st)))"

definition ideal_freeze :: "(u64 \<Rightarrow> u64) \<Rightarrow> u64 \<Rightarrow> ideal \<Rightarrow> ideal" where
  "ideal_freeze conv now w = w\<lparr>i_total := ideal_elapsed conv now w, i_start := None\<rparr>"

definition ideal_begin :: "u64 \<Rightarrow> ideal \<Rightarrow> ideal" where
  "ideal_begin now w = w\<lparr>i_start := Some now, i_state := Running\<rparr>"

fun ideal_apply :: "(u64 \<Rightarrow> u64) \<Rightarrow> sw_op \<Rightarrow> u64 \<Rightarrow> ideal \<Rightarrow> ideal" where
  "ideal_apply conv OpStart now w = ideal_begin now ideal_new"
| "ideal_apply conv OpResume now w = (if i_state w = Running then w else ideal_begin now w)"
| "ideal_apply conv OpPause now w =
     (if i_state w = Running then (ideal_freeze conv now w)\<lparr>i_state := Paused\<rparr> else w)"
| "ideal_apply conv OpStop now w =
     (if i_state w = Running then ideal_freeze conv now w else w)\<lparr>i_state := Stopped\<rparr>"
| "ideal_apply conv OpReset now w = ideal_new"
| "ideal_apply conv OpLap now w = w\<lparr>i_laps := i_laps w @ [ideal_elapsed conv now w]\<rparr>"
| "ideal_apply conv OpToggle now w =
     (case i_state w of
        Reset \<Rightarrow> ideal_begin now ideal_new
      | Running \<Rightarrow> (ideal_freeze conv now w)\<lparr>i_state := Paused\<rparr>
      | _ \<Rightarrow> ideal_begin now w)"
| "ideal_apply conv OpVerify now w = w"

definition refines :: "stopwatch \<Rightarrow> ideal \<Rightarrow> bool" where
  "refines sw w \<longleftrightarrow>
     sw_state sw = i_state w \<and> stands_for (accumulated_ns sw) (i_total w) \<and>
     rel_option stands_for (start_units sw) (i_start w) \<and> list_all2 stands_for (sw_laps sw) (i_laps w)"

text \<open>
  Runs of the detailed stopwatch with damage: an event is an operation, or a fault that
  replaces the stored cells by others standing for the same values.
\<close>

inductive sw_step :: "'f chronometer \<Rightarrow> stopwatch \<times> ideal \<Rightarrow> stopwatch \<times> ideal \<Rightarrow> bool"
  for chrono where
  step_op: "sw_apply chrono oper now sw s = (sw', s') \<Longrightarrow>
     sw_step chrono (sw, w) (sw', ideal_apply (units_to_ns chrono) oper now w)"
| step_fault: "sw_state sw' = sw_state sw \<Longrightarrow>
     (\<And>v. stands_for (accumulated_ns sw) v \<Longrightarrow> stands_for (accumulated_ns sw') v) \<Longrightarrow>
     (\<And>ov. rel_option stands_for (start_units sw) ov \<Longrightarrow> rel_option stands_for (start_units sw') ov) \<Longrightarrow>
     (\<And>vs. list_all2 stands_for (sw_laps sw) vs \<Longrightarrow> list_all2 stands_for (sw_laps sw') vs) \<Longrightarrow>
     sw_step chrono (sw, w) (sw', w)"

inductive sw_reachable :: "'f chronometer \<Rightarrow> stopwatch \<times> ideal \<Rightarrow> bool" for chrono where
  reach_new: "sw_reachable chrono (stopwatch_new, ideal_new)"
| reach_step: "sw_reachable chrono x \<Longrightarrow> sw_step chrono x y \<Longrightarrow> sw_reachable chrono y"

section \<open>Refinement\<close>

lemma verify_cells_scrub: "fst (fst (verify_cells cs worst s)) = map scrub cs"
  by (induction cs arbitrary: worst s) (simp_all add: Let_def verify_eq case_prod_unfold)

lemma read_cells_checked: "fst (read_cells cs s) = map (\<lambda>p. fst (checked_read p)) cs"
  by (induction cs arbitrary: s) (simp_all add: Let_def case_prod_unfold)

text \<open>A scrub of the stopwatch scrubs every cell and changes nothing else but the report.\<close>

lemma sw_verify_fields:
  "\<exists>i. fst (fst (sw_verify sw s)) =
     sw\<lparr>accumulated_ns := scrub (accumulated_ns sw), start_units := map_option scrub (start_units sw),
        sw_laps := map scrub (sw_laps sw), sw_last_integrity := i\<rparr>"
  by (auto simp: sw_verify_def Let_def verify_eq case_prod_unfold verify_cells_scrub split: option.splits)

lemma sw_verify_selectors [simp]:
  "sw_state (fst (fst (sw_verify sw s))) = sw_state sw"
  "accumulated_ns (fst (fst (sw_verify sw s))) = scrub (accumulated_ns sw)"
  "start_units (fst (fst (sw_verify sw s))) = map_option scrub (start_units sw)"
  "sw_laps (fst (fst (sw_verify sw s))) = map scrub (sw_laps sw)"
  using sw_verify_fields [of sw s] by auto

lemma refines_verify: "refines sw w \<Longrightarrow> refines (fst (fst (sw_verify sw s))) w"
  by (simp add: refines_def cell.repr_fix_up cell.opt_fix_up cell.cells_fix_up)

lemma elapsed_refines:
  assumes "refines sw w"
  shows "fst (elapsed_ns chrono now sw s) = ideal_elapsed (units_to_ns chrono) now w"
  using assms
  by (cases "start_units sw"; cases "i_start w")
    (simp_all add: refines_def elapsed_ns_def ideal_elapsed_def case_prod_unfold Let_def stands_for_def)

lemma laps_refine: "refines sw w \<Longrightarrow> fst (laps sw s) = i_laps w"
  by (simp add: refines_def laps_def read_cells_checked cell.cells_checked)

lemma freeze_refines:
  assumes "refines sw w"
  shows "refines (fst (sw_freeze chrono now sw s)) (ideal_freeze (units_to_ns chrono) now w)"
proof -
  have "refines (fst (fst (sw_verify sw s))) w" using assms by (rule refines_verify)
  moreover have "protected_get (scrub (accumulated_ns sw)) = i_total w"
    using assms by (simp add: refines_def cell.load_fix_up)
  moreover have "protected_get (scrub st) = v" if "start_units sw = Some st" "i_start w = Some v" for st v
    using assms that by (simp add: refines_def cell.load_fix_up)
  ultimately show ?thesis
    by (cases "start_units sw"; cases "i_start w")
      (simp_all add: refines_def sw_freeze_def ideal_freeze_def ideal_elapsed_def case_prod_unfold Let_def)
qed

lemma freeze_state [simp]: "sw_state (fst (sw_freeze chrono now sw s)) = sw_state sw"
  by (simp add: sw_freeze_def case_prod_unfold Let_def split: option.split)

lemma freeze_start [simp]: "start_units (fst (sw_freeze chrono now sw s)) = None"
  by (simp add: sw_freeze_def case_prod_unfold Let_def split: option.split)

lemma refines_state: "refines sw w \<Longrightarrow> i_state w = sw_state sw"
  by (simp add: refines_def)

lemma refines_new: "refines stopwatch_new ideal_new"
  by (simp add: refines_def stopwatch_new_def ideal_new_def)

lemma refines_set_state: "refines sw w \<Longrightarrow> refines (sw\<lparr>sw_state := q\<rparr>) (w\<lparr>i_state := q\<rparr>)"
  by (simp add: refines_def)

lemma start_refines: "refines (sw_start now sw) (ideal_begin now ideal_new)"
  by (simp add: refines_def sw_start_def ideal_begin_def ideal_new_def)

lemma resume_refines:
  assumes "refines sw w"
  shows "refines (fst (sw_resume now sw s)) (ideal_apply conv OpResume now w)"
  using assms refines_verify [OF assms, of s]
  by (simp add: sw_resume_def refines_state case_prod_unfold Let_def)
    (simp add: refines_def ideal_begin_def)

lemma pause_refines:
  assumes "refines sw w"
  shows "refines (fst (sw_pause chrono now sw s)) (ideal_apply (units_to_ns chrono) OpPause now w)"
  using assms freeze_refines [OF assms, of chrono now s]
  by (auto simp: sw_pause_def refines_state case_prod_unfold Let_def intro: refines_set_state)

lemma apply_refines:
  assumes "refines sw w"
  shows "refines (fst (sw_apply chrono oper now sw s)) (ideal_apply (units_to_ns chrono) oper now w)"
proof (cases oper)
  case OpStop
  then show ?thesis using assms freeze_refines [OF assms, of chrono now s]
    by (auto simp: sw_stop_def refines_state case_prod_unfold Let_def intro: refines_set_state)
next
  case OpLap
  have r: "refines (fst (fst (sw_verify sw s))) w" using assms by (rule refines_verify)
  with OpLap elapsed_refines [OF r, of chrono now "snd (sw_verify sw s)"] show ?thesis
    by (simp add: sw_lap_def case_prod_unfold Let_def)
      (simp add: refines_def cell.cells_append_make)
next
  case OpToggle
  then show ?thesis
    using assms start_refines pause_refines [OF assms] resume_refines [OF assms]
    by (cases "sw_state sw") (simp_all add: sw_toggle_def refines_state)
next
  case OpReset
  then show ?thesis by (simp add: sw_reset_def refines_def ideal_new_def)
next
  case OpVerify
  then show ?thesis using refines_verify [OF assms] by (simp add: case_prod_unfold Let_def)
qed (use assms start_refines pause_refines [OF assms, of chrono now s] resume_refines [OF assms, of now s]
      in simp_all)

lemma reachable_refines: "sw_reachable chrono x \<Longrightarrow> refines (fst x) (snd x)"
proof (induction rule: sw_reachable.induct)
  case reach_new
  show ?case by (simp add: refines_new)
next
  case (reach_step x y)
  from reach_step.hyps(2) reach_step.IH show ?case
  proof (cases rule: sw_step.cases)
    case (step_op oper now sw s sw' s' w)
    then show ?thesis using apply_refines [of sw w chrono oper now s] reach_step.IH by simp
  next
    case (step_fault sw' sw w)
    then show ?thesis using reach_step.IH by (simp add: refines_def)
  qed
qed

lemma ideal_running_iff:
  "(i_start w \<noteq> None \<longleftrightarrow> i_state w = Running) \<Longrightarrow>
   (i_start (ideal_apply conv oper now w) \<noteq> None \<longleftrightarrow> i_state (ideal_apply conv oper now w) = Running)"
  by (cases oper) (auto simp: ideal_begin_def ideal_new_def ideal_freeze_def split: stopwatch_state.splits)

lemma reachable_running_iff:
  "sw_reachable chrono x \<Longrightarrow> i_start (snd x) \<noteq> None \<longleftrightarrow> i_state (snd x) = Running"
proof (induction rule: sw_reachable.induct)
  case reach_new
  show ?case by (simp add: ideal_new_def)
next
  case (reach_step x y)
  from reach_step.hyps(2) reach_step.IH show ?case
    by (cases rule: sw_step.cases) (use ideal_running_iff in auto)
qed

text \<open>Toggling at \<open>a\<close> and again at \<open>b\<close>, for each segment \<open>(a, b)\<close> in turn.\<close>

fun toggle_segments ::
  "'f chronometer \<Rightarrow> (u64 \<times> u64) list \<Rightarrow> stopwatch \<times> integrity_stats \<Rightarrow> stopwatch \<times> integrity_stats" where
  "toggle_segments chrono [] x = x"
| "toggle_segments chrono ((a, b) # segs) (sw, s) =
     toggle_segments chrono segs (case sw_toggle chrono a sw s of (sw, s) \<Rightarrow> sw_toggle chrono b sw s)"

definition segments_total :: "(u64 \<Rightarrow> u64) \<Rightarrow> (u64 \<times> u64) list \<Rightarrow> u64" where
  "segments_total conv segs = fold (\<lambda>(a, b) total. saturating_add total (conv (b - a))) segs 0"

lemma unat_fold_saturating_add:
  "unat (fold (\<lambda>(a, b) total. saturating_add total (conv (b - a))) segs (t :: u64)) =
     min (unat t + sum_list (map (\<lambda>(a, b). unat (conv (b - a))) segs)) (2 ^ 64 - 1)"
proof (induction segs arbitrary: t)
  case Nil
  then show ?case using unat_u64_less [of t] by simp
next
  case (Cons seg segs)
  then show ?case by (cases seg) (simp add: unat_saturating_add)
qed

lemma toggle_pair_refines:
  assumes "refines sw w" "i_state w \<noteq> Running" "i_state w = Reset \<longrightarrow> i_total w = 0 \<and> i_laps w = []"
  shows "refines (fst (case sw_toggle chrono a sw s of (sw, s) \<Rightarrow> sw_toggle chrono b sw s)) (w\<lparr>i_state := Paused, i_start := None,
      i_total := saturating_add (i_total w) (units_to_ns chrono (b - a))\<rparr>)"
proof -
  let ?c = "units_to_ns chrono"
  let ?y = "sw_toggle chrono a sw s"
  have "refines (fst ?y) (ideal_apply ?c OpToggle a w)"
    using apply_refines [OF assms(1), of chrono OpToggle a s] by simp
  then have "refines (fst (sw_toggle chrono b (fst ?y) (snd ?y)))
      (ideal_apply ?c OpToggle b (ideal_apply ?c OpToggle a w))"
    using apply_refines [of "fst ?y" _ chrono OpToggle b "snd ?y"] by simp
  moreover have "ideal_apply ?c OpToggle b (ideal_apply ?c OpToggle a w) =
      w\<lparr>i_state := Paused, i_start := None, i_total := saturating_add (i_total w) (?c (b - a))\<rparr>"
    using assms(2,3)
    by (cases w; cases "i_state w")
      (simp_all add: ideal_begin_def ideal_freeze_def ideal_elapsed_def ideal_new_def)
  ultimately show ?thesis by (simp add: case_prod_unfold)
qed

lemma toggle_segments_refine:
  assumes "refines sw w" "i_state w \<noteq> Running" "i_state w = Reset \<longrightarrow> i_total w = 0 \<and> i_laps w = []"
  shows "\<exists>w'. refines (fst (toggle_segments chrono segs (sw, s))) w' \<and>
    (i_start w = None \<longrightarrow> i_start w' = None) \<and>
    i_total w' = fold (\<lambda>(a, b) total. saturating_add total (units_to_ns chrono (b - a))) segs (i_total w)"
  using assms
proof (induction segs arbitrary: sw w s)
  case Nil
  then show ?case by auto
next
  case (Cons seg segs)
  obtain a b where seg: "seg = (a, b)" by (cases seg)
  let ?x = "case sw_toggle chrono a sw s of (sw, s) \<Rightarrow> sw_toggle chrono b sw s"
  have "refines (fst ?x) (w\<lparr>i_state := Paused, i_start := None,
      i_total := saturating_add (i_total w) (units_to_ns chrono (b - a))\<rparr>)"
    using toggle_pair_refines [OF Cons.prems, where chrono = chrono and a = a and b = b and s = s] .
  from Cons.IH [OF this, of "snd ?x"] show ?case
    by (simp add: seg) blast
qed

section \<open>Properties\<close>

text \<open>C5: Fault-tolerant refinement.  In every reachable state, for every interleaving of the
  public operations with damage that stays within what the stored words can repair, the
  detailed stopwatch refines the ideal one: it reports the same elapsed time and the same
  laps as a stopwatch whose memory is never damaged.\<close>

theorem stopwatch_refines_ideal:
  assumes "sw_reachable chrono (sw, w)"
  shows "sw_state sw = i_state w \<and>
    fst (elapsed_ns chrono now sw s) = ideal_elapsed (units_to_ns chrono) now w \<and>
    fst (laps sw s) = i_laps w"
proof -
  have r: "refines sw w" using reachable_refines [OF assms] by simp
  from refines_state [OF r] elapsed_refines [OF r, of chrono now s] laps_refine [OF r, of s]
  show ?thesis by simp
qed

theorem stopwatch_refines_ideal_witness:
  "let chrono = \<lparr>counter_hz = protected_new 1000000000, c_start_units = protected_new 0, c_start_ns = 0,
       window_units = 0, window_ns = 0, drift_ppm = (), overhead_units = 0, c_last_integrity = Clean\<rparr>;
     s = \<lparr>checks = 0, ecc_corrections = 0, tmr_corrections = 0, unrecoverable = 0\<rparr>
   in sw_state (sw_start 100 stopwatch_new) = Running \<and>
      fst (elapsed_ns chrono 175 (sw_start 100 stopwatch_new) s) = 75"
proof -
  let ?chrono = "\<lparr>counter_hz = protected_new 1000000000, c_start_units = protected_new 0, c_start_ns = 0,
       window_units = 0, window_ns = 0, drift_ppm = (), overhead_units = 0, c_last_integrity = Clean\<rparr>"
  let ?s = "\<lparr>checks = 0, ecc_corrections = 0, tmr_corrections = 0, unrecoverable = 0\<rparr>"
  have "sw_reachable ?chrono (sw_start 100 stopwatch_new, ideal_apply (units_to_ns ?chrono) OpStart 100 ideal_new)"
    by (rule sw_reachable.reach_step [OF sw_reachable.reach_new])
      (rule sw_step.step_op [where oper = OpStart and s = ?s and s' = ?s], simp)
  from stopwatch_refines_ideal [OF this, of 175 ?s] show ?thesis
    by (simp add: Let_def ideal_begin_def ideal_elapsed_def ideal_new_def units_to_ns_def protected_get_def
        mul_div_u64_def saturating_add_def)
qed

text \<open>The accumulator and the live segment never overlap.  In every reachable state a start
  reading is stored exactly while the stopwatch is running, and a stopwatch that is not
  running reports the same elapsed time whatever the counter reads.\<close>

theorem start_stored_iff_running:
  assumes "sw_reachable chrono (sw, w)"
  shows "(start_units sw \<noteq> None \<longleftrightarrow> sw_state sw = Running) \<and>
    (sw_state sw \<noteq> Running \<longrightarrow> fst (elapsed_ns chrono now sw s) = fst (elapsed_ns chrono now' sw s'))"
proof -
  have r: "refines sw w" using reachable_refines [OF assms] by simp
  then have eq: "start_units sw \<noteq> None \<longleftrightarrow> i_start w \<noteq> None" "sw_state sw = i_state w"
    by (auto simp: refines_def option.rel_sel)
  with reachable_running_iff [OF assms] have running: "start_units sw \<noteq> None \<longleftrightarrow> sw_state sw = Running"
    by simp
  have "fst (elapsed_ns chrono n sw z) = i_total w" if "sw_state sw \<noteq> Running" for n z
    using that running eq elapsed_refines [OF r, of chrono n z] by (simp add: ideal_elapsed_def)
  with running show ?thesis by simp
qed

theorem start_stored_iff_running_witness:
  "start_units stopwatch_new \<noteq> None \<longleftrightarrow> sw_state stopwatch_new = Running"
  using start_stored_iff_running [OF sw_reachable.reach_new] by blast

text \<open>No double counting.  Starting from a new stopwatch, pressing the primary key at the start
  and end of each of any number of segments leaves exactly the sum of the segments'
  durations as the elapsed time, clamped at the largest 64-bit value; in particular a
  resumed run continues from its total instead of restarting or re-adding it.\<close>

theorem toggled_segments_sum:
  "unat (fst (elapsed_ns chrono now (fst (toggle_segments chrono segs (stopwatch_new, s))) s')) =
     min (\<Sum>(a, b)\<leftarrow>segs. unat (units_to_ns chrono (b - a))) (2 ^ 64 - 1)"
proof -
  obtain w where "refines (fst (toggle_segments chrono segs (stopwatch_new, s))) w" "i_start w = None"
    "i_total w = segments_total (units_to_ns chrono) segs"
    using toggle_segments_refine [OF refines_new, of chrono segs s]
    by (auto simp: ideal_new_def segments_total_def)
  then have "fst (elapsed_ns chrono now (fst (toggle_segments chrono segs (stopwatch_new, s))) s') =
      segments_total (units_to_ns chrono) segs"
    by (simp add: elapsed_refines ideal_elapsed_def)
  then show ?thesis by (simp add: segments_total_def unat_fold_saturating_add)
qed

text \<open>A flipped bit in the stored total is invisible.  Flipping any bit of the code word of an
  intact total changes no elapsed reading, and resuming repairs the stored total before
  the new segment is added to it.\<close>

theorem total_flip_invisible:
  assumes "accumulated_ns sw = protected_new t" "b < 72"
  shows "fst (elapsed_ns chrono now (inject_total_flip b sw) s) = fst (elapsed_ns chrono now sw s) \<and>
    (sw_state sw \<noteq> Running \<longrightarrow>
       accumulated_ns (fst (sw_resume now (inject_total_flip b sw) s)) = protected_new t)"
  using assms
  by (simp add: inject_total_flip_def elapsed_ns_def sw_resume_def scrub_def checked_read_one_flip
      case_prod_unfold Let_def split: option.split)

theorem total_flip_invisible_witness:
  "accumulated_ns (fst (sw_resume 5 (inject_total_flip 35 (stopwatch_new\<lparr>sw_state := Paused,
      accumulated_ns := protected_new 10000000\<rparr>)) \<lparr>checks = 0, ecc_corrections = 0, tmr_corrections = 0, unrecoverable = 0\<rparr>)) = protected_new 10000000"
  using total_flip_invisible [of "stopwatch_new\<lparr>sw_state := Paused, accumulated_ns := protected_new 10000000\<rparr>" 10000000 35
      "undefined :: unit chronometer" 5 "\<lparr>checks = 0, ecc_corrections = 0, tmr_corrections = 0, unrecoverable = 0\<rparr>"]
  by simp

end
