(* ===== verification/Power_Confirm.thy ===== *)
theory Power_Confirm
  imports Prelude
begin

text \<open>
  \<^verbatim>\<open>crates/nanochrono-core/src/power_confirm.rs\<close>: the typed confirmation in front of a restart or a
  power-off.  Operations are state transformers on the \<open>confirm\<close> record, \<open>confirm_reach\<close> the runs
  they make.  Shown: an action is only ever confirmed by its own code, typed in time; guessing blind
  costs at least the sum of the doubling lockouts; no entropy source can cancel another.
\<close>

section \<open>State and operations\<close>

definition CODE_DIGITS :: nat where "CODE_DIGITS = 2"

definition CONFIRM_WINDOW_NS :: u64 where "CONFIRM_WINDOW_NS = 10000000000"

definition LOCKOUT_BASE_NS :: u64 where "LOCKOUT_BASE_NS = 5000000000"

definition LOCKOUT_MAX_NS :: u64 where "LOCKOUT_MAX_NS = 600000000000"

datatype action = Restart | Shutdown

definition verb :: "action \<Rightarrow> string" where
  "verb a = (case a of Restart \<Rightarrow> ''restart'' | Shutdown \<Rightarrow> ''shut down'')"

datatype refused = LockedOut u64

datatype outcome = Pending | Confirmed action | Rejected | Idle

record pending_request =
  action_of :: action
  code :: "u8 list"
  typed :: nat
  since_ns :: u64

record confirm =
  pool :: u64
  pending :: "pending_request option"
  misses :: u32
  locked_until_ns :: u64

definition mix :: "u64 \<Rightarrow> u64" where
  "mix z =
     (let z = (z XOR drop_bit 30 z) * 0xBF58476D1CE4E5B9;
          z = (z XOR drop_bit 27 z) * 0x94D049BB133111EB
      in z XOR drop_bit 31 z)"

definition confirm_new :: confirm where
  "confirm_new = \<lparr> pool = 0x9E3779B97F4A7C15, pending = None, misses = 0, locked_until_ns = 0 \<rparr>"

definition stir :: "u64 \<Rightarrow> confirm \<Rightarrow> confirm" where
  "stir entropy c = c\<lparr> pool := mix (pool c XOR entropy) + 0x9E3779B97F4A7C15 \<rparr>"

definition lockout_remaining_ns :: "confirm \<Rightarrow> u64 \<Rightarrow> u64" where
  "lockout_remaining_ns c now = saturating_sub (locked_until_ns c) now"

text \<open>The loop that draws the digits, least significant first; also returns what is left of \<open>r\<close>.\<close>

fun draw_digits :: "nat \<Rightarrow> u64 \<Rightarrow> u8 list \<times> u64" where
  "draw_digits 0 r = ([], r)"
| "draw_digits (Suc n) r = (let (ds, r') = draw_digits n (r div 10) in (ucast (r mod 10) # ds, r'))"

definition request :: "action \<Rightarrow> u64 \<Rightarrow> u64 \<Rightarrow> confirm \<Rightarrow> confirm \<times> (refused + u8 list)" where
  "request a now entropy c =
     (let remaining = lockout_remaining_ns c now in
      if remaining > 0 then (c\<lparr> pending := None \<rparr>, Inl (LockedOut remaining))
      else
        let c = stir (entropy XOR rotate_left 32 now) c;
            (cd, r) = draw_digits CODE_DIGITS (mix (pool c));
            c = stir r c;
            c = c\<lparr> pending := Some \<lparr> action_of = a, code = cd, typed = 0, since_ns = now \<rparr> \<rparr>
        in (c, Inr cd))"

definition live :: "confirm \<Rightarrow> u64 \<Rightarrow> pending_request option" where
  "live c now =
     (case pending c of
        None \<Rightarrow> None
      | Some p \<Rightarrow> if saturating_sub now (since_ns p) < CONFIRM_WINDOW_NS then Some p else None)"

definition shown :: "confirm \<Rightarrow> u64 \<Rightarrow> (action \<times> u8 list \<times> nat) option" where
  "shown c now = map_option (\<lambda>p. (action_of p, code p, typed p)) (live c now)"

definition remaining_ns :: "confirm \<Rightarrow> u64 \<Rightarrow> u64 option" where
  "remaining_ns c now =
     map_option (\<lambda>p. CONFIRM_WINDOW_NS - saturating_sub now (since_ns p)) (live c now)"

definition is_pending :: "confirm \<Rightarrow> u64 \<Rightarrow> bool" where
  "is_pending c now \<longleftrightarrow> live c now \<noteq> None"

definition cancel :: "confirm \<Rightarrow> confirm" where
  "cancel c = c\<lparr> pending := None \<rparr>"

definition lockout_for :: "u32 \<Rightarrow> u64" where
  "lockout_for m =
     (let shift = min m 16
      in min (saturating_mul LOCKOUT_BASE_NS (push_bit (unat shift) 1)) LOCKOUT_MAX_NS)"

text \<open>\<^verbatim>\<open>p.code[p.typed]\<close> panics out of range: the result is then \<open>None\<close>.\<close>

definition digit :: "u8 \<Rightarrow> u64 \<Rightarrow> confirm \<Rightarrow> (confirm \<times> outcome) option" where
  "digit d now c =
     (case live c now of
        None \<Rightarrow> Some (c\<lparr> pending := None \<rparr>, Idle)
      | Some p \<Rightarrow>
          if length (code p) \<le> typed p then None
          else if code p ! typed p \<noteq> d then
            Some (c\<lparr> pending := None, misses := saturating_add (misses c) 1,
                     locked_until_ns := saturating_add now (lockout_for (misses c)) \<rparr>, Rejected)
          else
            let p = p\<lparr> typed := typed p + 1 \<rparr> in
            if typed p = CODE_DIGITS
            then Some (c\<lparr> pending := None, misses := 0 \<rparr>, Confirmed (action_of p))
            else Some (c\<lparr> pending := Some p \<rparr>, Pending))"

section \<open>Runs\<close>

datatype confirm_op = Request action u64 u64 | Digit u8 u64 | Cancel | Stir u64

datatype confirm_result = Shown "u8 list" | Refused refused | Typed outcome | Done

definition confirm_step :: "confirm_op \<Rightarrow> confirm \<Rightarrow> (confirm \<times> confirm_result) option" where
  "confirm_step op c =
     (case op of
        Request a now e \<Rightarrow>
          (let (c', r) = request a now e c
           in Some (c', case r of Inl x \<Rightarrow> Refused x | Inr cd \<Rightarrow> Shown cd))
      | Digit d now \<Rightarrow> map_option (\<lambda>(c', x). (c', Typed x)) (digit d now c)
      | Cancel \<Rightarrow> Some (cancel c, Done)
      | Stir e \<Rightarrow> Some (stir e c, Done))"

type_synonym confirm_run = "(confirm_op \<times> confirm_result) list"

inductive confirm_reach :: "confirm_run \<Rightarrow> confirm \<Rightarrow> bool" where
  reach_new: "confirm_reach [] confirm_new"
| reach_step: "confirm_reach tr c \<Longrightarrow> confirm_step op c = Some (c', r) \<Longrightarrow> confirm_reach (tr @ [(op, r)]) c'"

inductive_cases confirm_reach_snocE: "confirm_reach (tr @ [x]) c"

fun run_ops :: "confirm_op list \<Rightarrow> confirm \<Rightarrow> (confirm \<times> confirm_run) option" where
  "run_ops [] c = Some (c, [])"
| "run_ops (op # ops) c =
     (case confirm_step op c of
        None \<Rightarrow> None
      | Some (c', r) \<Rightarrow> map_option (\<lambda>(c'', tr). (c'', (op, r) # tr)) (run_ops ops c'))"

lemma run_ops_reach:
  "run_ops ops c = Some (c', tr') \<Longrightarrow> confirm_reach tr c \<Longrightarrow> confirm_reach (tr @ tr') c'"
proof (induction ops arbitrary: c tr tr')
  case (Cons op ops)
  then obtain c1 r tr1 where "confirm_step op c = Some (c1, r)" "run_ops ops c1 = Some (c', tr1)"
    "tr' = (op, r) # tr1"
    by (auto split: option.splits)
  with Cons.IH [of c1 tr1 "tr @ [(op, r)]"] reach_step [OF Cons.prems(2)] show ?case by simp
qed simp

lemma run_ops_from_new:
  "map_option snd (run_ops ops confirm_new) = Some tr \<Longrightarrow> \<exists>c. confirm_reach tr c"
  using run_ops_reach [of ops confirm_new _ tr "[]"] reach_new by fastforce

lemma example_request:
  "request Restart 1000000000 1234 confirm_new =
     (\<lparr> pool = 1563188889836806723, pending = Some \<lparr> action_of = Restart, code = [5, 7], typed = 0,
       since_ns = 1000000000 \<rparr>, misses = 0, locked_until_ns = 0 \<rparr>, Inr [5, 7])"
  by code_simp

lemma example_request_again:
  "request Restart 8000000000 99
     \<lparr> pool = 1563188889836806723, pending = None, misses = 1, locked_until_ns = 7000000000 \<rparr> =
     (\<lparr> pool = 3795068109358455377, pending = Some \<lparr> action_of = Restart, code = [8, 4], typed = 0,
       since_ns = 8000000000 \<rparr>, misses = 1, locked_until_ns = 7000000000 \<rparr>, Inr [8, 4])"
  by code_simp

lemmas example_simps = confirm_step_def example_request example_request_again digit_def live_def
  saturating_sub_def saturating_add_def saturating_mul_def lockout_for_def CODE_DIGITS_def
  CONFIRM_WINDOW_NS_def LOCKOUT_BASE_NS_def LOCKOUT_MAX_NS_def Let_def

section \<open>Single operations\<close>

lemma draw_digits_facts:
  "length (fst (draw_digits n r)) = n \<and> (\<forall>d\<in>set (fst (draw_digits n r)). d < 10)"
proof (induction n arbitrary: r)
  case (Suc n)
  have "r mod 10 < 10" by (rule word_mod_less_divisor) simp
  then have "ucast (r mod 10) < (10 :: u8)"
    by (simp add: word_less_nat_alt unat_mod unsigned_ucast_eq take_bit_nat_eq_self_iff take_bit_nat_def)
  with Suc [of "r div 10"] show ?case by (auto simp: Let_def split: prod.splits)
qed simp

lemma request_cases:
  obtains (refused) "locked_until_ns c > now"
      "request a now e c = (c\<lparr> pending := None \<rparr>, Inl (LockedOut (locked_until_ns c - now)))"
    | (granted) cd P where "locked_until_ns c \<le> now" "length cd = CODE_DIGITS" "\<forall>d\<in>set cd. d < 10"
      "request a now e c =
        (c\<lparr> pool := P, pending := Some \<lparr> action_of = a, code = cd, typed = 0, since_ns = now \<rparr> \<rparr>, Inr cd)"
proof (cases "locked_until_ns c > now")
  case True
  then have "saturating_sub (locked_until_ns c) now = locked_until_ns c - now"
    "locked_until_ns c - now > 0"
    by (auto simp: saturating_sub_def word_gt_0)
  then show thesis using refused True by (simp add: request_def lockout_remaining_ns_def)
next
  case False
  obtain cd r where cd: "draw_digits CODE_DIGITS (mix (pool (stir (e XOR rotate_left 32 now) c))) = (cd, r)"
    by fastforce
  with draw_digits_facts [of CODE_DIGITS "mix (pool (stir (e XOR rotate_left 32 now) c))"]
  have facts: "length cd = CODE_DIGITS" "\<forall>d\<in>set cd. d < 10" by simp_all
  from False have "saturating_sub (locked_until_ns c) now = 0"
    by (auto simp: saturating_sub_def)
  then show thesis
    using granted [OF _ facts] False cd by (simp add: request_def lockout_remaining_ns_def stir_def)
qed

lemma digit_cases:
  assumes "digit d now c = Some (c', x)"
  obtains (idle) "live c now = None" "x = Idle" "c' = c\<lparr> pending := None \<rparr>"
    | (rejected) p where "live c now = Some p" "x = Rejected" "typed p < length (code p)"
        "code p ! typed p \<noteq> d"
        "c' = c\<lparr> pending := None, misses := saturating_add (misses c) 1,
                 locked_until_ns := saturating_add now (lockout_for (misses c)) \<rparr>"
    | (confirmed) p where "live c now = Some p" "x = Confirmed (action_of p)"
        "typed p < length (code p)" "code p ! typed p = d" "Suc (typed p) = CODE_DIGITS"
        "c' = c\<lparr> pending := None, misses := 0 \<rparr>"
    | (more) p where "live c now = Some p" "x = Pending" "typed p < length (code p)"
        "code p ! typed p = d" "Suc (typed p) \<noteq> CODE_DIGITS"
        "c' = c\<lparr> pending := Some (p\<lparr> typed := Suc (typed p) \<rparr>) \<rparr>"
  using assms
  by (auto simp: digit_def Let_def not_le split: option.splits if_splits)

lemma live_Some: "live c now = Some p \<longleftrightarrow>
  pending c = Some p \<and> saturating_sub now (since_ns p) < CONFIRM_WINDOW_NS"
  by (auto simp: live_def split: option.splits if_splits)

lemma confirm_step_cases:
  assumes "confirm_step op c = Some (c', r)"
  obtains (refused) a now e where "op = Request a now e" "r = Refused (LockedOut (locked_until_ns c - now))"
      "locked_until_ns c > now" "c' = c\<lparr> pending := None \<rparr>"
    | (granted) a now e cd P where "op = Request a now e" "r = Shown cd" "locked_until_ns c \<le> now"
      "length cd = CODE_DIGITS" "\<forall>d\<in>set cd. d < 10"
      "c' = c\<lparr> pool := P, pending := Some \<lparr> action_of = a, code = cd, typed = 0, since_ns = now \<rparr> \<rparr>"
    | (digit) d now x where "op = Digit d now" "r = Typed x" "digit d now c = Some (c', x)"
    | (cancel) "op = Cancel" "r = Done" "c' = c\<lparr> pending := None \<rparr>"
    | (stir) e P where "op = Stir e" "r = Done" "c' = c\<lparr> pool := P \<rparr>"
proof (cases op)
  case (Request a now e)
  then show thesis
    using assms refused granted
    by (cases rule: request_cases [of now c a e]) (auto simp: confirm_step_def)
next
  case (Digit d now)
  then show thesis using assms digit by (auto simp: confirm_step_def)
next
  case Cancel
  then show thesis using assms cancel by (simp add: confirm_step_def cancel_def)
next
  case (Stir e)
  then show thesis using assms stir by (auto simp: confirm_step_def stir_def)
qed

section \<open>What can confirm an action\<close>

fun typed_digits :: "confirm_run \<Rightarrow> u8 list" where
  "typed_digits [] = []"
| "typed_digits ((Digit d now, r) # tr) = d # typed_digits tr"
| "typed_digits (x # tr) = typed_digits tr"

text \<open>Nothing between a code being shown at \<open>t\<close> and its last digit but digits in time and stirring.\<close>

definition answering :: "u64 \<Rightarrow> confirm_op \<times> confirm_result \<Rightarrow> bool" where
  "answering t x =
     (case fst x of
        Digit d now \<Rightarrow> saturating_sub now t < CONFIRM_WINDOW_NS
      | Stir e \<Rightarrow> True
      | _ \<Rightarrow> False)"

definition pending_from :: "confirm_run \<Rightarrow> pending_request \<Rightarrow> bool" where
  "pending_from tr p \<longleftrightarrow> (\<exists>pre e mid. tr = pre @ (Request (action_of p) (since_ns p) e, Shown (code p)) # mid
     \<and> (\<forall>x\<in>set mid. answering (since_ns p) x) \<and> typed_digits mid = take (typed p) (code p))"

definition pending_ok :: "pending_request \<Rightarrow> bool" where
  "pending_ok p \<longleftrightarrow> length (code p) = CODE_DIGITS \<and> (\<forall>d\<in>set (code p). d < 10) \<and> typed p < CODE_DIGITS"

lemma typed_digits_append: "typed_digits (xs @ ys) = typed_digits xs @ typed_digits ys"
  by (induction xs rule: typed_digits.induct) simp_all

lemma pending_from_extend:
  assumes "pending_from tr p" "answering (since_ns p) x"
    and "typed_digits [x] = ds" "take (typed p) (code p) @ ds = take n (code p)"
  shows "pending_from (tr @ [x]) (p\<lparr> typed := n \<rparr>)"
proof -
  from assms(1) obtain pre e mid
    where tr: "tr = pre @ (Request (action_of p) (since_ns p) e, Shown (code p)) # mid"
      and mid: "\<forall>x\<in>set mid. answering (since_ns p) x" "typed_digits mid = take (typed p) (code p)"
    unfolding pending_from_def by blast
  then have "tr @ [x] = pre @ (Request (action_of p) (since_ns p) e, Shown (code p)) # (mid @ [x])"
    "typed_digits (mid @ [x]) = take n (code p)"
    using assms(3,4) by (simp_all add: typed_digits_append)
  moreover have "\<forall>y\<in>set (mid @ [x]). answering (since_ns p) y" using mid(1) assms(2) by simp
  ultimately show ?thesis
    unfolding pending_from_def
    by (intro exI [of _ pre] exI [of _ e] exI [of _ "mid @ [x]"]) simp
qed

lemma confirm_reach_pending:
  assumes "confirm_reach tr c" "pending c = Some p"
  shows "pending_from tr p \<and> pending_ok p"
  using assms
proof (induction arbitrary: p rule: confirm_reach.induct)
  case reach_new
  then show ?case by (simp add: confirm_new_def)
next
  case (reach_step tr c op c' r)
  from reach_step.hyps(2) show ?case
  proof (cases rule: confirm_step_cases)
    case (granted a now e cd P)
    then have "pending_from (tr @ [(op, r)]) p"
      using reach_step.prems unfolding pending_from_def
      by (intro exI [of _ tr] exI [of _ e] exI [of _ "[]"]) auto
    with granted reach_step.prems show ?thesis by (auto simp: pending_ok_def CODE_DIGITS_def)
  next
    case (digit d now x)
    from digit(3) show ?thesis
    proof (cases rule: digit_cases)
      case (more q)
      then have q: "pending_from tr q" "pending_ok q" and t: "saturating_sub now (since_ns q) < CONFIRM_WINDOW_NS"
        using reach_step.IH [of q] by (auto simp: live_Some)
      have "pending_from (tr @ [(op, r)]) (q\<lparr> typed := Suc (typed q) \<rparr>)"
        by (rule pending_from_extend [OF q(1)])
          (use digit t more in \<open>auto simp: answering_def take_Suc_conv_app_nth\<close>)
      with more q reach_step.prems show ?thesis by (auto simp: pending_ok_def)
    qed (use reach_step.prems in auto)
  next
    case (stir e P)
    with reach_step have p: "pending_from tr p" "pending_ok p" by auto
    have "pending_from (tr @ [(op, r)]) (p\<lparr> typed := typed p \<rparr>)"
      by (rule pending_from_extend [OF p(1)]) (use stir in \<open>auto simp: answering_def\<close>)
    with p show ?thesis by simp
  qed (use reach_step.prems in auto)
qed

text \<open>
  C8: An action is confirmed only by its own code: when, in any run, a digit at \<open>now\<close> returns
  \<open>Confirmed a\<close>, an earlier request for that very action was granted and showed a code, since then
  nothing but in-time digits and stirring happened, the digits typed since then are exactly the
  code shown, and the last one came within the window of the request.
\<close>

theorem confirmed_only_by_code:
  assumes "confirm_reach (tr @ [(Digit d now, Typed (Confirmed a))]) c"
  shows "\<exists>pre t e cd mid. tr = pre @ (Request a t e, Shown cd) # mid
    \<and> (\<forall>x\<in>set mid. answering t x) \<and> typed_digits mid @ [d] = cd
    \<and> saturating_sub now t < CONFIRM_WINDOW_NS"
proof -
  from assms obtain c0 where c0: "confirm_reach tr c0"
    "confirm_step (Digit d now) c0 = Some (c, Typed (Confirmed a))"
    by (rule confirm_reach_snocE) auto
  then have "digit d now c0 = Some (c, Confirmed a)" by (auto simp: confirm_step_def)
  then obtain p where p: "live c0 now = Some p" "a = action_of p" "typed p < length (code p)"
    "code p ! typed p = d" "Suc (typed p) = CODE_DIGITS"
    by (cases rule: digit_cases) auto
  with confirm_reach_pending [OF c0(1)] have "pending_from tr p" "pending_ok p"
    by (auto simp: live_Some)
  moreover from this p have "take (typed p) (code p) @ [d] = code p"
    by (metis order_refl pending_ok_def take_Suc_conv_app_nth take_all)
  ultimately show ?thesis
    using p unfolding pending_from_def live_Some by metis
qed

theorem confirmed_only_by_code_witness:
  "\<exists>pre t e cd mid.
      [(Request Restart 1000000000 1234, Shown [5, 7]), (Digit 5 2000000000, Typed Pending)]
        = pre @ (Request Restart t e, Shown cd) # mid
    \<and> (\<forall>x\<in>set mid. answering t x) \<and> typed_digits mid @ [7] = cd
    \<and> saturating_sub 3000000000 t < CONFIRM_WINDOW_NS"
proof -
  have "map_option snd (run_ops [Request Restart 1000000000 1234, Digit 5 2000000000, Digit 7 3000000000]
      confirm_new)
    = Some ([(Request Restart 1000000000 1234, Shown [5, 7]), (Digit 5 2000000000, Typed Pending)]
        @ [(Digit 7 3000000000, Typed (Confirmed Restart))])"
    by (simp add: example_simps)
  from run_ops_from_new [OF this] show ?thesis
    by (elim exE) (rule confirmed_only_by_code)
qed

text \<open>The digits typed after a grant.\<close>

fun type_digits :: "(u8 \<times> u64) list \<Rightarrow> confirm \<Rightarrow> (confirm \<times> outcome list) option" where
  "type_digits [] c = Some (c, [])"
| "type_digits ((d, now) # ds) c =
     (case digit d now c of
        None \<Rightarrow> None
      | Some (c', x) \<Rightarrow> map_option (\<lambda>(c'', xs). (c'', x # xs)) (type_digits ds c'))"

text \<open>
  C10: The prompt works and never panics: in every reachable state each operation returns (the index
  \<open>p.code[p.typed]\<close> is in range); and after a granted request at \<open>t\<close> two digits typed within the
  window end in \<open>Confirmed\<close> of the requested action exactly when they are the code shown.
\<close>

theorem code_confirms:
  assumes reach: "confirm_reach tr c"
  shows "confirm_step op c \<noteq> None
    \<and> (\<forall>a t e c' cd d1 d2 t1 t2. request a t e c = (c', Inr cd)
         \<and> saturating_sub t1 t < CONFIRM_WINDOW_NS \<and> saturating_sub t2 t < CONFIRM_WINDOW_NS
       \<longrightarrow> (\<exists>c'' x1 x2. type_digits [(d1, t1), (d2, t2)] c' = Some (c'', [x1, x2])
              \<and> (x2 = Confirmed a \<longleftrightarrow> [d1, d2] = cd)
              \<and> ([d1, d2] = cd \<longrightarrow> misses c'' = 0 \<and> pending c'' = None)))"
proof -
  have no_panic: "confirm_step op c \<noteq> None"
  proof (cases op)
    case (Request a now e)
    then show ?thesis by (simp add: confirm_step_def split: prod.splits)
  next
    case (Digit d now)
    have "length (code p) > typed p" if "live c now = Some p" for p
      using confirm_reach_pending [OF reach, of p] that by (auto simp: live_Some pending_ok_def)
    with Digit show ?thesis
      by (auto simp: confirm_step_def digit_def Let_def split: option.splits)
  qed (simp_all add: confirm_step_def)
  have conf: "\<exists>c'' x1 x2. type_digits [(d1, t1), (d2, t2)] c' = Some (c'', [x1, x2])
      \<and> (x2 = Confirmed a \<longleftrightarrow> [d1, d2] = cd)
      \<and> ([d1, d2] = cd \<longrightarrow> misses c'' = 0 \<and> pending c'' = None)"
    if req: "request a t e c = (c', Inr cd)" and t: "saturating_sub t1 t < CONFIRM_WINDOW_NS"
      "saturating_sub t2 t < CONFIRM_WINDOW_NS" for a t e c' cd d1 d2 t1 t2
  proof (cases rule: request_cases [of t c a e])
    case (granted cd' P)
    then obtain x y where cd: "cd = [x, y]"
      using req by (auto simp: CODE_DIGITS_def length_Suc_conv numeral_2_eq_2)
    with granted req t show ?thesis
      by (auto simp: digit_def live_def CODE_DIGITS_def Let_def)
  qed (use req in simp)
  show ?thesis using no_panic by (intro conjI allI impI, simp) (elim conjE, rule conf)
qed

theorem code_confirms_witness:
  "\<exists>c'' x1 x2. type_digits [(5, 2000000000), (7, 3000000000)] (fst (request Restart 1000000000 1234 confirm_new))
      = Some (c'', [x1, x2]) \<and> x2 = Confirmed Restart \<and> misses c'' = 0 \<and> pending c'' = None"
proof -
  have req: "request Restart 1000000000 1234 confirm_new
      = (fst (request Restart 1000000000 1234 confirm_new), Inr [5, 7])"
    by (simp add: example_request)
  have window: "saturating_sub 2000000000 1000000000 < CONFIRM_WINDOW_NS"
    "saturating_sub 3000000000 1000000000 < CONFIRM_WINDOW_NS"
    by (simp_all add: saturating_sub_def CONFIRM_WINDOW_NS_def)
  from code_confirms [OF reach_new, of Cancel] req window show ?thesis by blast
qed

section \<open>What guessing costs\<close>

fun op_times :: "confirm_run \<Rightarrow> u64 list" where
  "op_times [] = []"
| "op_times ((Request a now e, r) # tr) = now # op_times tr"
| "op_times ((Digit d now, r) # tr) = now # op_times tr"
| "op_times (x # tr) = op_times tr"

definition rejections :: "confirm_run \<Rightarrow> nat" where
  "rejections tr = length (filter (\<lambda>x. snd x = Typed Rejected) tr)"

definition never_confirmed :: "confirm_run \<Rightarrow> bool" where
  "never_confirmed tr \<longleftrightarrow> (\<forall>x\<in>set tr. \<forall>a. snd x \<noteq> Typed (Confirmed a))"

definition lockout_nat :: "nat \<Rightarrow> nat" where
  "lockout_nat k = min (5000000000 * 2 ^ min k 16) 600000000000"

definition lockout_total :: "nat \<Rightarrow> nat" where
  "lockout_total n = sum_list (map lockout_nat [0..<n])"

lemma op_times_append: "op_times (xs @ ys) = op_times xs @ op_times ys"
  by (induction xs rule: op_times.induct) simp_all

lemma unat_min: "unat (min a b) = min (unat a) (unat (b :: 'a::len word))"
  by (simp add: min_def word_le_nat_alt)

lemma lockout_for_nat: "unat (lockout_for m) = lockout_nat (unat m)"
proof -
  have m: "unat (min m 16) = min (unat m) 16"
    by (simp add: unat_min)
  have "unat (push_bit (min (unat m) 16) 1 :: u64) = 2 ^ min (unat m) 16"
  proof -
    have "(2 :: nat) ^ min (unat m) 16 \<le> 2 ^ 16" by (intro power_increasing) simp_all
    then show ?thesis
      by (subst unsigned_push_bit_eq) (simp add: push_bit_eq_mult take_bit_nat_eq_self)
  qed
  moreover have "5000000000 * 2 ^ min (unat m) 16 \<le> (5000000000 * 2 ^ 16 :: nat)"
    by (intro mult_left_mono power_increasing) simp_all
  ultimately have "unat (saturating_mul LOCKOUT_BASE_NS (push_bit (min (unat m) 16) 1 :: u64))
      = 5000000000 * 2 ^ min (unat m) 16"
    by (simp add: sat_arith LOCKOUT_BASE_NS_def)
  moreover have "unat LOCKOUT_MAX_NS = 600000000000" by (simp add: LOCKOUT_MAX_NS_def)
  ultimately show ?thesis
    unfolding lockout_for_def Let_def m unat_min [of "saturating_mul _ _"] lockout_nat_def by simp
qed

lemma lockout_nat_min: "lockout_nat (min k (2 ^ 32 - 1)) = lockout_nat k"
proof (cases "k \<le> 2 ^ 32 - 1")
  case True
  then show ?thesis by (simp add: min_absorb1)
next
  case False
  then have "min k 16 = 16" "min (min k (2 ^ 32 - 1)) 16 = 16" by simp_all
  then show ?thesis by (simp only: lockout_nat_def)
qed

lemma lockout_total_Suc: "lockout_total (Suc n) = lockout_total n + lockout_nat n"
  by (simp add: lockout_total_def)

lemma lockout_total_capped:
  "7 \<le> n \<Longrightarrow> lockout_total n = 635000000000 + (n - 7) * 600000000000"
proof (induction n rule: nat_induct_at_least)
  case base
  show ?case by (simp add: lockout_total_def lockout_nat_def upt_rec)
next
  case (Suc n)
  then have "(2 :: nat) ^ 7 \<le> 2 ^ min n 16" by (intro power_increasing) simp_all
  then have "lockout_nat n = 600000000000" by (simp add: lockout_nat_def)
  with Suc show ?case by (simp add: lockout_total_Suc)
qed

text \<open>
  The state of a run on a monotonic clock that never confirmed: \<open>n\<close> misses so far, the lock at least
  the total of their lockouts after the first reading \<open>t0\<close>, a pending request not before the lock.
\<close>

definition guessing_inv :: "nat \<Rightarrow> confirm_run \<Rightarrow> confirm \<Rightarrow> bool" where
  "guessing_inv t0 tr c \<longleftrightarrow>
     unat (misses c) = min (rejections tr) (2 ^ 32 - 1)
   \<and> (0 < rejections tr \<longrightarrow> min (t0 + lockout_total (rejections tr)) (2 ^ 64 - 1) \<le> unat (locked_until_ns c))
   \<and> (\<forall>p. pending c = Some p \<longrightarrow> locked_until_ns c \<le> since_ns p \<and> since_ns p \<in> set (op_times tr))"

lemma rejections_snoc:
  "rejections (tr @ [x]) = (if snd x = Typed Rejected then Suc (rejections tr) else rejections tr)"
  by (simp add: rejections_def)

lemma never_confirmed_snoc:
  "never_confirmed (tr @ [x]) \<longleftrightarrow> never_confirmed tr \<and> (\<forall>a. snd x \<noteq> Typed (Confirmed a))"
  by (auto simp: never_confirmed_def)

lemma rejection_adds_lockout:
  assumes inv: "guessing_inv t0 tr c" and p: "pending c = Some p"
    and now: "since_ns p \<le> now" and t0: "t0 \<le> unat now"
  shows "min (t0 + lockout_total (rejections tr)) (2 ^ 64 - 1) \<le> unat now
    \<and> min (t0 + lockout_total (Suc (rejections tr))) (2 ^ 64 - 1)
        \<le> unat (saturating_add now (lockout_for (misses c)))
    \<and> unat (saturating_add (misses c) 1) = min (Suc (rejections tr)) (2 ^ 32 - 1)"
proof -
  have m: "unat (misses c) = min (rejections tr) (2 ^ 32 - 1)"
    and l: "0 < rejections tr \<longrightarrow> min (t0 + lockout_total (rejections tr)) (2 ^ 64 - 1) \<le> unat (locked_until_ns c)"
    and "locked_until_ns c \<le> since_ns p"
    using inv p unfolding guessing_inv_def by auto
  with now have "unat (locked_until_ns c) \<le> unat now"
    unfolding word_le_nat_alt by linarith
  with l t0 have low: "min (t0 + lockout_total (rejections tr)) (2 ^ 64 - 1) \<le> unat now"
    by (cases "rejections tr = 0") (simp_all add: lockout_total_def)
  have lock: "unat (lockout_for (misses c)) = lockout_nat (rejections tr)"
    by (simp only: lockout_for_nat m lockout_nat_min)
  have "min (t0 + lockout_total (Suc (rejections tr))) (2 ^ 64 - 1)
      \<le> min (unat now + unat (lockout_for (misses c))) (2 ^ 64 - 1)"
    using low unfolding lock lockout_total_Suc by linarith
  moreover have "unat (saturating_add (misses c) 1) = min (Suc (rejections tr)) (2 ^ 32 - 1)"
    by (simp add: unat_saturating_add m)
  ultimately show ?thesis
    using low by (simp add: unat_saturating_add)
qed

lemma guessing_step:
  assumes inv: "guessing_inv t0 tr c" and step: "confirm_step op c = Some (c', r)"
    and nc: "never_confirmed [(op, r)]"
    and mono: "\<forall>t\<in>set (op_times [(op, r)]). t0 \<le> unat t \<and> (\<forall>u\<in>set (op_times tr). u \<le> t)"
  shows "guessing_inv t0 (tr @ [(op, r)]) c'"
  using step
proof (cases rule: confirm_step_cases)
  case (digit d now x)
  from digit(3) show ?thesis
  proof (cases rule: digit_cases)
    case (rejected p)
    have "since_ns p \<le> now" "t0 \<le> unat now" and p: "pending c = Some p"
      using rejected mono inv digit by (auto simp: live_Some guessing_inv_def)
    from rejection_adds_lockout [OF inv p this(1,2)] rejected digit show ?thesis
      by (simp add: guessing_inv_def rejections_snoc)
  qed (use inv nc digit in \<open>auto simp: guessing_inv_def rejections_snoc never_confirmed_def live_Some op_times_append\<close>)
qed (use inv in \<open>auto simp: guessing_inv_def rejections_snoc op_times_append\<close>)

lemma confirm_reach_guessing:
  assumes "confirm_reach tr c" "sorted (op_times tr)" "never_confirmed tr"
    and "\<forall>t\<in>set (op_times tr). t0 \<le> unat t"
  shows "guessing_inv t0 tr c"
  using assms
proof (induction rule: confirm_reach.induct)
  case reach_new
  show ?case by (simp add: guessing_inv_def confirm_new_def rejections_def)
next
  case (reach_step tr c op c' r)
  then show ?case
    by (intro guessing_step) (auto simp: op_times_append sorted_append never_confirmed_snoc never_confirmed_def)
qed

text \<open>
  C9: Guessing blind is slow: in any run on a monotonic clock in which nothing was confirmed, a
  rejected digit that is the \<open>n + 1\<close>-st miss comes no earlier than the sum of the first \<open>n\<close> doubling
  lockouts after the first operation of the run (or at the end of the 64-bit clock).  Working
  through 100 codes thus takes at least 55835 seconds, more than fifteen hours.
\<close>

theorem blind_guessing_cost:
  assumes "confirm_reach (tr @ [(Digit d now, Typed Rejected)]) c"
    and "sorted (op_times (tr @ [(Digit d now, Typed Rejected)]))" "never_confirmed tr"
  shows "min (unat (hd (op_times (tr @ [(Digit d now, Typed Rejected)]))) + lockout_total (rejections tr))
      (2 ^ 64 - 1) \<le> unat now
    \<and> lockout_total 99 = 55835000000000"
proof -
  let ?ts = "op_times (tr @ [(Digit d now, Typed Rejected)])"
  let ?t0 = "unat (hd ?ts)"
  from assms(1) obtain c0 where c0: "confirm_reach tr c0"
    "confirm_step (Digit d now) c0 = Some (c, Typed Rejected)"
    by (rule confirm_reach_snocE) auto
  have "\<forall>t\<in>set ?ts. ?t0 \<le> unat t"
    using assms(2) by (cases ?ts) (auto simp: word_le_nat_alt)
  then have lo: "\<forall>t\<in>set (op_times tr). ?t0 \<le> unat t" "?t0 \<le> unat now"
    and last: "\<forall>t\<in>set (op_times tr). t \<le> now" "sorted (op_times tr)"
    using assms(2) by (auto simp: op_times_append sorted_append)
  have inv: "guessing_inv ?t0 tr c0"
    by (rule confirm_reach_guessing [OF c0(1) last(2) assms(3) lo(1)])
  from c0(2) have "digit d now c0 = Some (c, Rejected)" by (auto simp: confirm_step_def)
  then obtain p where p: "pending c0 = Some p"
    by (cases rule: digit_cases) (auto simp: live_Some)
  with inv last have "since_ns p \<le> now" by (auto simp: guessing_inv_def)
  from rejection_adds_lockout [OF inv p this lo(2)] show ?thesis
    by (simp add: lockout_total_capped)
qed

theorem blind_guessing_cost_witness:
  "min (unat (hd (op_times [(Request Restart 1000000000 1234, Shown [5, 7]),
      (Digit 11 2000000000, Typed Rejected), (Request Restart 8000000000 99, Shown [8, 4]),
      (Digit 11 9000000000, Typed Rejected)])) + lockout_total 1) (2 ^ 64 - 1) \<le> unat (9000000000 :: u64)"
proof -
  let ?tr = "[(Request Restart 1000000000 1234, Shown [5, 7]), (Digit 11 2000000000, Typed Rejected),
    (Request Restart 8000000000 99, Shown [8, 4])]"
  have "map_option snd (run_ops [Request Restart 1000000000 1234, Digit 11 2000000000,
      Request Restart 8000000000 99, Digit 11 9000000000] confirm_new)
    = Some (?tr @ [(Digit 11 9000000000, Typed Rejected)])"
    by (simp add: example_simps)
  then obtain c where run: "confirm_reach (?tr @ [(Digit 11 9000000000, Typed Rejected)]) c"
    using run_ops_from_new by blast
  have "sorted (op_times (?tr @ [(Digit 11 9000000000, Typed Rejected)]))" "never_confirmed ?tr"
    "rejections ?tr = 1"
    by (simp_all add: never_confirmed_def rejections_def)
  with blind_guessing_cost [OF run] show ?thesis by simp
qed

section \<open>Stirring loses nothing\<close>

lemma xorshift_inject:
  fixes x y :: "'a::len word"
  assumes "0 < k" "x XOR drop_bit k x = y XOR drop_bit k y"
  shows "x = y"
proof (rule bit_word_eqI)
  fix n
  have step: "bit x n = bit y n" if "bit x (n + k) = bit y (n + k)" for n
    using arg_cong [OF assms(2), of "\<lambda>w. bit w n"] that
    by (auto simp: bit_xor_iff bit_drop_bit_eq add.commute)
  have "bit x n = bit y n" if "LENGTH('a) - n \<le> m" for m n
    using that
  proof (induction m arbitrary: n)
    case 0
    then show ?case using bit_imp_le_length [of x n] bit_imp_le_length [of y n] by auto
  next
    case (Suc m)
    then show ?case using step [of n] assms(1) by simp
  qed
  then show "bit x n = bit y n" by blast
qed

lemma mult_unit_inject:
  fixes x y a b :: "'a::len word"
  assumes "x * a = y * a" "a * b = 1"
  shows "x = y"
  by (metis assms mult.assoc mult.right_neutral)

lemma mix_inject: "mix x = mix y \<Longrightarrow> x = y"
  unfolding mix_def Let_def
  by (rule xorshift_inject [of 30], simp, rule mult_unit_inject [where a = "0xBF58476D1CE4E5B9" and b = "10871156337175269513"],
      rule xorshift_inject [of 27], simp, rule mult_unit_inject [where a = "0x94D049BB133111EB" and b = "3573116690164977347"],
      rule xorshift_inject [of 31]) simp_all

lemma mix_eq_iff: "mix x = mix y \<longleftrightarrow> x = y"
  using mix_inject by blast

text \<open>
   No entropy source can cancel another: for a fixed input \<open>stir\<close> keeps distinct pools distinct, so
  a broken or hostile source erases nothing that was stirred in before; and for a fixed pool
  distinct inputs give distinct pools.
\<close>

theorem stir_keeps_entropy:
  "(pool (stir e c) = pool (stir e c') \<longleftrightarrow> pool c = pool c')
   \<and> (pool (stir e c) = pool (stir e' c) \<longleftrightarrow> e = e')"
proof -
  have "(a XOR b) XOR b = a" for a b :: u64 by (simp add: xor.assoc)
  then have "a XOR b = c XOR b \<longleftrightarrow> a = c" "b XOR a = b XOR c \<longleftrightarrow> a = c" for a b c :: u64
    by (metis xor.commute)+
  then show ?thesis
    unfolding stir_def by (simp add: mix_eq_iff)
qed

end
