(* ===== verification/Version.thy ===== *)
theory Version
  imports Strings "HOL-Library.Monad_Syntax" "HOL-Library.Product_Lexorder"
begin

text \<open>
  \<^verbatim>\<open>crates/nanochrono-core/src/ncpkg/version.rs\<close>: SemVer 2.0.0 versions and requirements.  Parsing is
  proved to be the exact inverse of printing, precedence a total order up to build metadata that
  compares numeric identifiers as numbers, every comparator a half-open interval of releases, and the
  pre-release rule is proved at the level of the requirement text.  \<open>u64\<close> components are \<open>nat\<close> with
  the overflow checks of the code.
\<close>

section \<open>Versions\<close>

definition MAX_LEN :: nat where "MAX_LEN = 128"

definition MAX_COMPARATORS :: nat where "MAX_COMPARATORS = 8"

record version =
  major :: nat
  minor :: nat
  patch :: nat
  pre :: string
  build :: string

fun number_loop :: "string \<Rightarrow> nat \<Rightarrow> nat option" where
  "number_loop [] v = Some v"
| "number_loop (b # bs) v = do {
     v \<leftarrow> checked_mul64 v 10;
     v \<leftarrow> checked_add64 v (digit_value b);
     number_loop bs v
   }"

definition number :: "string \<Rightarrow> nat option" where
  "number s =
     (if s = [] \<or> (length s > 1 \<and> hd s = CHR ''0'') \<or> \<not> list_all is_ascii_digit s then None
      else number_loop s 0)"

definition identifiers :: "string \<Rightarrow> bool \<Rightarrow> bool" where
  "identifiers s strict_numeric \<longleftrightarrow>
     s \<noteq> []
   \<and> list_all (\<lambda>i.
       i \<noteq> []
     \<and> list_all (\<lambda>b. is_ascii_alphanumeric b \<or> b = CHR ''-'') i
     \<and> \<not> (strict_numeric \<and> length i > 1 \<and> hd i = CHR ''0'' \<and> list_all is_ascii_digit i))
     (split_on (CHR ''.'') s)"

definition cmp_numeric :: "string \<Rightarrow> string \<Rightarrow> ordering" where
  "cmp_numeric a b = then_ordering (cmp (length a) (length b)) (str_cmp a b)"

fun cmp_pre_loop :: "string list \<Rightarrow> string list \<Rightarrow> ordering" where
  "cmp_pre_loop [] [] = Equal"
| "cmp_pre_loop [] (_ # _) = Less"
| "cmp_pre_loop (_ # _) [] = Greater"
| "cmp_pre_loop (p # x) (q # y) =
     (let pn = list_all is_ascii_digit p;
          qn = list_all is_ascii_digit q;
          ord = (case (pn, qn) of
                   (True, True) \<Rightarrow> cmp_numeric p q
                 | (True, False) \<Rightarrow> Less
                 | (False, True) \<Rightarrow> Greater
                 | (False, False) \<Rightarrow> str_cmp p q)
      in if ord \<noteq> Equal then ord else cmp_pre_loop x y)"

definition cmp_pre :: "string \<Rightarrow> string \<Rightarrow> ordering" where
  "cmp_pre a b =
     (case (a = [], b = []) of
        (True, True) \<Rightarrow> Equal
      | (True, False) \<Rightarrow> Greater
      | (False, True) \<Rightarrow> Less
      | (False, False) \<Rightarrow> cmp_pre_loop (split_on (CHR ''.'') a) (split_on (CHR ''.'') b))"

text \<open>The two uses of \<^verbatim>\<open>split_once\<close> with a check of the identifiers.\<close>

definition split_identifiers :: "char \<Rightarrow> bool \<Rightarrow> string \<Rightarrow> (string \<times> string) option" where
  "split_identifiers sep strict text =
     (case split_once sep text of
        Some (r, b) \<Rightarrow> if \<not> identifiers b strict then None else Some (r, b)
      | None \<Rightarrow> Some (text, []))"

definition version_parse :: "string \<Rightarrow> version option" where
  "version_parse text =
     (if text = [] \<or> length text > MAX_LEN then None
      else do {
        (rest, b) \<leftarrow> split_identifiers (CHR ''+'') False text;
        (core, p) \<leftarrow> split_identifiers (CHR ''-'') True rest;
        (case split_on (CHR ''.'') core of
           [x, y, z] \<Rightarrow> do {
             mj \<leftarrow> number x;
             mi \<leftarrow> number y;
             pa \<leftarrow> number z;
             Some \<lparr> major = mj, minor = mi, patch = pa, pre = p, build = b \<rparr>
           }
         | _ \<Rightarrow> None)
      })"

definition precedence :: "version \<Rightarrow> version \<Rightarrow> ordering" where
  "precedence v w =
     then_ordering (then_ordering (then_ordering (cmp (major v) (major w)) (cmp (minor v) (minor w)))
       (cmp (patch v) (patch w))) (cmp_pre (pre v) (pre w))"

definition is_prerelease :: "version \<Rightarrow> bool" where
  "is_prerelease v \<longleftrightarrow> pre v \<noteq> []"

definition version_display :: "version \<Rightarrow> string" where
  "version_display v =
     dec (major v) @ ''.'' @ dec (minor v) @ ''.'' @ dec (patch v)
     @ (if pre v \<noteq> [] then CHR ''-'' # pre v else [])
     @ (if build v \<noteq> [] then CHR ''+'' # build v else [])"

section \<open>Requirements\<close>

datatype req_op = Exact | GreaterOp | GreaterEq | LessOp | LessEq | Tilde | Caret | Wildcard | Any

record comparator =
  cop :: req_op
  cmajor :: nat
  cminor :: "nat option"
  cpatch :: "nat option"
  cpre :: string

definition wildcard_op :: "req_op \<Rightarrow> req_op option" where
  "wildcard_op op = (if op \<in> {Caret, Tilde, Exact, Wildcard} then Some Wildcard else None)"

definition strip_prefix :: "string \<Rightarrow> string \<Rightarrow> string option" where
  "strip_prefix p s = (if take (length p) s = p then Some (drop (length p) s) else None)"

definition parse_op :: "string \<Rightarrow> req_op \<times> string" where
  "parse_op text =
     (case strip_prefix ''>='' text of Some r \<Rightarrow> (GreaterEq, r) | None \<Rightarrow>
     (case strip_prefix ''<='' text of Some r \<Rightarrow> (LessEq, r) | None \<Rightarrow>
     (case strip_prefix ''>'' text of Some r \<Rightarrow> (GreaterOp, r) | None \<Rightarrow>
     (case strip_prefix ''<'' text of Some r \<Rightarrow> (LessOp, r) | None \<Rightarrow>
     (case strip_prefix ''='' text of Some r \<Rightarrow> (Exact, r) | None \<Rightarrow>
     (case strip_prefix ''~'' text of Some r \<Rightarrow> (Tilde, r) | None \<Rightarrow>
     (case strip_prefix ''^'' text of Some r \<Rightarrow> (Caret, r) | None \<Rightarrow> (Caret, text))))))))"

definition wild :: "string \<Rightarrow> bool" where
  "wild s \<longleftrightarrow> s \<in> {''*'', ''x'', ''X''}"

text \<open>One optional component: absent, a wildcard (which changes the operator), or a number.\<close>

definition parse_part :: "string option \<Rightarrow> req_op \<Rightarrow> (req_op \<times> nat option) option" where
  "parse_part part op =
     (case part of
        None \<Rightarrow> Some (op, None)
      | Some s \<Rightarrow>
          if wild s then do { op \<leftarrow> wildcard_op op; Some (op, None) }
          else do { n \<leftarrow> number s; Some (op, Some n) })"

definition nth_part :: "string list \<Rightarrow> nat \<Rightarrow> string option" where
  "nth_part parts i = (if i < length parts then Some (parts ! i) else None)"

definition comparator_parse :: "string \<Rightarrow> comparator option" where
  "comparator_parse text =
     (let text = trim text in
      if text = ''*''
      then Some \<lparr> cop = Any, cmajor = 0, cminor = None, cpatch = None, cpre = [] \<rparr>
      else
        let (op, rest) = parse_op text; rest = trim_start rest in
        if CHR ''+'' \<in> set rest \<or> rest = [] then None
        else do {
          (core, p) \<leftarrow> split_identifiers (CHR ''-'') True rest;
          let parts = split_on (CHR ''.'') core;
          mj \<leftarrow> Option.bind (nth_part parts 0) number;
          (op, mi) \<leftarrow> parse_part (nth_part parts 1) op;
          (op, pa) \<leftarrow> (if nth_part parts 2 \<noteq> None \<and> mi = None then None
                     else parse_part (nth_part parts 2) op);
          if nth_part parts 3 \<noteq> None then None
          else if p \<noteq> [] \<and> pa = None then None
          else Some \<lparr> cop = op, cmajor = mj, cminor = mi, cpatch = pa, cpre = p \<rparr>
        })"

definition comparator_full :: "comparator \<Rightarrow> version option" where
  "comparator_full c = do {
     mi \<leftarrow> cminor c;
     pa \<leftarrow> cpatch c;
     Some \<lparr> major = cmajor c, minor = mi, patch = pa, pre = cpre c, build = [] \<rparr>
   }"

definition comparator_matches :: "comparator \<Rightarrow> version \<Rightarrow> bool" where
  "comparator_matches c v =
     (let lower_ok = (\<lambda>full. precedence v full \<noteq> Less) in
      case cop c of
        Any \<Rightarrow> True
      | Wildcard \<Rightarrow>
          (case cminor c of
             None \<Rightarrow> major v = cmajor c
           | Some m \<Rightarrow> major v = cmajor c \<and> minor v = m)
      | Exact \<Rightarrow>
          (case (cminor c, comparator_full c) of
             (_, Some full) \<Rightarrow> precedence v full = Equal
           | (Some m, None) \<Rightarrow> major v = cmajor c \<and> minor v = m
           | (None, None) \<Rightarrow> major v = cmajor c)
      | GreaterOp \<Rightarrow>
          (case (cminor c, comparator_full c) of
             (_, Some full) \<Rightarrow> precedence v full = Greater
           | (Some m, None) \<Rightarrow> major v > cmajor c \<or> (major v = cmajor c \<and> minor v > m)
           | (None, None) \<Rightarrow> major v > cmajor c)
      | GreaterEq \<Rightarrow>
          (case (cminor c, comparator_full c) of
             (_, Some full) \<Rightarrow> lower_ok full
           | (Some m, None) \<Rightarrow> major v > cmajor c \<or> (major v = cmajor c \<and> minor v \<ge> m)
           | (None, None) \<Rightarrow> major v \<ge> cmajor c)
      | LessOp \<Rightarrow>
          (case (cminor c, comparator_full c) of
             (_, Some full) \<Rightarrow> precedence v full = Less
           | (Some m, None) \<Rightarrow> major v < cmajor c \<or> (major v = cmajor c \<and> minor v < m)
           | (None, None) \<Rightarrow> major v < cmajor c)
      | LessEq \<Rightarrow>
          (case (cminor c, comparator_full c) of
             (_, Some full) \<Rightarrow> precedence v full \<noteq> Greater
           | (Some m, None) \<Rightarrow> major v < cmajor c \<or> (major v = cmajor c \<and> minor v \<le> m)
           | (None, None) \<Rightarrow> major v \<le> cmajor c)
      | Tilde \<Rightarrow>
          (case (cminor c, comparator_full c) of
             (Some m, Some full) \<Rightarrow> lower_ok full \<and> major v = cmajor c \<and> minor v = m
           | (Some m, None) \<Rightarrow> major v = cmajor c \<and> minor v = m
           | (None, _) \<Rightarrow> major v = cmajor c)
      | Caret \<Rightarrow>
          (case (cminor c, cpatch c, comparator_full c) of
             (Some m, Some p, Some full) \<Rightarrow>
               lower_ok full
               \<and> (if cmajor c > 0 then major v = cmajor c
                  else if m > 0 then major v = 0 \<and> minor v = m
                  else major v = 0 \<and> minor v = 0 \<and> patch v = p)
           | (Some m, _, _) \<Rightarrow>
               if cmajor c > 0 then major v = cmajor c \<and> minor v \<ge> m
               else major v = 0 \<and> minor v = m
           | (None, _, _) \<Rightarrow> major v = cmajor c))"

text \<open>A requirement is the fixed array of comparators; \<^verbatim>\<open>get_mut(i)?\<close> gives up past its end.\<close>

type_synonym req = "comparator option list"

fun req_fill :: "nat \<Rightarrow> string list \<Rightarrow> req \<Rightarrow> req option" where
  "req_fill i [] arr = Some arr"
| "req_fill i (part # parts) arr =
     (if i < length arr
      then do { c \<leftarrow> comparator_parse part; req_fill (Suc i) parts (arr[i := Some c]) }
      else None)"

definition req_parse :: "string \<Rightarrow> req option" where
  "req_parse text =
     (if trim text = [] \<or> length text > MAX_LEN then None
      else req_fill 0 (split_on (CHR '','') text) (replicate MAX_COMPARATORS None))"

definition req_iter :: "req \<Rightarrow> comparator list" where
  "req_iter r = List.map_filter id r"

definition req_matches :: "req \<Rightarrow> version \<Rightarrow> bool" where
  "req_matches r v =
     (if \<not> list_all (\<lambda>c. comparator_matches c v) (req_iter r) then False
      else if is_prerelease v
      then list_ex (\<lambda>c. cpre c \<noteq> [] \<and> cmajor c = major v \<and> cminor c = Some (minor v)
             \<and> cpatch c = Some (patch v)) (req_iter r)
      else True)"

definition satisfies :: "string \<Rightarrow> string \<Rightarrow> bool option" where
  "satisfies ver requirement = do {
     r \<leftarrow> req_parse requirement;
     v \<leftarrow> version_parse ver;
     Some (req_matches r v)
   }"

section \<open>Parsing is the inverse of printing\<close>

lemma number_loop_Some:
  "v \<le> u64_max \<Longrightarrow> number_loop s v = Some w \<longleftrightarrow>
     w = fold (\<lambda>c v. 10 * v + digit_value c) s v \<and> w \<le> u64_max"
proof (induction s arbitrary: v)
  case (Cons b bs)
  let ?v = "10 * v + digit_value b"
  have mono: "u \<le> fold (\<lambda>c v. 10 * v + digit_value c) bs u" for u
    by (induction bs arbitrary: u) (simp, fastforce elim: order_trans [rotated])
  show ?case
  proof (cases "?v \<le> u64_max")
    case True
    with Cons.IH [of ?v] show ?thesis
      by (auto simp: checked_mul64_def checked_add64_def mult.commute)
  next
    case False
    with mono [of ?v] show ?thesis
      by (auto simp: checked_mul64_def checked_add64_def mult.commute)
  qed
qed auto

lemma number_Some: "number s = Some v \<longleftrightarrow> is_numeral s \<and> v = dec_value s \<and> v \<le> u64_max"
  unfolding number_def is_numeral_def list_all_iff
  using number_loop_Some [of 0 s v] by (auto simp: dec_value_def)

lemma number_dec_iff: "number s = Some v \<longleftrightarrow> s = dec v \<and> v \<le> u64_max"
  unfolding number_Some using dec_dec_value [of s] by auto

lemma number_dec [simp]: "v \<le> u64_max \<Longrightarrow> number (dec v) = Some v"
  by (simp add: number_dec_iff)

lemma identifiers_nonempty: "identifiers s b \<Longrightarrow> s \<noteq> []"
  by (simp add: identifiers_def)

lemma set_split_on: "set s \<subseteq> insert c (\<Union>p\<in>set (split_on c s). set p)"
proof (induction s)
  case (Cons x xs)
  show ?case
  proof (cases "x = c")
    case False
    obtain q qs where "split_on c xs = q # qs" by (cases "split_on c xs") auto
    with Cons False show ?thesis by auto
  qed (use Cons in auto)
qed simp

lemma identifiers_chars:
  "identifiers s b \<Longrightarrow> c \<in> set s \<Longrightarrow> is_ascii_alphanumeric c \<or> c = CHR ''-'' \<or> c = CHR ''.''"
  using set_split_on [of s "CHR ''.''"] by (auto simp: identifiers_def list_all_iff)

lemma identifiers_no_plus: "identifiers s b \<Longrightarrow> CHR ''+'' \<notin> set s"
  using identifiers_chars [of s b "CHR ''+''"]
  by (auto simp: is_ascii_alphanumeric_def is_ascii_digit_def is_ascii_lowercase_def is_ascii_uppercase_def)

lemma dec_no_char [simp]:
  "CHR ''+'' \<notin> set (dec n)" "CHR ''-'' \<notin> set (dec n)" "CHR ''.'' \<notin> set (dec n)" "CHR '','' \<notin> set (dec n)"
  using dec_digits [of n] by (auto simp: is_ascii_digit_def)

lemma split_identifiers_Some:
  "split_identifiers sep strict t = Some (r, b) \<longleftrightarrow>
     sep \<notin> set r \<and> (b = [] \<and> t = r \<or> identifiers b strict \<and> t = r @ sep # b)"
proof (cases "split_once sep t")
  case None
  moreover from None have "sep \<notin> set t" by (simp add: split_once_None)
  ultimately show ?thesis by (auto simp: split_identifiers_def)
next
  case (Some x)
  then obtain p q where x: "x = (p, q)" "t = p @ sep # q" "sep \<notin> set p"
    using split_once_Some [of sep t] by (cases x) auto
  have eq: "split_identifiers sep strict t = (if identifiers q strict then Some (p, q) else None)"
    using Some x(1) by (simp add: split_identifiers_def)
  have "p = r \<and> q = b" if "t = r @ sep # b" "sep \<notin> set r"
    using Some x(1) that split_once_append [of sep r b] by simp
  moreover have "sep \<in> set t" using x(2) by simp
  ultimately show ?thesis
    unfolding eq using x(2,3) by auto
qed

definition core_text :: "nat \<Rightarrow> nat \<Rightarrow> nat \<Rightarrow> string" where
  "core_text mj mi pa = dec mj @ ''.'' @ dec mi @ ''.'' @ dec pa"

lemma core_text_no_char [simp]:
  "CHR ''+'' \<notin> set (core_text a b c)" "CHR ''-'' \<notin> set (core_text a b c)"
  by (simp_all add: core_text_def)

lemma split_core_text:
  "(case split_on (CHR ''.'') core of
      [x, y, z] \<Rightarrow> do { mj \<leftarrow> number x; mi \<leftarrow> number y; pa \<leftarrow> number z; Some (f mj mi pa) }
    | _ \<Rightarrow> None) = Some w
   \<longleftrightarrow> (\<exists>mj mi pa. core = core_text mj mi pa \<and> mj \<le> u64_max \<and> mi \<le> u64_max \<and> pa \<le> u64_max
         \<and> w = f mj mi pa)" (is "?l \<longleftrightarrow> ?r")
proof
  assume ?l
  then obtain x y z mj mi pa where sp: "split_on (CHR ''.'') core = [x, y, z]"
    and n: "number x = Some mj" "number y = Some mi" "number z = Some pa" and w: "w = f mj mi pa"
    by (auto split: list.splits bind_splits)
  have "core = join_with (CHR ''.'') [x, y, z]"
    using join_split_on [of "CHR ''.''" core] by (simp only: sp)
  with n w show ?r by (auto simp: number_dec_iff core_text_def)
next
  assume ?r
  then show ?l
    by (auto simp: core_text_def split_on_append split_on_no_sep)
qed

definition wf_version :: "version \<Rightarrow> bool" where
  "wf_version v \<longleftrightarrow> major v \<le> u64_max \<and> minor v \<le> u64_max \<and> patch v \<le> u64_max
     \<and> (pre v = [] \<or> identifiers (pre v) True) \<and> (build v = [] \<or> identifiers (build v) False)"

lemma version_parse_iff:
  "version_parse t = Some v \<longleftrightarrow> wf_version v \<and> t = version_display v \<and> length t \<le> MAX_LEN"
  (is "?l \<longleftrightarrow> ?r")
proof
  assume ?l
  then have len: "length t \<le> MAX_LEN" by (auto simp: version_parse_def split: if_splits)
  from \<open>?l\<close> obtain rest b core p where
    s: "split_identifiers (CHR ''+'') False t = Some (rest, b)"
       "split_identifiers (CHR ''-'') True rest = Some (core, p)"
    and c: "(case split_on (CHR ''.'') core of
      [x, y, z] \<Rightarrow> do { mj \<leftarrow> number x; mi \<leftarrow> number y; pa \<leftarrow> number z;
        Some \<lparr> major = mj, minor = mi, patch = pa, pre = p, build = b \<rparr> }
      | _ \<Rightarrow> None) = Some v"
    by (auto simp: version_parse_def split: if_splits bind_splits)
  from c obtain mj mi pa where "core = core_text mj mi pa" "mj \<le> u64_max" "mi \<le> u64_max"
    "pa \<le> u64_max" "v = \<lparr> major = mj, minor = mi, patch = pa, pre = p, build = b \<rparr>"
    unfolding split_core_text by blast
  with s len show ?r
    by (auto simp: split_identifiers_Some wf_version_def version_display_def core_text_def
        dest: identifiers_nonempty)
next
  assume r: ?r
  obtain mj mi pa p b where v: "v = \<lparr> major = mj, minor = mi, patch = pa, pre = p, build = b \<rparr>"
    by (cases v) auto
  let ?rest = "core_text mj mi pa @ (if p \<noteq> [] then CHR ''-'' # p else [])"
  have t: "t = ?rest @ (if b \<noteq> [] then CHR ''+'' # b else [])"
    using r by (simp add: v version_display_def core_text_def)
  have ids: "p = [] \<or> identifiers p True" "b = [] \<or> identifiers b False"
    using r by (auto simp: v wf_version_def)
  have "split_identifiers (CHR ''+'') False t = Some (?rest, b)"
    using ids identifiers_no_plus [of p True] by (auto simp: split_identifiers_Some t)
  moreover have "split_identifiers (CHR ''-'') True ?rest = Some (core_text mj mi pa, p)"
    using ids by (auto simp: split_identifiers_Some)
  moreover have "(case split_on (CHR ''.'') (core_text mj mi pa) of
      [x, y, z] \<Rightarrow> do { mj \<leftarrow> number x; mi \<leftarrow> number y; pa \<leftarrow> number z;
        Some \<lparr> major = mj, minor = mi, patch = pa, pre = p, build = b \<rparr> }
      | _ \<Rightarrow> None) = Some v"
    unfolding split_core_text using r v by (auto simp: wf_version_def)
  moreover have "t \<noteq> []" by (simp add: t core_text_def)
  moreover have "\<not> MAX_LEN < length t" using r by auto
  ultimately show ?l by (simp add: version_parse_def)
qed

text \<open>
  C11: Parsing and printing versions are inverse to each other: \<open>Version::parse\<close> accepts a text exactly
  when it is the printed form, of at most 128 bytes, of a well-formed version (components that
  fit in \<open>u64\<close>, SemVer identifiers), and then returns that version.
\<close>

theorem version_parse_display:
  "version_parse t = Some v \<longleftrightarrow> wf_version v \<and> t = version_display v \<and> length t \<le> MAX_LEN"
  by (rule version_parse_iff)

section \<open>Precedence is a total order up to build metadata\<close>

definition cmp_identifier :: "string \<Rightarrow> string \<Rightarrow> ordering" where
  "cmp_identifier p q =
     (case (list_all is_ascii_digit p, list_all is_ascii_digit q) of
        (True, True) \<Rightarrow> cmp_numeric p q
      | (True, False) \<Rightarrow> Less
      | (False, True) \<Rightarrow> Greater
      | (False, False) \<Rightarrow> str_cmp p q)"

lemma cmp_pre_loop_lex: "cmp_pre_loop xs ys = lex_cmp cmp_identifier xs ys"
  by (induction xs ys rule: cmp_pre_loop.induct)
    (simp_all add: cmp_identifier_def then_ordering_def Let_def)

lemma total_comparison_numeric: "total_comparison cmp_numeric"
  unfolding cmp_numeric_def
  by (rule total_comparison_then [OF total_comparison_on [OF total_comparison_cmp] total_comparison_str])

lemma total_comparison_identifier: "total_comparison cmp_identifier"
proof -
  note N = total_comparison_numeric and S = total_comparison_str
  show ?thesis
  proof
    fix x y z
    show "cmp_identifier x x = Equal"
      by (simp add: cmp_identifier_def total_comparison.cmp_refl [OF N] total_comparison.cmp_refl [OF S]
          split: bool.splits)
    show "cmp_identifier y x = reverse_ordering (cmp_identifier x y)"
      unfolding cmp_identifier_def
      by (cases "list_all is_ascii_digit x"; cases "list_all is_ascii_digit y"; simp)
        (rule total_comparison.cmp_flip [OF N] total_comparison.cmp_flip [OF S])+
    show "cmp_identifier x z = Less" if "cmp_identifier x y = Less" "cmp_identifier y z \<noteq> Greater"
      using that total_comparison.cmp_trans_less [OF N, of x y z] total_comparison.cmp_trans_less [OF S, of x y z]
      by (simp add: cmp_identifier_def split: bool.splits)
    show "cmp_identifier x z = cmp_identifier y z" if "cmp_identifier x y = Equal"
      using that total_comparison.cmp_trans_equal [OF N, of x y z] total_comparison.cmp_trans_equal [OF S, of x y z]
      by (simp add: cmp_identifier_def split: bool.splits)
  qed
qed

interpretation ident: total_comparison cmp_identifier
  by (rule total_comparison_identifier)

lemma cmp_pre_eq:
  "cmp_pre a b = then_ordering (cmp (a = []) (b = []))
     (lex_cmp cmp_identifier (split_on (CHR ''.'') a) (split_on (CHR ''.'') b))"
  by (simp add: cmp_pre_def cmp_pre_loop_lex cmp_def then_ordering_def ident.cmp_refl split: bool.splits)

lemma total_comparison_precedence: "total_comparison precedence"
  unfolding precedence_def cmp_pre_eq
  by (intro total_comparison_then) (rule total_comparison_on [OF total_comparison_cmp]
      total_comparison_on [OF ident.lex_total])+

interpretation semver: total_comparison precedence
  by (rule total_comparison_precedence)

lemma cmp_numeric_Equal: "cmp_numeric a b = Equal \<longleftrightarrow> a = b"
  by (auto simp: cmp_numeric_def then_ordering_def split: if_splits)

lemma cmp_identifier_Equal: "cmp_identifier a b = Equal \<longleftrightarrow> a = b"
  by (auto simp: cmp_identifier_def cmp_numeric_Equal split: bool.splits)

lemma cmp_pre_Equal: "cmp_pre a b = Equal \<longleftrightarrow> a = b"
proof -
  have "split_on (CHR ''.'') a = split_on (CHR ''.'') b \<Longrightarrow> a = b"
    by (metis join_split_on)
  then show ?thesis
    by (auto simp: cmp_pre_eq then_ordering_def lex_cmp_Equal [OF cmp_identifier_Equal] split: if_splits)
qed

lemma precedence_Equal:
  "precedence v w = Equal \<longleftrightarrow> major v = major w \<and> minor v = minor w \<and> patch v = patch w \<and> pre v = pre w"
  by (auto simp: precedence_def then_ordering_def cmp_pre_Equal split: if_splits)

lemma cmp_numeric_values:
  assumes "is_numeral a" "is_numeral b"
  shows "cmp_numeric a b = cmp (dec_value a) (dec_value b)"
proof -
  have shorter: "dec_value x < dec_value y" if "is_numeral x" "is_numeral y" "length x < length y" for x y
  proof -
    have "dec_value x < 10 ^ length x" using that by (auto simp: is_numeral_def intro: dec_value_less)
    also have "(10::nat) ^ length x \<le> 10 ^ (length y - 1)" using that by (intro power_increasing) auto
    also have "\<dots> \<le> dec_value y" using that by (intro dec_value_ge) (cases x; auto simp: is_numeral_def)+
    finally show ?thesis .
  qed
  consider "length a < length b" | "length b < length a" | "length a = length b" by linarith
  then show ?thesis
  proof cases
    case 3
    with assms show ?thesis
      using str_cmp_digits [of a b] by (auto simp: cmp_numeric_def then_ordering_def is_numeral_def)
  qed (use shorter assms in \<open>fastforce simp: cmp_numeric_def cmp_def then_ordering_def\<close>)+
qed

text \<open>
   SemVer precedence is a total order that ignores build metadata and nothing else: it is
  reflexive, antisymmetric up to reversal and transitive, and two versions compare equal exactly
  when they agree on everything but their build.
\<close>

theorem precedence_total_order:
  "precedence v v = Equal
   \<and> precedence w v = reverse_ordering (precedence v w)
   \<and> (precedence u v \<noteq> Greater \<and> precedence v w \<noteq> Greater \<longrightarrow> precedence u w \<noteq> Greater)
   \<and> (precedence v w = Equal \<longleftrightarrow> v\<lparr>build := []\<rparr> = w\<lparr>build := []\<rparr>)"
  using semver.cmp_refl [of v] semver.cmp_flip [of w v] semver.cmp_le_trans [of u v w]
    precedence_Equal [of v w]
  by (intro conjI) (assumption, assumption, blast, cases v, cases w, auto)

theorem precedence_total_order_witness:
  "precedence \<lparr>major = 1, minor = 0, patch = 0, pre = ''alpha'', build = []\<rparr>
     \<lparr>major = 1, minor = 0, patch = 0, pre = [], build = ''b''\<rparr> \<noteq> Greater"
proof -
  let ?u = "\<lparr>major = 1, minor = 0, patch = 0, pre = ''alpha'', build = []\<rparr>"
  let ?v = "\<lparr>major = 1, minor = 0, patch = 0, pre = ''beta'', build = []\<rparr>"
  let ?w = "\<lparr>major = 1, minor = 0, patch = 0, pre = [], build = ''b''\<rparr>"
  have "precedence ?u ?v \<noteq> Greater" "precedence ?v ?w \<noteq> Greater" by code_simp+
  then show ?thesis using precedence_total_order [of ?v ?w ?u] by blast
qed

text \<open>SemVer 2.0.0 section 11: numeric identifiers as numbers, below the others, which go by ASCII.\<close>

definition semver_identifier_order :: "string \<Rightarrow> string \<Rightarrow> ordering" where
  "semver_identifier_order p q =
     (if list_all is_ascii_digit p \<and> list_all is_ascii_digit q then cmp (dec_value p) (dec_value q)
      else if list_all is_ascii_digit p then Less
      else if list_all is_ascii_digit q then Greater
      else str_cmp p q)"

lemma lex_cmp_cong:
  "(\<And>x y. x \<in> set xs \<Longrightarrow> y \<in> set ys \<Longrightarrow> f x y = g x y) \<Longrightarrow> lex_cmp f xs ys = lex_cmp g xs ys"
  by (induction f xs ys rule: lex_cmp.induct) (auto simp: then_ordering_def)

lemma identifiers_numeral:
  "identifiers s True \<Longrightarrow> i \<in> set (split_on (CHR ''.'') s) \<Longrightarrow> list_all is_ascii_digit i \<Longrightarrow> is_numeral i"
  by (auto simp: identifiers_def is_numeral_def list_all_iff)

text \<open>
  Pre-releases are ordered as SemVer 2.0.0 section 11 says: identifier by identifier, numeric ones
  by their value (however long, without converting them), numeric below alphanumeric, alphanumeric
  in ASCII order, a longer list of identifiers above its prefix; and a release outranks all of
  its pre-releases.
\<close>

theorem precedence_follows_semver:
  assumes "identifiers a True" "identifiers b True"
  shows "cmp_pre a b = lex_cmp semver_identifier_order (split_on (CHR ''.'') a) (split_on (CHR ''.'') b)
    \<and> cmp_pre [] b = Greater \<and> cmp_pre a [] = Less"
proof -
  have "cmp_identifier p q = semver_identifier_order p q"
    if "p \<in> set (split_on (CHR ''.'') a)" "q \<in> set (split_on (CHR ''.'') b)" for p q
    using that identifiers_numeral [OF assms(1)] identifiers_numeral [OF assms(2)]
    by (auto simp: cmp_identifier_def semver_identifier_order_def cmp_numeric_values split: bool.splits)
  then have "lex_cmp cmp_identifier (split_on (CHR ''.'') a) (split_on (CHR ''.'') b)
      = lex_cmp semver_identifier_order (split_on (CHR ''.'') a) (split_on (CHR ''.'') b)"
    by (rule lex_cmp_cong)
  moreover have "a \<noteq> []" "b \<noteq> []" using assms by (auto dest: identifiers_nonempty)
  ultimately show ?thesis by (simp add: cmp_pre_def cmp_pre_loop_lex)
qed

theorem precedence_follows_semver_witness:
  "cmp_pre ''rc.99999999999999999999999'' ''rc.100000000000000000000000''
     = lex_cmp semver_identifier_order (split_on (CHR ''.'') ''rc.99999999999999999999999'')
         (split_on (CHR ''.'') ''rc.100000000000000000000000'')"
proof -
  have "identifiers ''rc.99999999999999999999999'' True" "identifiers ''rc.100000000000000000000000'' True"
    by code_simp+
  then show ?thesis using precedence_follows_semver by blast
qed

section \<open>Requirements are intervals of releases\<close>

definition triple :: "version \<Rightarrow> nat \<times> nat \<times> nat" where
  "triple v = (major v, minor v, patch v)"

text \<open>The first release a comparator admits, and the first one above it that it no longer admits.\<close>

definition range_lo :: "comparator \<Rightarrow> nat \<times> nat \<times> nat" where
  "range_lo c =
     (let M = cmajor c in
      if cop c \<in> {Any, LessOp, LessEq} then (0, 0, 0)
      else case (cminor c, if cop c = Wildcard then None else cpatch c) of
        (None, _) \<Rightarrow> if cop c = GreaterOp then (M + 1, 0, 0) else (M, 0, 0)
      | (Some m, None) \<Rightarrow> if cop c = GreaterOp then (M, m + 1, 0) else (M, m, 0)
      | (Some m, Some p) \<Rightarrow> if cop c = GreaterOp \<and> cpre c = [] then (M, m, p + 1) else (M, m, p))"

definition range_hi :: "comparator \<Rightarrow> (nat \<times> nat \<times> nat) option" where
  "range_hi c =
     (let M = cmajor c; past = (if cpre c = [] then 1 else 0) in
      if cop c \<in> {Any, GreaterOp, GreaterEq} then None
      else Some (case (cminor c, if cop c \<in> {Wildcard, Tilde} then None else cpatch c) of
        (None, _) \<Rightarrow> if cop c = LessOp then (M, 0, 0) else (M + 1, 0, 0)
      | (Some m, None) \<Rightarrow>
          if cop c = LessOp then (M, m, 0)
          else if cop c = Caret \<and> M > 0 then (M + 1, 0, 0) else (M, m + 1, 0)
      | (Some m, Some p) \<Rightarrow>
          if cop c = LessOp then (M, m, p)
          else if cop c = Caret
          then if M > 0 then (M + 1, 0, 0) else if m > 0 then (0, m + 1, 0) else (0, 0, p + 1)
          else (M, m, p + past)))"

lemma precedence_release:
  assumes "pre v = []"
  shows "precedence v w = (if triple v < triple w then Less else if triple w < triple v then Greater
    else if pre w = [] then Equal else Greater)"
  using assms by (auto simp: precedence_def triple_def cmp_def then_ordering_def cmp_pre_def split: bool.splits)

lemmas comparator_range = precedence_release comparator_matches_def comparator_full_def
  range_lo_def range_hi_def triple_def Let_def

text \<open>
  C12: For releases every comparator is a half-open interval, the one its documentation gives:
  \<open>^1.2.3\<close> is \<open>[1.2.3, 2.0.0)\<close>, \<open>^0.2.3\<close> is \<open>[0.2.3, 0.3.0)\<close>, \<open>^0.0.3\<close> is \<open>[0.0.3, 0.0.4)\<close>,
  \<open>~1.2.3\<close> is \<open>[1.2.3, 1.3.0)\<close>, \<open>>1.2\<close> is \<open>[1.3.0, \<infinity>)\<close>, and so on for every operator and every
  partial version.
\<close>

theorem comparator_is_interval:
  assumes "\<not> is_prerelease v"
  shows "comparator_matches c v \<longleftrightarrow>
    range_lo c \<le> triple v \<and> (case range_hi c of None \<Rightarrow> True | Some h \<Rightarrow> triple v < h)"
proof -
  have v: "pre v = []" using assms by (simp add: is_prerelease_def)
  show ?thesis
    by (cases "cop c"; cases "cminor c"; cases "cpatch c"; cases "cpre c = []";
        simp add: comparator_range v; linarith?; auto?)
qed

theorem comparator_is_interval_witness:
  "comparator_matches \<lparr>cop = Caret, cmajor = 0, cminor = Some 2, cpatch = Some 3, cpre = []\<rparr>
     \<lparr>major = 0, minor = 2, patch = 9, pre = [], build = []\<rparr>"
  by (subst comparator_is_interval) (simp_all add: is_prerelease_def range_lo_def range_hi_def triple_def)

section \<open>The pre-release rule\<close>

lemma strip_prefix_Some: "strip_prefix p s = Some r \<Longrightarrow> s = p @ r"
  by (auto simp: strip_prefix_def split: if_splits) (metis append_take_drop_id)

lemma parse_op_suffix: "parse_op t = (op, r) \<Longrightarrow> set r \<subseteq> set t"
  unfolding parse_op_def by (auto dest!: strip_prefix_Some split: option.splits)

lemma comparator_parse_pre:
  assumes "comparator_parse t = Some c" "cpre c \<noteq> []"
  shows "CHR ''-'' \<in> set t"
proof -
  obtain op rest where op: "parse_op (trim t) = (op, rest)" by fastforce
  from assms op obtain core p where
    s: "split_identifiers (CHR ''-'') True (trim_start rest) = Some (core, p)" and p: "cpre c = p"
    by (auto simp: comparator_parse_def Let_def split: if_splits bind_splits)
  with assms(2) have "CHR ''-'' \<in> set (trim_start rest)"
    by (auto simp: split_identifiers_Some)
  with set_trim_start [of rest] parse_op_suffix [OF op] set_trim [of t] show ?thesis by blast
qed

lemma req_fill_comparators:
  "req_fill i parts arr = Some r \<Longrightarrow> Some c \<in> set r \<Longrightarrow>
     Some c \<in> set arr \<or> (\<exists>part\<in>set parts. comparator_parse part = Some c)"
proof (induction i parts arr rule: req_fill.induct)
  case (2 i part parts arr)
  then obtain c' where "i < length arr" "comparator_parse part = Some c'"
    "req_fill (Suc i) parts (arr[i := Some c']) = Some r"
    by (auto split: if_splits bind_splits)
  with 2 set_update_subset_insert [of arr i "Some c'"] show ?case by auto
qed simp

lemma in_req_iter: "c \<in> set (req_iter r) \<longleftrightarrow> Some c \<in> set r"
  unfolding req_iter_def by (induction r) (auto simp: List.map_filter_simps split: option.splits)

text \<open>
  C13: A pre-release is only accepted by name: when \<open>satisfies\<close> holds for a pre-release version, one of
  the comma-separated comparators of the requirement text itself contains a pre-release of the
  same major.minor.patch; a requirement without a hyphen never accepts a pre-release.
\<close>

theorem prerelease_only_by_name:
  assumes "satisfies ver requirement = Some True" "version_parse ver = Some v" "is_prerelease v"
  shows "\<exists>part\<in>set (split_on (CHR '','') requirement). \<exists>c. comparator_parse part = Some c
    \<and> cpre c \<noteq> [] \<and> CHR ''-'' \<in> set part
    \<and> (cmajor c, cminor c, cpatch c) = (major v, Some (minor v), Some (patch v))"
proof -
  from assms obtain r where r: "req_parse requirement = Some r" "req_matches r v"
    by (auto simp: satisfies_def split: bind_splits)
  with assms(3) obtain c where c: "Some c \<in> set r" "cpre c \<noteq> []"
    "(cmajor c, cminor c, cpatch c) = (major v, Some (minor v), Some (patch v))"
    by (auto simp: req_matches_def list_ex_iff in_req_iter split: if_splits)
  from r(1) have "req_fill 0 (split_on (CHR '','') requirement) (replicate MAX_COMPARATORS None) = Some r"
    by (auto simp: req_parse_def split: if_splits)
  from req_fill_comparators [OF this c(1)] obtain part where
    part: "part \<in> set (split_on (CHR '','') requirement)" "comparator_parse part = Some c"
    by auto
  with c comparator_parse_pre [of part c] show ?thesis by blast
qed

lemmas text_eval = trim_id trim_start_id graphic_def number_def is_ascii_digit_def checked_mul64_def
  checked_add64_def u64_max_def digit_value_def split_identifiers_def split_once_def identifiers_def
  is_ascii_alphanumeric_def is_ascii_lowercase_def parse_op_def strip_prefix_def nth_part_def
  parse_part_def wild_def MAX_LEN_def comparator_parse_def version_parse_def Let_def

lemma example_version:
  "version_parse ''2.0.0-beta.2'' = Some \<lparr>major = 2, minor = 0, patch = 0, pre = ''beta.2'', build = []\<rparr>"
  by (simp add: text_eval)

lemma example_satisfies: "satisfies ''2.0.0-beta.2'' ''^2.0.0-beta.1'' = Some True"
proof -
  let ?c = "\<lparr>cop = Caret, cmajor = 2, cminor = Some 0, cpatch = Some 0, cpre = ''beta.1''\<rparr>"
  have "comparator_parse ''^2.0.0-beta.1'' = Some ?c" by (simp add: text_eval)
  then have "req_parse ''^2.0.0-beta.1'' = Some [Some ?c, None, None, None, None, None, None, None]"
    by (simp add: req_parse_def trim_id graphic_def MAX_LEN_def MAX_COMPARATORS_def eval_nat_numeral)
  moreover have "req_matches [Some ?c, None, None, None, None, None, None, None]
      \<lparr>major = 2, minor = 0, patch = 0, pre = ''beta.2'', build = []\<rparr>"
    by code_simp
  ultimately show ?thesis by (simp add: satisfies_def example_version)
qed

theorem prerelease_only_by_name_witness:
  "\<exists>part\<in>set (split_on (CHR '','') ''^2.0.0-beta.1''). \<exists>c. comparator_parse part = Some c
    \<and> cpre c \<noteq> [] \<and> CHR ''-'' \<in> set part
    \<and> (cmajor c, cminor c, cpatch c) = (2, Some 0, Some 0)"
  using prerelease_only_by_name [OF example_satisfies example_version] by (simp add: is_prerelease_def)

end
