(* ===== verification/Lz4.thy ===== *)
theory Lz4
  imports Prelude "HOL-Library.Monad_Syntax"
begin

text \<open>
  \<^verbatim>\<open>crates/nanochrono-core/src/lz4.rs\<close>: the LZ4 block codec of the file system.  The greedy compressor
  (hash table, backward and forward extension of a match, bounded writer) and the decoder are
  modelled as they are written; shown are the round trip, the size bound, and that the decoder is
  total and stays inside the caller's buffer on any input.  Slices are lists of bytes; positions are
  \<open>nat\<close>, with the checked additions of the decoder written out (\<open>usize\<close> has 64 bits).  What the
  buffer holds after a refused block is not returned.
\<close>

section \<open>Writer and compressor\<close>

definition MIN_MATCH :: nat where "MIN_MATCH = 4"

definition MAX_DISTANCE :: nat where "MAX_DISTANCE = 65535"

definition LAST_LITERALS :: nat where "LAST_LITERALS = 5"

definition MF_LIMIT :: nat where "MF_LIMIT = 12"

definition HASH_LOG :: nat where "HASH_LOG = 12"

definition TABLE_LEN :: nat where "TABLE_LEN = push_bit HASH_LOG 1"

definition lz4_bound :: "nat \<Rightarrow> nat" where
  "lz4_bound n = n + n div 255 + 16"

datatype lz4_error = Truncated | BadDistance | Overflow | Short

definition lz4_message :: "lz4_error \<Rightarrow> string" where
  "lz4_message e =
     (case e of
        Truncated \<Rightarrow> ''LZ4 block ends early''
      | BadDistance \<Rightarrow> ''LZ4 match reaches before the start''
      | Overflow \<Rightarrow> ''LZ4 block decodes to more than declared''
      | Short \<Rightarrow> ''LZ4 block decodes to less than declared'')"

type_synonym slots = "u32 list"

definition table_new :: slots where
  "table_new = replicate TABLE_LEN 0"

definition read32 :: "u8 list \<Rightarrow> nat \<Rightarrow> u32" where
  "read32 b i =
     ucast (b ! i) OR (push_bit 8 (ucast (b ! (i + 1))) OR (push_bit 16 (ucast (b ! (i + 2)))
       OR push_bit 24 (ucast (b ! (i + 3)))))"

definition lz4_hash :: "u32 \<Rightarrow> nat" where
  "lz4_hash v = unat (drop_bit (32 - HASH_LOG) (v * 2654435761))"

record writer =
  wout :: "u8 list"
  wat :: nat

definition w_byte :: "u8 \<Rightarrow> writer \<Rightarrow> writer option" where
  "w_byte b w =
     (if wat w < length (wout w) then Some (w\<lparr> wout := (wout w)[wat w := b], wat := wat w + 1 \<rparr>)
      else None)"

definition w_bytes :: "u8 list \<Rightarrow> writer \<Rightarrow> writer option" where
  "w_bytes b w =
     (if wat w + length b \<le> length (wout w)
      then Some (w\<lparr> wout := take (wat w) (wout w) @ b @ drop (wat w + length b) (wout w),
                    wat := wat w + length b \<rparr>)
      else None)"

fun w_length :: "nat \<Rightarrow> writer \<Rightarrow> writer option" where
  "w_length n w =
     (if n \<ge> 255 then do { w \<leftarrow> w_byte 255 w; w_length (n - 255) w }
      else w_byte (of_nat n) w)"

declare w_length.simps [simp del]

definition w_sequence :: "u8 list \<Rightarrow> nat \<Rightarrow> nat option \<Rightarrow> writer \<Rightarrow> writer option" where
  "w_sequence literals distance matched w =
     (let lit = length literals;
          ml = (case matched of None \<Rightarrow> 0 | Some m \<Rightarrow> m - MIN_MATCH)
      in do {
        w \<leftarrow> w_byte (push_bit 4 (of_nat (min lit 15)) OR of_nat (min ml 15)) w;
        w \<leftarrow> (if lit \<ge> 15 then w_length (lit - 15) w else Some w);
        w \<leftarrow> w_bytes literals w;
        if matched \<noteq> None
        then do {
          w \<leftarrow> w_bytes [of_nat (distance mod 256), of_nat (distance div 256 mod 256)] w;
          if ml \<ge> 15 then w_length (ml - 15) w else Some w
        }
        else Some w
      })"

text \<open>The two extension loops of a match at \<open>s\<close> whose earlier copy is at \<open>c\<close>.\<close>

fun extend_back :: "u8 list \<Rightarrow> nat \<Rightarrow> nat \<Rightarrow> nat \<Rightarrow> nat \<times> nat" where
  "extend_back input anchor s c =
     (if s > anchor \<and> c > 0 \<and> input ! (s - 1) = input ! (c - 1)
      then extend_back input anchor (s - 1) (c - 1) else (s, c))"

declare extend_back.simps [simp del]

function extend_forward :: "u8 list \<Rightarrow> nat \<Rightarrow> nat \<Rightarrow> nat \<Rightarrow> nat \<times> nat" where
  "extend_forward input match_limit e ce =
     (if e < match_limit \<and> input ! e = input ! ce
      then extend_forward input match_limit (e + 1) (ce + 1) else (e, ce))"
  by pat_completeness auto
termination by (relation "measure (\<lambda>(_, match_limit, e, _). match_limit - e)") auto

declare extend_forward.simps [simp del]

lemma extend_forward_ge: "e \<le> fst (extend_forward input match_limit e ce)"
proof (induction input match_limit e ce rule: extend_forward.induct)
  case (1 input match_limit e ce)
  then show ?case
    by (cases "e < match_limit \<and> input ! e = input ! ce") (auto simp: extend_forward.simps [of _ _ e])
qed

record lz4_state =
  lw :: writer
  lslots :: slots
  lanchor :: nat
  lip :: nat
  lmisses :: nat

text \<open>One turn of the search loop; \<open>None\<close> when the output does not fit.\<close>

definition compress_step :: "u8 list \<Rightarrow> lz4_state \<Rightarrow> lz4_state option" where
  "compress_step input st =
     (let ip = lip st;
          anchor = lanchor st;
          match_limit = length input - LAST_LITERALS;
          v = read32 input ip;
          h = lz4_hash v;
          cand = unat (lslots st ! h);
          slots = (lslots st)[h := of_nat ip]
      in if cand < ip \<and> ip - cand \<le> MAX_DISTANCE \<and> read32 input cand = v
         then
           let (s, c) = extend_back input anchor ip cand;
               (e, ce) = extend_forward input match_limit (ip + MIN_MATCH) (cand + MIN_MATCH)
           in do {
             w \<leftarrow> w_sequence (take (s - anchor) (drop anchor input)) (s - c) (Some (e - s)) (lw st);
             let p = e - 2;
             Some \<lparr> lw = w, lslots = slots[lz4_hash (read32 input p) := of_nat p], lanchor = e,
                    lip = e, lmisses = 0 \<rparr>
           }
         else
           let misses = lmisses st + 1
           in Some (st\<lparr> lslots := slots, lip := ip + 1 + drop_bit 6 misses, lmisses := misses \<rparr>))"

lemma compress_step_advances: "compress_step input st = Some st' \<Longrightarrow> lip st < lip st'"
proof -
  have "lip st < fst (extend_forward input m (lip st + MIN_MATCH) ce)" for m ce
    using extend_forward_ge [of "lip st + MIN_MATCH" input m ce] by (simp add: MIN_MATCH_def)
  then show "compress_step input st = Some st' \<Longrightarrow> lip st < lip st'"
    by (auto simp: compress_step_def Let_def split: prod.splits if_splits bind_splits)
      (metis fst_conv)
qed

function compress_loop :: "u8 list \<Rightarrow> lz4_state \<Rightarrow> lz4_state option" where
  "compress_loop input st =
     (if lip st \<le> length input - MF_LIMIT
      then case compress_step input st of
             None \<Rightarrow> None
           | Some st' \<Rightarrow> compress_loop input st'
      else Some st)"
  by pat_completeness auto
termination
  by (relation "measure (\<lambda>(input, st). Suc (length input) - lip st)") (auto dest!: compress_step_advances)

declare compress_loop.simps [simp del]

definition compress :: "u8 list \<Rightarrow> u8 list \<Rightarrow> slots \<Rightarrow> (nat \<times> u8 list \<times> slots) option" where
  "compress input out table =
     (let n = length input in
      if n \<ge> 2 ^ 32 then None
      else
        let w = \<lparr> wout = out, wat = 0 \<rparr>;
            st = \<lparr> lw = w, lslots = (if n > MF_LIMIT then replicate TABLE_LEN 0 else table),
                   lanchor = 0, lip = 0, lmisses = 0 \<rparr>
        in do {
          st \<leftarrow> (if n > MF_LIMIT then compress_loop input st else Some st);
          w \<leftarrow> w_sequence (drop (lanchor st) input) 0 None (lw st);
          Some (wat w, wout w, lslots st)
        })"

section \<open>Decoder\<close>

function read_length :: "u8 list \<Rightarrow> nat \<Rightarrow> nat \<Rightarrow> lz4_error + nat \<times> nat" where
  "read_length input ip n =
     (if ip < length input
      then
        let b = input ! ip in
        case checked_add64 n (unat b) of
          None \<Rightarrow> Inl Overflow
        | Some n' \<Rightarrow> if b \<noteq> 255 then Inr (n', ip + 1) else read_length input (ip + 1) n'
      else Inl Truncated)"
  by pat_completeness auto
termination by (relation "measure (\<lambda>(input, ip, _). length input - ip)") auto

declare read_length.simps [simp del]

text \<open>A nibble, extended by the length bytes that follow when it is 15.\<close>

definition nibble_length :: "u8 list \<Rightarrow> nat \<Rightarrow> nat \<Rightarrow> lz4_error + nat \<times> nat" where
  "nibble_length input ip nib =
     (if nib = 15
      then case read_length input ip 0 of Inl e \<Rightarrow> Inl e | Inr (n, ip') \<Rightarrow> Inr (nib + n, ip')
      else Inr (nib, ip))"

fun copy_overlapping :: "nat \<Rightarrow> nat \<Rightarrow> nat \<Rightarrow> u8 list \<Rightarrow> u8 list" where
  "copy_overlapping 0 i distance out = out"
| "copy_overlapping (Suc k) i distance out =
     copy_overlapping k (i + 1) distance (out[i := out ! (i - distance)])"

definition copy_match :: "nat \<Rightarrow> nat \<Rightarrow> nat \<Rightarrow> u8 list \<Rightarrow> u8 list" where
  "copy_match ml op distance out =
     (if distance \<ge> ml
      then take op out @ take ml (drop (op - distance) out) @ drop (op + ml) out
      else copy_overlapping ml op distance out)"

text \<open>One sequence: done with the final position, or the next \<open>(ip, op, out)\<close>.\<close>

definition decompress_step ::
  "u8 list \<Rightarrow> nat \<Rightarrow> nat \<Rightarrow> u8 list \<Rightarrow> lz4_error + (nat \<times> u8 list) + (nat \<times> nat \<times> u8 list)" where
  "decompress_step input ip op out =
     (if \<not> ip < length input then Inl Truncated
      else
        let token = input ! ip in
        case nibble_length input (ip + 1) (unat (drop_bit 4 token)) of
          Inl e \<Rightarrow> Inl e
        | Inr (lit, ip) \<Rightarrow>
        case checked_add64 ip lit of
          None \<Rightarrow> Inl Truncated
        | Some lit_end \<Rightarrow>
        if lit_end > length input then Inl Truncated
        else
        let src = take lit (drop ip input) in
        case checked_add64 op lit of
          None \<Rightarrow> Inl Overflow
        | Some op_end \<Rightarrow>
        if op_end > length out then Inl Overflow
        else
        let out = take op out @ src @ drop op_end out;
            ip = lit_end;
            op = op_end
        in if ip = length input then Inr (Inl (op, out))
        else if ip + 2 > length input then Inl Truncated
        else
        let distance = unat (input ! ip) + 256 * unat (input ! (ip + 1));
            ip = ip + 2
        in if distance = 0 \<or> distance > op then Inl BadDistance
        else
        case nibble_length input ip (unat (token AND 15)) of
          Inl e \<Rightarrow> Inl e
        | Inr (ml, ip) \<Rightarrow>
        let ml = ml + MIN_MATCH in
        case checked_add64 op ml of
          None \<Rightarrow> Inl Overflow
        | Some end_op \<Rightarrow>
        if end_op > length out then Inl Overflow
        else Inr (Inr (ip, end_op, copy_match ml op distance out)))"

lemma read_length_advances: "read_length input ip n = Inr (m, ip') \<Longrightarrow> ip < ip'"
proof (induction input ip n rule: read_length.induct)
  case (1 input ip n)
  show ?case
    using "1.prems" "1.IH" unfolding read_length.simps [of input ip n]
    by (force simp: Let_def split: if_splits option.splits)
qed

lemma nibble_length_advances: "nibble_length input ip nib = Inr (m, ip') \<Longrightarrow> ip \<le> ip'"
  by (auto simp: nibble_length_def split: if_splits sum.splits dest: read_length_advances)

lemma decompress_step_advances:
  "decompress_step input ip op out = Inr (Inr (ip', op', out')) \<Longrightarrow> ip < ip' \<and> ip < length input"
  unfolding decompress_step_def Let_def
  by (auto simp: checked_add64_def split: if_splits sum.splits option.splits
      dest!: nibble_length_advances)

function decompress_loop :: "u8 list \<Rightarrow> nat \<Rightarrow> nat \<Rightarrow> u8 list \<Rightarrow> lz4_error + nat \<times> u8 list" where
  "decompress_loop input ip op out =
     (case decompress_step input ip op out of
        Inl e \<Rightarrow> Inl e
      | Inr (Inl r) \<Rightarrow> Inr r
      | Inr (Inr (ip', op', out')) \<Rightarrow> decompress_loop input ip' op' out')"
  by pat_completeness auto
termination
  by (relation "measure (\<lambda>(input, ip, _). length input - ip)")
    (auto dest!: decompress_step_advances)

declare decompress_loop.simps [simp del]

definition decompress :: "u8 list \<Rightarrow> u8 list \<Rightarrow> lz4_error + nat \<times> u8 list" where
  "decompress input out = decompress_loop input 0 0 out"

definition decompress_exact :: "u8 list \<Rightarrow> u8 list \<Rightarrow> lz4_error + u8 list" where
  "decompress_exact input out =
     (case decompress input out of
        Inl e \<Rightarrow> Inl e
      | Inr (n, out') \<Rightarrow> if n = length out' then Inr out' else Inl Short)"

section \<open>What the writer writes\<close>

definition length_bytes :: "nat \<Rightarrow> u8 list" where
  "length_bytes n = replicate (n div 255) 255 @ [of_nat (n mod 255)]"

definition ext_bytes :: "nat \<Rightarrow> u8 list" where
  "ext_bytes n = (if n \<ge> 15 then length_bytes (n - 15) else [])"

definition token_byte :: "nat \<Rightarrow> nat \<Rightarrow> u8" where
  "token_byte lit ml = push_bit 4 (of_nat (min lit 15)) OR of_nat (min ml 15)"

definition distance_bytes :: "nat \<Rightarrow> u8 list" where
  "distance_bytes d = [of_nat (d mod 256), of_nat (d div 256 mod 256)]"

definition last_bytes :: "u8 list \<Rightarrow> u8 list" where
  "last_bytes l = token_byte (length l) 0 # ext_bytes (length l) @ l"

definition match_bytes :: "u8 list \<Rightarrow> nat \<Rightarrow> nat \<Rightarrow> u8 list" where
  "match_bytes l d m = token_byte (length l) (m - MIN_MATCH) # ext_bytes (length l) @ l
     @ distance_bytes d @ ext_bytes (m - MIN_MATCH)"

lemma w_bytes_append: "Option.bind (w_bytes a w) (w_bytes b) = w_bytes (a @ b) w"
proof (cases "wat w + length a + length b \<le> length (wout w)")
  case True
  then have "min (length (wout w)) (wat w) = wat w" by simp
  with True show ?thesis by (simp add: w_bytes_def ac_simps)
next
  case False
  then show ?thesis by (auto simp: w_bytes_def)
qed

lemma w_bytes_Nil [simp]: "w_bytes [] w = Some w" if "wat w \<le> length (wout w)"
  using that by (simp add: w_bytes_def)

lemma w_byte_put: "w_byte b w = w_bytes [b] w"
  by (auto simp: w_byte_def w_bytes_def upd_conv_take_nth_drop)

lemma w_length_put: "w_length n w = w_bytes (length_bytes n) w"
proof (induction n arbitrary: w rule: less_induct)
  case (less n)
  show ?case
  proof (cases "n \<ge> 255")
    case True
    then have "length_bytes n = 255 # length_bytes (n - 255)"
      by (simp add: length_bytes_def le_div_geq le_mod_geq)
    moreover have "w_length (n - 255) = w_bytes (length_bytes (n - 255))"
      using less True by (intro ext) simp
    ultimately show ?thesis
      using True w_bytes_append [of "[255]" w "length_bytes (n - 255)"]
      by (simp add: w_length.simps [of n] w_byte_put)
  next
    case False
    then show ?thesis by (simp add: w_length.simps [of n] w_byte_put length_bytes_def)
  qed
qed

lemma w_bytes_bind:
  "Option.bind (w_bytes a w) (\<lambda>w. Option.bind (w_bytes b w) f) = Option.bind (w_bytes (a @ b) w) f"
  unfolding w_bytes_append [symmetric] by simp

lemmas writer_simps = w_byte_put w_length_put w_bytes_bind w_bytes_append ext_bytes_def

lemma w_sequence_last: "w_sequence l d None w = w_bytes (last_bytes l) w"
  unfolding w_sequence_def Let_def token_byte_def [symmetric] last_bytes_def
  by (cases "length l \<ge> 15") (simp_all add: writer_simps)

lemma w_sequence_match: "w_sequence l d (Some m) w = w_bytes (match_bytes l d m) w"
  unfolding w_sequence_def Let_def token_byte_def [symmetric] distance_bytes_def [symmetric] match_bytes_def
  by (cases "length l \<ge> 15"; cases "m - MIN_MATCH \<ge> 15") (simp_all add: writer_simps)

text \<open>Reading back length bytes, a nibble and a token.\<close>

lemma drop_eq_nth: "drop ip xs = y # ys \<Longrightarrow> ip < length xs \<and> xs ! ip = y \<and> drop (Suc ip) xs = ys"
  by (metis drop_eq_Nil2 leI list.distinct(1) list.inject Cons_nth_drop_Suc)

lemma drop_drop_append: "drop ip xs = ys @ zs \<Longrightarrow> drop (ip + length ys) xs = zs"
  by (metis append_eq_conv_conj drop_drop add.commute)

lemma read_length_bytes:
  assumes "drop ip input = length_bytes n @ rest" "acc + n \<le> u64_max"
  shows "read_length input ip acc = Inr (acc + n, ip + length (length_bytes n))"
  using assms
proof (induction n arbitrary: ip acc rule: less_induct)
  case (less n)
  show ?case
  proof (cases "n \<ge> 255")
    case True
    then have lb: "length_bytes n = 255 # length_bytes (n - 255)"
      by (simp add: length_bytes_def le_div_geq le_mod_geq)
    with less.prems(1) have "ip < length input" "input ! ip = 255"
      "drop (Suc ip) input = length_bytes (n - 255) @ rest"
      using drop_eq_nth [of ip input 255] by auto
    with True less.prems(2) less.IH [of "n - 255" "Suc ip" "acc + 255"] lb show ?thesis
      by (simp add: read_length.simps [of input ip] checked_add64_def)
  next
    case False
    then have "drop ip input = of_nat n # rest" "unat (of_nat n :: u8) = n" "(of_nat n :: u8) \<noteq> 255"
      using less.prems(1) by (auto simp: length_bytes_def unat_of_nat dest: arg_cong [of _ _ unat])
    with drop_eq_nth [OF this(1)] less.prems(2) False show ?thesis
      by (simp add: read_length.simps [of input ip] checked_add64_def length_bytes_def)
  qed
qed

lemma nibble_length_bytes:
  assumes "drop ip input = ext_bytes n @ rest" "n \<le> u64_max"
  shows "nibble_length input ip (min n 15) = Inr (n, ip + length (ext_bytes n))"
proof (cases "n \<ge> 15")
  case True
  with assms read_length_bytes [of ip input "n - 15" rest 0] show ?thesis
    by (simp add: nibble_length_def ext_bytes_def min_def)
qed (simp add: nibble_length_def ext_bytes_def min_def)

lemma nibbles_all:
  "\<forall>a\<in>set [0..<16]. \<forall>b\<in>set [0..<16].
     unat (drop_bit 4 (push_bit 4 (of_nat a) OR of_nat b :: u8)) = a
     \<and> unat ((push_bit 4 (of_nat a) OR of_nat b :: u8) AND 15) = b"
  by code_simp

lemma token_nibbles:
  "unat (drop_bit 4 (token_byte lit ml)) = min lit 15" "unat (token_byte lit ml AND 15) = min ml 15"
  unfolding token_byte_def by (rule nibbles_all [rule_format, THEN conjunct1] nibbles_all [rule_format, THEN conjunct2]; simp)+

section \<open>Decoding what was written\<close>

lemma length_match_bytes:
  "length (match_bytes l d m) = 3 + length (ext_bytes (length l)) + length l + length (ext_bytes (m - MIN_MATCH))"
  by (simp add: match_bytes_def distance_bytes_def)

lemma distance_value: "d \<le> MAX_DISTANCE \<Longrightarrow>
  unat (of_nat (d mod 256) :: u8) + 256 * unat (of_nat (d div 256 mod 256) :: u8) = d"
proof -
  assume "d \<le> MAX_DISTANCE"
  then have "d div 256 < 256" by (simp add: MAX_DISTANCE_def less_mult_imp_div_less)
  then show ?thesis by (simp add: unat_of_nat)
qed

lemma decompress_step_last:
  assumes src: "drop ip input = last_bytes l" and out: "op + length l \<le> length out"
    and size: "length input \<le> u64_max" "length out \<le> u64_max"
  shows "decompress_step input ip op out
    = Inr (Inl (op + length l, take op out @ l @ drop (op + length l) out))"
proof -
  have tok: "ip < length input" "input ! ip = token_byte (length l) 0"
    and rest: "drop (ip + 1) input = ext_bytes (length l) @ l"
    using drop_eq_nth [of ip input] src by (auto simp: last_bytes_def)
  have nib: "nibble_length input (ip + 1) (unat (drop_bit 4 (input ! ip)))
      = Inr (length l, ip + 1 + length (ext_bytes (length l)))"
    using nibble_length_bytes [OF rest] out size by (simp add: tok token_nibbles)
  have lits: "drop (ip + 1 + length (ext_bytes (length l))) input = l"
    using drop_drop_append [OF rest] .
  have len: "length input = ip + 1 + length (ext_bytes (length l)) + length l"
    using arg_cong [OF rest, of length] tok(1) by simp
  show ?thesis
    unfolding decompress_step_def
    using tok(1) nib lits len out size by (simp add: checked_add64_def)
qed

lemma decompress_step_match:
  assumes src: "drop ip input = match_bytes l d m @ rest"
    and out: "op + length l + m \<le> length out"
    and d: "0 < d" "d \<le> op + length l" "d \<le> MAX_DISTANCE" and m: "MIN_MATCH \<le> m"
    and size: "length input \<le> u64_max" "length out \<le> u64_max"
  shows "decompress_step input ip op out =
    Inr (Inr (ip + length (match_bytes l d m), op + length l + m,
      copy_match m (op + length l) d (take op out @ l @ drop (op + length l) out)))"
proof -
  let ?ip2 = "ip + 1 + length (ext_bytes (length l))"
  let ?ip3 = "?ip2 + length l"
  have tok: "ip < length input" "input ! ip = token_byte (length l) (m - MIN_MATCH)"
    and r1: "drop (ip + 1) input = ext_bytes (length l) @ l @ distance_bytes d @ ext_bytes (m - MIN_MATCH) @ rest"
    using drop_eq_nth [of ip input] src by (auto simp: match_bytes_def)
  have nib: "nibble_length input (ip + 1) (unat (drop_bit 4 (input ! ip))) = Inr (length l, ?ip2)"
    using nibble_length_bytes [OF r1] out size by (simp add: tok token_nibbles)
  have r2: "drop ?ip2 input = l @ distance_bytes d @ ext_bytes (m - MIN_MATCH) @ rest"
    using drop_drop_append [OF r1] .
  have r3: "drop ?ip3 input = distance_bytes d @ ext_bytes (m - MIN_MATCH) @ rest"
    using drop_drop_append [OF r2] .
  have r4: "drop (?ip3 + 2) input = ext_bytes (m - MIN_MATCH) @ rest"
    using drop_drop_append [OF r3] by (simp add: distance_bytes_def)
  have db: "input ! ?ip3 = of_nat (d mod 256)" "input ! (?ip3 + 1) = of_nat (d div 256 mod 256)"
    and len: "?ip3 + 2 \<le> length input"
    using drop_eq_nth [of ?ip3 input] drop_eq_nth [of "?ip3 + 1" input] r3
    by (auto simp: distance_bytes_def)
  have nib2: "nibble_length input (?ip3 + 2) (unat (input ! ip AND 15))
      = Inr (m - MIN_MATCH, ?ip3 + 2 + length (ext_bytes (m - MIN_MATCH)))"
    using nibble_length_bytes [OF r4] out size by (simp add: tok token_nibbles)
  have ml: "m - MIN_MATCH + MIN_MATCH = m" using m by simp
  have ch: "checked_add64 ?ip2 (length l) = Some ?ip3" "checked_add64 op (length l) = Some (op + length l)"
    "checked_add64 (op + length l) m = Some (op + length l + m)"
    using len out size by (simp_all add: checked_add64_def)
  have src2: "take (length l) (drop ?ip2 input) = l" using r2 by simp
  have ol: "length (take op out @ l @ drop (op + length l) out) = length out" using out by simp
  have conds: "\<not> ?ip3 > length input" "\<not> op + length l > length out" "?ip3 \<noteq> length input"
    "\<not> ?ip3 + 2 > length input" "\<not> (d = 0 \<or> d > op + length l)" "\<not> op + length l + m > length out"
    using len out d by simp_all
  have fin: "?ip3 + 2 + length (ext_bytes (m - MIN_MATCH)) = ip + length (match_bytes l d m)"
    by (simp add: length_match_bytes)
  show ?thesis
    unfolding decompress_step_def Let_def
    by (simp only: tok(1) nib nib2 ch src2 ol conds db distance_value [OF d(3)] ml fin not_True_eq_False
        if_False if_True sum.case prod.case option.case simp_thms)
qed

lemma copy_overlapping_data:
  assumes "take i out = take i data" "i + k \<le> length out" "i + k \<le> length data" "0 < d" "d \<le> i"
    and "\<And>j. i \<le> j \<Longrightarrow> j < i + k \<Longrightarrow> data ! j = data ! (j - d)"
  shows "copy_overlapping k i d out = take (i + k) data @ drop (i + k) out"
  using assms
proof (induction k arbitrary: i out)
  case 0
  then show ?case by (metis add.right_neutral append_take_drop_id copy_overlapping.simps(1))
next
  case (Suc k)
  have prev: "out ! (i - d) = data ! (i - d)"
    using Suc.prems by (metis diff_less nth_take order_less_le_trans)
  have "data ! i = data ! (i - d)" using Suc.prems(6) [of i] by simp
  with prev have upd: "out[i := out ! (i - d)] = out[i := data ! i]" by simp
  have "take (Suc i) (out[i := data ! i]) = take (Suc i) data"
    using Suc.prems by (simp add: take_Suc_conv_app_nth)
  with Suc.IH [of "Suc i" "out[i := data ! i]"] Suc.prems show ?case
    by (simp add: upd)
qed

lemma copy_match_data:
  assumes "take i out = take i data" "i + m \<le> length out" "i + m \<le> length data" "0 < d" "d \<le> i"
    and eq: "\<And>j. i \<le> j \<Longrightarrow> j < i + m \<Longrightarrow> data ! j = data ! (j - d)"
  shows "copy_match m i d out = take (i + m) data @ drop (i + m) out"
proof (cases "d \<ge> m")
  case True
  have "take m (drop (i - d) out) = take m (drop i data)"
  proof (rule nth_equalityI)
    fix j
    assume "j < length (take m (drop (i - d) out))"
    then have j: "j < m" by simp
    have "out ! (i - d + j) = data ! (i - d + j)"
      using assms(1) True assms(5) j by (metis add_less_cancel_left le_add_diff_inverse2 nth_take order_less_le_trans)
    also have "\<dots> = data ! (i + j)" using eq [of "i + j"] j assms(5) by simp
    finally show "take m (drop (i - d) out) ! j = take m (drop i data) ! j"
      using j assms by simp
  qed (use assms in simp)
  with True assms(1) show ?thesis by (simp add: copy_match_def take_add)
next
  case False
  then show ?thesis
    unfolding copy_match_def using copy_overlapping_data [OF assms] by simp
qed

text \<open>A prefix of a block that decodes to \<open>data\<close>, whatever follows it and whatever the buffer.\<close>

definition decodes_to :: "u8 list \<Rightarrow> u8 list \<Rightarrow> bool" where
  "decodes_to E data \<longleftrightarrow>
     (\<forall>rest buf. length (E @ rest) \<le> u64_max \<and> length buf \<le> u64_max \<and> length data \<le> length buf \<longrightarrow>
        decompress_loop (E @ rest) 0 0 buf
        = decompress_loop (E @ rest) (length E) (length data) (data @ drop (length data) buf))"

lemma decodes_to_Nil: "decodes_to [] []"
  by (simp add: decodes_to_def)

lemma decodes_to_match:
  assumes E: "decodes_to E data" and m: "MIN_MATCH \<le> m" "length M = m"
    and d: "0 < d" "d \<le> length (data @ l)" "d \<le> MAX_DISTANCE"
    and eq: "\<And>j. length (data @ l) \<le> j \<Longrightarrow> j < length (data @ l @ M) \<Longrightarrow>
      (data @ l @ M) ! j = (data @ l @ M) ! (j - d)"
  shows "decodes_to (E @ match_bytes l d m) (data @ l @ M)"
  unfolding decodes_to_def
proof (intro allI impI)
  fix rest buf :: "u8 list"
  let ?in = "(E @ match_bytes l d m) @ rest"
  let ?buf = "data @ drop (length data) buf"
  assume size: "length ?in \<le> u64_max \<and> length buf \<le> u64_max \<and> length (data @ l @ M) \<le> length buf"
  have "decompress_loop ?in 0 0 buf = decompress_loop ?in (length E) (length data) ?buf"
    using E size unfolding decodes_to_def by (auto simp: append_assoc)
  also have "decompress_step ?in (length E) (length data) ?buf =
      Inr (Inr (length E + length (match_bytes l d m), length data + length l + m,
        copy_match m (length data + length l) d
          (take (length data) ?buf @ l @ drop (length data + length l) ?buf)))"
    by (rule decompress_step_match) (use size m d in auto)
  then have "decompress_loop ?in (length E) (length data) ?buf =
      decompress_loop ?in (length E + length (match_bytes l d m)) (length data + length l + m)
        (copy_match m (length data + length l) d
          (take (length data) ?buf @ l @ drop (length data + length l) ?buf))"
    by (subst decompress_loop.simps) simp
  also have "copy_match m (length data + length l) d
          (take (length data) ?buf @ l @ drop (length data + length l) ?buf)
      = take (length data + length l + m) (data @ l @ M)
        @ drop (length data + length l + m) (take (length data) ?buf @ l @ drop (length data + length l) ?buf)"
    by (rule copy_match_data) (use size m d eq in auto)
  also have "\<dots> = (data @ l @ M) @ drop (length (data @ l @ M)) buf"
    using m size by (simp add: ac_simps)
  finally show "decompress_loop ?in 0 0 buf = decompress_loop ?in (length (E @ match_bytes l d m))
      (length (data @ l @ M)) ((data @ l @ M) @ drop (length (data @ l @ M)) buf)"
    using m by (simp add: ac_simps)
qed

lemma decodes_to_last:
  assumes E: "decodes_to E data"
    and size: "length (E @ last_bytes l) \<le> u64_max" "length buf \<le> u64_max" "length (data @ l) \<le> length buf"
  shows "decompress (E @ last_bytes l) buf = Inr (length (data @ l), data @ l @ drop (length (data @ l)) buf)"
proof -
  have "decompress (E @ last_bytes l) buf
      = decompress_loop (E @ last_bytes l) (length E) (length data) (data @ drop (length data) buf)"
    using E size unfolding decodes_to_def decompress_def by auto
  moreover have "decompress_step (E @ last_bytes l) (length E) (length data) (data @ drop (length data) buf)
      = Inr (Inl (length data + length l, take (length data) (data @ drop (length data) buf) @ l
          @ drop (length data + length l) (data @ drop (length data) buf)))"
    by (rule decompress_step_last) (use size in auto)
  ultimately show ?thesis
    by (subst (asm) decompress_loop.simps) (simp add: ac_simps)
qed

section \<open>What the compressor finds\<close>

lemma bit_read32:
  "n < 32 \<Longrightarrow> bit (read32 b i) n = bit (b ! (i + n div 8)) (n mod 8)"
proof -
  assume "n < 32"
  define q r where "q = n div 8" and "r = n mod 8"
  have qr: "n div 8 = q" "n mod 8 = r" "n = 8 * q + r" by (simp_all add: q_def r_def)
  have "r < 8" "q \<in> {0, 1, 2, 3}" using \<open>n < 32\<close> by (auto simp: q_def r_def)
  moreover have over: "\<not> bit (w :: u8) (k + r)" if "8 \<le> k" for w k
    using that bit_imp_le_length [of w "k + r"] by auto
  ultimately have "bit (read32 b i) (8 * q + r) = bit (b ! (i + q)) r"
    by (elim insertE emptyE)
      (simp_all add: read32_def bit_or_iff bit_push_bit_iff bit_ucast_iff over)
  then show ?thesis by (simp only: qr(1,2) flip: qr(3))
qed

lemma read32_eq:
  assumes "read32 b i = read32 b k" "j < 4"
  shows "b ! (i + j) = b ! (k + j)"
proof (rule bit_word_eqI)
  fix n
  assume "n < LENGTH(8)"
  then have "(8 * j + n) div 8 = j" "(8 * j + n) mod 8 = n" "8 * j + n < 32" using assms(2) by auto
  then show "bit (b ! (i + j)) n = bit (b ! (k + j)) n"
    using bit_read32 [of "8 * j + n" b i] bit_read32 [of "8 * j + n" b k] assms(1) by simp
qed

lemma extend_back_facts:
  assumes "extend_back input anchor s c = (s', c')" "c \<le> s" "anchor \<le> s"
  shows "anchor \<le> s' \<and> s' \<le> s \<and> c' \<le> s' \<and> s' - c' = s - c
    \<and> (\<forall>j. s' \<le> j \<and> j < s \<longrightarrow> input ! j = input ! (j - (s - c)))"
  using assms
proof (induction input anchor s c rule: extend_back.induct)
  case (1 input anchor s c)
  show ?case
  proof (cases "s > anchor \<and> c > 0 \<and> input ! (s - 1) = input ! (c - 1)")
    case True
    have dist: "(s - 1) - (c - 1) = s - c" "s - 1 - (s - c) = c - 1" using True "1.prems" by auto
    have eq: "extend_back input anchor s c = extend_back input anchor (s - 1) (c - 1)"
      using True by (subst extend_back.simps) simp
    have IH: "anchor \<le> s' \<and> s' \<le> s - 1 \<and> c' \<le> s' \<and> s' - c' = (s - 1) - (c - 1)
      \<and> (\<forall>j. s' \<le> j \<and> j < s - 1 \<longrightarrow> input ! j = input ! (j - ((s - 1) - (c - 1))))"
      by (rule "1.IH" [OF True eq [symmetric, THEN trans, OF "1.prems"(1)]]) (use True "1.prems" in auto)
    moreover have "input ! j = input ! (j - (s - c))" if "s' \<le> j" "j < s" for j
    proof (cases "j = s - 1")
      case False
      with that have "j < s - 1" by simp
      with IH that(1) show ?thesis unfolding dist by blast
    qed (use True dist in simp)
    ultimately show ?thesis unfolding dist by auto
  next
    case False
    then have "extend_back input anchor s c = (s, c)" by (subst extend_back.simps) auto
    with "1.prems" show ?thesis by simp
  qed
qed

lemma extend_forward_facts:
  assumes "extend_forward input lim e c = (e', c')" "c \<le> e"
  shows "e \<le> e' \<and> e' \<le> max e lim \<and> (\<forall>j. e \<le> j \<and> j < e' \<longrightarrow> input ! j = input ! (j - (e - c)))"
  using assms
proof (induction input lim e c rule: extend_forward.induct)
  case (1 input lim e c)
  show ?case
  proof (cases "e < lim \<and> input ! e = input ! c")
    case True
    have "extend_forward input lim e c = extend_forward input lim (e + 1) (c + 1)"
      using True by (subst extend_forward.simps) simp
    with 1 True have IH: "e + 1 \<le> e' \<and> e' \<le> max (e + 1) lim
      \<and> (\<forall>j. e + 1 \<le> j \<and> j < e' \<longrightarrow> input ! j = input ! (j - (e + 1 - (c + 1))))"
      by simp
    moreover have "input ! j = input ! (j - (e - c))" if "e \<le> j" "j < e'" for j
      using that IH True "1.prems"(2) by (cases "j = e") auto
    ultimately show ?thesis using True by auto
  next
    case False
    then have "extend_forward input lim e c = (e, c)" by (subst extend_forward.simps) auto
    with "1.prems" show ?thesis by simp
  qed
qed

lemma length_ext_bytes: "length (ext_bytes n) = (if n \<ge> 15 then (n - 15) div 255 + 1 else 0)"
  by (simp add: ext_bytes_def length_bytes_def)

lemma match_bytes_size:
  assumes "MIN_MATCH \<le> m"
  shows "length (match_bytes l d m) \<le> length l + m + length l div 255"
proof -
  have "length (ext_bytes (length l)) \<le> 1 + length l div 255"
    by (auto simp: length_ext_bytes intro: div_le_mono)
  moreover have "length (ext_bytes (m - MIN_MATCH)) \<le> m - MIN_MATCH"
    unfolding length_ext_bytes by (auto intro: order_trans [OF div_le_dividend])
  ultimately show ?thesis using assms by (simp add: length_match_bytes MIN_MATCH_def)
qed

lemma last_bytes_size: "length (last_bytes l) \<le> length l + length l div 255 + 2"
  by (auto simp: last_bytes_def length_ext_bytes intro: div_le_mono)

lemma div_superadd: "a div 255 + b div 255 \<le> (a + b) div (255 :: nat)"
  using div_add1_eq [of a b 255] by linarith

lemma match_found:
  assumes ip: "12 < length input" "ip \<le> length input - MF_LIMIT" "anchor \<le> ip"
    and cand: "cand < ip" "ip - cand \<le> MAX_DISTANCE" "read32 input cand = read32 input ip"
    and bk: "extend_back input anchor ip cand = (s, c)"
    and fwd: "extend_forward input (length input - LAST_LITERALS) (ip + MIN_MATCH) (cand + MIN_MATCH) = (e, ce)"
  shows "anchor \<le> s \<and> s + MIN_MATCH \<le> e \<and> e \<le> length input - 5 \<and> 0 < s - c \<and> s - c \<le> s
    \<and> s - c \<le> MAX_DISTANCE \<and> (\<forall>j. s \<le> j \<and> j < e \<longrightarrow> input ! j = input ! (j - (s - c)))"
proof -
  have b: "anchor \<le> s" "s \<le> ip" "c \<le> s" "s - c = ip - cand"
    and bj: "\<And>j. s \<le> j \<Longrightarrow> j < ip \<Longrightarrow> input ! j = input ! (j - (ip - cand))"
    using extend_back_facts [OF bk] cand(1) ip(3) by auto
  have f: "ip + MIN_MATCH \<le> e" "e \<le> max (ip + MIN_MATCH) (length input - LAST_LITERALS)"
    and fj: "\<And>j. ip + MIN_MATCH \<le> j \<Longrightarrow> j < e \<Longrightarrow> input ! j = input ! (j - (ip - cand))"
    using extend_forward_facts [OF fwd] cand(1) by auto
  have mj: "input ! j = input ! (j - (ip - cand))" if "ip \<le> j" "j < ip + 4" for j
  proof -
    have "ip + (j - ip) = j" "cand + (j - ip) = j - (ip - cand)" using that cand(1) by auto
    then show ?thesis using read32_eq [OF cand(3), of "j - ip"] that by simp
  qed
  have "input ! j = input ! (j - (s - c))" if "s \<le> j" "j < e" for j
    using bj [of j] mj [of j] fj [of j] that unfolding b(4) MIN_MATCH_def by (meson not_le)
  moreover have "e \<le> length input - 5"
    using f(2) ip by (auto simp: MIN_MATCH_def LAST_LITERALS_def MF_LIMIT_def)
  ultimately show ?thesis
    using b f(1) cand(1,2) by auto
qed

definition comp_inv :: "u8 list \<Rightarrow> nat \<Rightarrow> lz4_state \<Rightarrow> bool" where
  "comp_inv input N st \<longleftrightarrow>
     length (wout (lw st)) = N \<and> wat (lw st) \<le> N \<and> lanchor st \<le> lip st \<and> lanchor st \<le> length input
   \<and> decodes_to (take (wat (lw st)) (wout (lw st))) (take (lanchor st) input)
   \<and> wat (lw st) \<le> lanchor st + lanchor st div 255"

lemma w_bytes_Some:
  "w_bytes b w = Some w' \<Longrightarrow> wat w' = wat w + length b \<and> length (wout w') = length (wout w)
     \<and> take (wat w') (wout w') = take (wat w) (wout w) @ b \<and> wat w' \<le> length (wout w')"
  by (auto simp: w_bytes_def split: if_splits)

lemma match_fits:
  assumes "at \<le> a + a div 255" "a \<le> s" "s + MIN_MATCH \<le> e" "s \<le> length input"
  shows "at + length (match_bytes (take (s - a) (drop a input)) d (e - s)) \<le> e + e div 255"
proof -
  have "length (match_bytes (take (s - a) (drop a input)) d (e - s)) \<le> (s - a) + (e - s) + (s - a) div 255"
    using match_bytes_size [of "e - s" "take (s - a) (drop a input)" d] assms by simp
  moreover have "a div 255 + (s - a) div 255 \<le> e div 255"
    using div_superadd [of a "s - a"] assms div_le_mono [of s e 255] by simp
  moreover have "a + ((s - a) + (e - s)) = e" using assms by simp
  ultimately show ?thesis using assms(1) by linarith
qed

lemma comp_inv_match:
  assumes inv: "comp_inv input N st"
    and m: "lanchor st \<le> s" "s + MIN_MATCH \<le> e" "e \<le> length input - 5" "0 < s - c" "s - c \<le> s"
      "s - c \<le> MAX_DISTANCE" "\<forall>j. s \<le> j \<and> j < e \<longrightarrow> input ! j = input ! (j - (s - c))"
    and w: "w_bytes (match_bytes (take (s - lanchor st) (drop (lanchor st) input)) (s - c) (e - s)) (lw st) = Some w"
  shows "comp_inv input N \<lparr> lw = w, lslots = sl, lanchor = e, lip = e, lmisses = k \<rparr>"
proof -
  let ?a = "lanchor st"
  let ?data = "take ?a input" and ?l = "take (s - ?a) (drop ?a input)" and ?M = "take (e - s) (drop s input)"
  have len: "length ?data = ?a" "length ?l = s - ?a" "length ?M = e - s" "?a \<le> length input"
    using m by auto
  have dl: "?data @ ?l = take s input"
    using m(1) take_add [of ?a "s - ?a" input] by simp
  have dlm: "?data @ ?l @ ?M = take e input"
    using dl m(2) take_add [of s "e - s" input] by (simp flip: append_assoc)
  have dec: "decodes_to (take (wat (lw st)) (wout (lw st)) @ match_bytes ?l (s - c) (e - s)) (take e input)"
    unfolding dlm [symmetric]
  proof (rule decodes_to_match)
    show "decodes_to (take (wat (lw st)) (wout (lw st))) ?data" using inv by (simp add: comp_inv_def)
    fix j
    assume "length (?data @ ?l) \<le> j" "j < length (?data @ ?l @ ?M)"
    then have "s \<le> j" "j < e" using len m by auto
    with m(7) show "(?data @ ?l @ ?M) ! j = (?data @ ?l @ ?M) ! (j - (s - c))"
      unfolding dlm by simp
  qed (use len m in auto)
  have "wat (lw st) + length (match_bytes ?l (s - c) (e - s)) \<le> e + e div 255"
    using inv m by (intro match_fits) (auto simp: comp_inv_def)
  then have "wat w \<le> e + e div 255" using w_bytes_Some [OF w] by simp
  moreover have "length (wout w) = N" "wat w \<le> N"
    using w_bytes_Some [OF w] inv by (auto simp: comp_inv_def)
  moreover have "decodes_to (take (wat w) (wout w)) (take e input)"
  proof -
    have "take (wat w) (wout w) = take (wat (lw st)) (wout (lw st)) @ match_bytes ?l (s - c) (e - s)"
      using w_bytes_Some [OF w] by blast
    with dec show ?thesis by (rule ssubst [rotated])
  qed
  moreover have "e \<le> length input" using m(3) by simp
  ultimately show ?thesis by (simp add: comp_inv_def)
qed

text \<open>A turn of the loop either steps over a byte or writes a match that is really there.\<close>

lemma compress_step_cases:
  assumes ip: "12 < length input" "lip st \<le> length input - MF_LIMIT" "lanchor st \<le> lip st"
  obtains (miss) sl ip' k where "lip st < ip'"
      "compress_step input st = Some (st\<lparr> lslots := sl, lip := ip', lmisses := k \<rparr>)"
    | (found) s c e sl where "lanchor st \<le> s" "s + MIN_MATCH \<le> e" "e \<le> length input - 5" "0 < s - c"
      "s - c \<le> s" "s - c \<le> MAX_DISTANCE" "\<forall>j. s \<le> j \<and> j < e \<longrightarrow> input ! j = input ! (j - (s - c))"
      "compress_step input st =
        map_option (\<lambda>w. \<lparr> lw = w, lslots = sl, lanchor = e, lip = e, lmisses = 0 \<rparr>)
          (w_bytes (match_bytes (take (s - lanchor st) (drop (lanchor st) input)) (s - c) (e - s)) (lw st))"
proof -
  let ?ip = "lip st"
  define cand where "cand = unat (lslots st ! lz4_hash (read32 input ?ip))"
  obtain s c where b: "extend_back input (lanchor st) ?ip cand = (s, c)" by fastforce
  obtain e ce where f: "extend_forward input (length input - LAST_LITERALS) (?ip + MIN_MATCH) (cand + MIN_MATCH) = (e, ce)"
    by fastforce
  show thesis
  proof (cases "cand < ?ip \<and> ?ip - cand \<le> MAX_DISTANCE \<and> read32 input cand = read32 input ?ip")
    case True
    note facts = match_found [OF ip _ _ _ b f]
    show thesis
      by (rule found [of s e c "(lslots st)[lz4_hash (read32 input ?ip) := of_nat ?ip,
            lz4_hash (read32 input (e - 2)) := of_nat (e - 2)]"])
        (use facts True b f in
        \<open>auto simp: compress_step_def Let_def cand_def [symmetric] w_sequence_match map_conv_bind_option comp_def\<close>)
  next
    case False
    then show thesis
      by (intro miss [of "?ip + 1 + drop_bit 6 (lmisses st + 1)"])
        (auto simp: compress_step_def Let_def cand_def [symmetric])
  qed
qed

lemma comp_inv_step:
  assumes inv: "comp_inv input N st" and ip: "12 < length input" "lip st \<le> length input - MF_LIMIT"
  shows "compress_step input st = Some st' \<Longrightarrow> comp_inv input N st'"
    and "lz4_bound (length input) \<le> N \<Longrightarrow> compress_step input st \<noteq> None"
proof -
  have a: "lanchor st \<le> lip st" using inv by (simp add: comp_inv_def)
  show "comp_inv input N st'" if "compress_step input st = Some st'"
    using ip a
  proof (cases rule: compress_step_cases)
    case (miss sl ip' k)
    with that inv show ?thesis by (auto simp: comp_inv_def)
  next
    case (found s c e sl)
    with that obtain w where "w_bytes (match_bytes (take (s - lanchor st) (drop (lanchor st) input)) (s - c) (e - s))
        (lw st) = Some w" "st' = \<lparr> lw = w, lslots = sl, lanchor = e, lip = e, lmisses = 0 \<rparr>"
      by auto
    with comp_inv_match [OF inv found(1-7)] show ?thesis by simp
  qed
  show "compress_step input st \<noteq> None" if "lz4_bound (length input) \<le> N"
    using ip a
  proof (cases rule: compress_step_cases)
    case (found s c e sl)
    have "wat (lw st) + length (match_bytes (take (s - lanchor st) (drop (lanchor st) input)) (s - c) (e - s))
        \<le> e + e div 255"
      using inv found by (intro match_fits) (auto simp: comp_inv_def)
    also have "\<dots> \<le> lz4_bound (length input)"
      using found(3) div_le_mono [of e "length input" 255] unfolding lz4_bound_def by linarith
    finally show ?thesis
      using inv that found(8) by (auto simp: comp_inv_def w_bytes_def)
  qed simp
qed

lemma comp_inv_loop:
  assumes "comp_inv input N st" "12 < length input"
  shows "(\<forall>st'. compress_loop input st = Some st' \<longrightarrow> comp_inv input N st')
    \<and> (lz4_bound (length input) \<le> N \<longrightarrow> compress_loop input st \<noteq> None)"
  using assms
proof (induction input st rule: compress_loop.induct)
  case (1 input st)
  show ?case
  proof (cases "lip st \<le> length input - MF_LIMIT")
    case True
    show ?thesis
    proof (cases "compress_step input st")
      case None
      with True comp_inv_step(2) [OF "1.prems" True] show ?thesis
        by (auto simp: compress_loop.simps [of input st])
    next
      case (Some st')
      with True have "compress_loop input st = compress_loop input st'"
        by (subst compress_loop.simps) simp
      with "1.IH" [OF True Some comp_inv_step(1) [OF "1.prems" True Some] "1.prems"(2)]
      show ?thesis by simp
    qed
  next
    case False
    then have "compress_loop input st = Some st" by (subst compress_loop.simps) simp
    with "1.prems" show ?thesis by simp
  qed
qed

lemma compress_result:
  assumes "compress input out table = Some (k, out', table')"
  obtains E a where "take k out' = E @ last_bytes (drop a input)" "decodes_to E (take a input)"
    "k \<le> length out'" "length out' = length out" "a \<le> length input" "length input < 2 ^ 32"
    "length E \<le> a + a div 255"
proof -
  let ?st0 = "\<lparr> lw = \<lparr> wout = out, wat = 0 \<rparr>, lslots = (if length input > MF_LIMIT then replicate TABLE_LEN 0 else table),
    lanchor = 0, lip = 0, lmisses = 0 \<rparr>"
  have inv0: "comp_inv input (length out) ?st0" by (simp add: comp_inv_def decodes_to_Nil)
  from assms obtain st w where
    st: "(if length input > MF_LIMIT then compress_loop input ?st0 else Some ?st0) = Some st"
    and w: "w_bytes (last_bytes (drop (lanchor st) input)) (lw st) = Some w"
    and k: "k = wat w" "out' = wout w" and n: "length input < 2 ^ 32"
    by (auto simp: compress_def Let_def w_sequence_last not_le split: if_splits bind_splits)
  have "comp_inv input (length out) st"
    using st inv0 comp_inv_loop [OF inv0] by (auto simp: MF_LIMIT_def split: if_splits)
  with w_bytes_Some [OF w] k n show thesis
    by (intro that [of "take (wat (lw st)) (wout (lw st))" "lanchor st"]) (auto simp: comp_inv_def)
qed

section \<open>Properties\<close>

lemma compress_fits:
  assumes "length input < 2 ^ 32" "lz4_bound (length input) \<le> length out"
  shows "\<exists>k out' table'. compress input out table = Some (k, out', table')
    \<and> k \<le> length out' \<and> length out' = length out"
proof -
  let ?st0 = "\<lparr> lw = \<lparr> wout = out, wat = 0 \<rparr>, lslots = (if length input > MF_LIMIT then replicate TABLE_LEN 0 else table),
    lanchor = 0, lip = 0, lmisses = 0 \<rparr>"
  have inv0: "comp_inv input (length out) ?st0" by (simp add: comp_inv_def decodes_to_Nil)
  obtain st where st: "(if length input > MF_LIMIT then compress_loop input ?st0 else Some ?st0) = Some st"
    and inv: "comp_inv input (length out) st"
    using inv0 comp_inv_loop [OF inv0] assms(2) by (cases "length input > MF_LIMIT") (auto simp: MF_LIMIT_def)
  let ?a = "lanchor st"
  have "length (last_bytes (drop ?a input)) \<le> (length input - ?a) + (length input - ?a) div 255 + 2"
    using last_bytes_size [of "drop ?a input"] by simp
  moreover have "?a \<le> length input" "wat (lw st) \<le> ?a + ?a div 255" "length (wout (lw st)) = length out"
    using inv by (simp_all add: comp_inv_def)
  moreover from this have "?a div 255 + (length input - ?a) div 255 \<le> length input div 255"
    using div_superadd [of ?a "length input - ?a"] by simp
  ultimately have "wat (lw st) + length (last_bytes (drop ?a input)) \<le> length (wout (lw st))"
    using assms(2) unfolding lz4_bound_def by linarith
  then obtain w where w: "w_bytes (last_bytes (drop ?a input)) (lw st) = Some w"
    by (simp add: w_bytes_def)
  have "compress input out table = Some (wat w, wout w, lslots st)"
    using st w assms(1) by (simp add: compress_def Let_def w_sequence_last)
  with w_bytes_Some [OF w] inv show ?thesis by (auto simp: comp_inv_def)
qed

text \<open>
  C14: Compression loses nothing: whenever \<open>compress\<close> returns a block, for any input below 4 GiB, any
  output buffer and any contents of the hash table, decoding that block into a buffer of the
  input's size gives back exactly the input.
\<close>

theorem lz4_round_trip:
  assumes "compress input out table = Some (k, out', table')" "length buf = length input"
  shows "decompress_exact (take k out') buf = Inr input"
proof -
  from assms(1) obtain E a where E: "take k out' = E @ last_bytes (drop a input)" "decodes_to E (take a input)"
    "a \<le> length input" "length input < 2 ^ 32" "length E \<le> a + a div 255"
    by (rule compress_result) blast
  have "length (E @ last_bytes (drop a input)) \<le> a + a div 255 + ((length input - a) + (length input - a) div 255 + 2)"
    using E(5) last_bytes_size [of "drop a input"] by simp
  also have "\<dots> \<le> 2 * length input + 2" using E(3) div_le_dividend [of a 255] div_le_dividend [of "length input - a" 255]
    div_superadd [of a "length input - a"] div_le_dividend [of "length input" 255] by simp
  also have "\<dots> \<le> u64_max" using E(4) by (simp add: u64_max_def)
  finally have "decompress (E @ last_bytes (drop a input)) buf
      = Inr (length (take a input @ drop a input), take a input @ drop a input
          @ drop (length (take a input @ drop a input)) buf)"
    using E(3,4) assms(2) by (intro decodes_to_last [OF E(2)]) (simp_all add: u64_max_def)
  then show ?thesis
    unfolding E(1) using assms(2) by (simp add: decompress_exact_def flip: append_assoc)
qed

theorem lz4_round_trip_witness:
  "\<exists>k out' table'. compress (replicate 40 7) (replicate 60 0) table_new = Some (k, out', table')
    \<and> decompress_exact (take k out') (replicate 40 0) = Inr (replicate 40 7)"
proof -
  obtain k out' table' where c: "compress (replicate 40 7) (replicate 60 0) table_new = Some (k, out', table')"
    using compress_fits [of "replicate 40 7" "replicate 60 0" table_new] by (auto simp: lz4_bound_def)
  from lz4_round_trip [OF this, of "replicate 40 0"] c show ?thesis by auto
qed

text \<open>
   A buffer of \<open>bound\<close> bytes is always enough: for any input below 4 GiB \<open>compress\<close> then returns a
  block, and the block is no longer than the buffer.
\<close>

theorem lz4_bound_fits:
  assumes "length input < 2 ^ 32" "lz4_bound (length input) \<le> length out"
  shows "\<exists>k out' table'. compress input out table = Some (k, out', table')
    \<and> k \<le> length out' \<and> length out' = length out"
  using assms by (rule compress_fits)

theorem lz4_bound_fits_witness:
  "\<exists>k out' table'. compress (replicate 40 7) (replicate 60 0) table_new = Some (k, out', table')
    \<and> k \<le> length out' \<and> length out' = length (replicate 60 (0 :: u8))"
  by (rule lz4_bound_fits) (simp_all add: lz4_bound_def)

text \<open>The decoder on arbitrary bytes.\<close>

lemma length_copy_overlapping: "length (copy_overlapping k i d out) = length out"
  by (induction k arbitrary: i out) simp_all

lemma drop_copy_overlapping: "i + k \<le> j \<Longrightarrow> drop j (copy_overlapping k i d out) = drop j out"
  by (induction k arbitrary: i out) (simp_all add: drop_update_cancel)

lemma copy_match_frame:
  assumes "op + ml \<le> length out" "d \<le> op"
  shows "length (copy_match ml op d out) = length out \<and> drop (op + ml) (copy_match ml op d out) = drop (op + ml) out"
  using assms by (auto simp: copy_match_def length_copy_overlapping drop_copy_overlapping)

lemma decompress_step_frame:
  assumes "op \<le> length out"
  shows "decompress_step input ip op out = Inr (Inl (n, out')) \<Longrightarrow>
      op \<le> n \<and> n \<le> length out \<and> length out' = length out \<and> drop n out' = drop n out"
    and "decompress_step input ip op out = Inr (Inr (ip', op', out')) \<Longrightarrow>
      op \<le> op' \<and> op' \<le> length out \<and> length out' = length out \<and> drop op' out' = drop op' out"
proof -
  show "op \<le> n \<and> n \<le> length out \<and> length out' = length out \<and> drop n out' = drop n out"
    if "decompress_step input ip op out = Inr (Inl (n, out'))"
    using that assms unfolding decompress_step_def Let_def
    by (auto simp: checked_add64_def split: if_splits sum.splits option.splits)
  show "op \<le> op' \<and> op' \<le> length out \<and> length out' = length out \<and> drop op' out' = drop op' out"
    if "decompress_step input ip op out = Inr (Inr (ip', op', out'))"
    using that assms unfolding decompress_step_def Let_def
    by (auto simp: checked_add64_def copy_match_frame split: if_splits sum.splits option.splits)
      (simp_all add: add.commute)
qed

lemma decompress_loop_frame:
  "op \<le> length out \<Longrightarrow> decompress_loop input ip op out = Inr (n, out') \<Longrightarrow>
     op \<le> n \<and> n \<le> length out \<and> length out' = length out \<and> drop n out' = drop n out"
proof (induction input ip op out rule: decompress_loop.induct)
  case (1 input ip op out)
  show ?case
  proof (cases "decompress_step input ip op out")
    case (Inl e)
    with "1.prems" show ?thesis by (simp add: decompress_loop.simps [of input ip op out])
  next
    case (Inr r)
    show ?thesis
    proof (cases r)
      case (Inl x)
      with Inr "1.prems" show ?thesis
        using decompress_step_frame(1) [OF "1.prems"(1), of input ip n out']
        by (simp add: decompress_loop.simps [of input ip op out])
    next
      case r: (Inr y)
      obtain ip' op' o' where y: "y = (ip', op', o')" by (cases y)
      have step: "decompress_step input ip op out = Inr (Inr (ip', op', o'))" using Inr r y by simp
      from decompress_step_frame(2) [OF "1.prems"(1) step]
      have f: "op' \<le> length o'" "length o' = length out" "drop op' o' = drop op' out" by auto
      have "decompress_loop input ip' op' o' = Inr (n, out')"
        using "1.prems"(2) step by (simp add: decompress_loop.simps [of input ip op out])
      from "1.IH" [OF Inr r y [symmetric] refl f(1) this]
      have "op' \<le> n" "n \<le> length o'" "length out' = length o'" "drop n out' = drop n o'" by auto
      moreover have "drop n o' = drop n out"
        using f(3) \<open>op' \<le> n\<close> by (metis drop_drop le_add_diff_inverse2)
      ultimately show ?thesis
        using decompress_step_frame(2) [OF "1.prems"(1) step] by auto
    qed
  qed
qed

text \<open>What the decoder writes depends on what it has written, not on what the buffer held.\<close>

lemma copy_overlapping_prefix:
  "0 < d \<Longrightarrow> d \<le> length p \<Longrightarrow>
    \<exists>x. length x = k \<and> (\<forall>r. k \<le> length r \<longrightarrow> copy_overlapping k (length p) d (p @ r) = p @ x @ drop k r)"
proof (induction k arbitrary: p)
  case (Suc k)
  define c where "c = p ! (length p - d)"
  from Suc.IH [of "p @ [c]"] Suc.prems obtain x where x: "length x = k"
    "\<forall>r. k \<le> length r \<longrightarrow> copy_overlapping k (length p + 1) d (p @ c # r) = p @ c # x @ drop k r" by auto
  have "copy_overlapping (Suc k) (length p) d (p @ r) = p @ (c # x) @ drop (Suc k) r" if "Suc k \<le> length r" for r
  proof -
    obtain a r' where r: "r = a # r'" using \<open>Suc k \<le> length r\<close> by (cases r) auto
    have "(p @ r)[length p := (p @ r) ! (length p - d)] = p @ c # r'"
      using Suc.prems by (auto simp: r nth_append c_def)
    then show ?thesis using x(2) that by (simp add: r)
  qed
  then show ?case using x(1) by (intro exI [of _ "c # x"]) simp
qed simp

lemma copy_match_prefix:
  assumes "0 < d" "d \<le> length p"
  shows "\<exists>x. length x = ml \<and> (\<forall>r. ml \<le> length r \<longrightarrow> copy_match ml (length p) d (p @ r) = p @ x @ drop ml r)"
proof (cases "ml \<le> d")
  case True
  then show ?thesis using assms
    by (intro exI [of _ "take ml (drop (length p - d) p)"]) (simp add: copy_match_def)
next
  case False
  then show ?thesis using copy_overlapping_prefix [OF assms, of ml] by (simp add: copy_match_def)
qed

text \<open>A step in two phases: the literals, and the match that follows them.\<close>

definition lit_phase :: "u8 list \<Rightarrow> nat \<Rightarrow> nat \<Rightarrow> nat \<Rightarrow> lz4_error + nat \<times> nat" where
  "lit_phase input ip op cap =
     (if \<not> ip < length input then Inl Truncated
      else case nibble_length input (ip + 1) (unat (drop_bit 4 (input ! ip))) of
        Inl e \<Rightarrow> Inl e
      | Inr (lit, ip) \<Rightarrow>
          if ip + lit > u64_max \<or> ip + lit > length input then Inl Truncated
          else if op + lit > u64_max \<or> op + lit > cap then Inl Overflow
          else Inr (lit, ip))"

definition match_phase :: "u8 list \<Rightarrow> nat \<Rightarrow> nat \<Rightarrow> nat \<Rightarrow> nat \<Rightarrow> lz4_error + nat \<times> nat \<times> nat" where
  "match_phase input nib ip op cap =
     (if ip + 2 > length input then Inl Truncated
      else let d = unat (input ! ip) + 256 * unat (input ! (ip + 1))
      in if d = 0 \<or> d > op then Inl BadDistance
      else case nibble_length input (ip + 2) nib of
        Inl e \<Rightarrow> Inl e
      | Inr (ml, ip) \<Rightarrow>
          if op + (ml + MIN_MATCH) > u64_max \<or> op + (ml + MIN_MATCH) > cap then Inl Overflow
          else Inr (d, ml + MIN_MATCH, ip))"

lemma decompress_step_phases:
  "decompress_step input ip op out =
     (case lit_phase input ip op (length out) of
        Inl e \<Rightarrow> Inl e
      | Inr (lit, ip1) \<Rightarrow>
          let out = take op out @ take lit (drop ip1 input) @ drop (op + lit) out
          in if ip1 + lit = length input then Inr (Inl (op + lit, out))
          else case match_phase input (unat (input ! ip AND 15)) (ip1 + lit) (op + lit) (length out) of
            Inl e \<Rightarrow> Inl e
          | Inr (d, ml, ip2) \<Rightarrow> Inr (Inr (ip2, op + lit + ml, copy_match ml (op + lit) d out)))"
proof (cases "\<exists>lit ip1. ip < length input \<and>
    nibble_length input (ip + 1) (unat (drop_bit 4 (input ! ip))) = Inr (lit, ip1)")
  case False
  then show ?thesis
    by (auto simp: decompress_step_def lit_phase_def Let_def split: sum.splits)
next
  case True
  then obtain lit ip1 where n: "ip < length input"
    "nibble_length input (ip + 1) (unat (drop_bit 4 (input ! ip))) = Inr (lit, ip1)" by blast
  show ?thesis
  proof (cases "nibble_length input (ip1 + lit + 2) (unat (input ! ip AND 15))")
    case (Inl e)
    with n show ?thesis
      by (simp add: decompress_step_def lit_phase_def match_phase_def Let_def checked_add64_def)
  next
    case (Inr m)
    with n show ?thesis
      by (cases m) (simp add: decompress_step_def lit_phase_def match_phase_def Let_def checked_add64_def)
  qed
qed

lemma decompress_step_prefix [consumes 1, case_names error stop step]:
  assumes "length r1 = length r2"
  obtains (error) e where "decompress_step input ip (length p) (p @ r1) = Inl e"
      "decompress_step input ip (length p) (p @ r2) = Inl e"
    | (stop) x where "length x \<le> length r1"
      "\<forall>r \<in> {r1, r2}. decompress_step input ip (length p) (p @ r)
          = Inr (Inl (length (p @ x), (p @ x) @ drop (length x) r))"
    | (step) x ip' where "length x \<le> length r1"
      "\<forall>r \<in> {r1, r2}. decompress_step input ip (length p) (p @ r)
          = Inr (Inr (ip', length (p @ x), (p @ x) @ drop (length x) r))"
proof (cases "lit_phase input ip (length p) (length (p @ r1))")
  case (Inl e)
  then show ?thesis using assms by (intro error [of e]) (simp_all add: decompress_step_phases)
next
  case (Inr y)
  then obtain lit ip1 where y: "lit_phase input ip (length p) (length (p @ r1)) = Inr (lit, ip1)" by (cases y) auto
  then have lit: "lit \<le> length r1" "ip1 + lit \<le> length input"
    by (auto simp: lit_phase_def split: if_splits sum.splits)
  define src where "src = take lit (drop ip1 input)"
  have src: "length src = lit" using lit(2) by (simp add: src_def)
  have out: "take (length p) (p @ r) @ src @ drop (length p + lit) (p @ r) = (p @ src) @ drop lit r" for r by simp
  show ?thesis
  proof (cases "ip1 + lit = length input")
    case True
    then show ?thesis using y lit src assms
      by (intro stop [of src]) (simp_all add: decompress_step_phases src_def [symmetric] Let_def)
  next
    case False
    define m where "m = match_phase input (unat (input ! ip AND 15)) (ip1 + lit) (length p + lit) (length (p @ r1))"
    have st: "decompress_step input ip (length p) (p @ r) = (case m of
            Inl e \<Rightarrow> Inl e
          | Inr (d, ml, ip2) \<Rightarrow> Inr (Inr (ip2, length p + lit + ml, copy_match ml (length (p @ src)) d ((p @ src) @ drop lit r))))"
      if "length r = length r1" for r
      using that y lit(1) False src
      by (simp add: decompress_step_phases src_def [symmetric] Let_def m_def split: sum.splits prod.splits)
    show ?thesis
    proof (cases m)
      case (Inl e)
      then show ?thesis using st assms by (intro error [of e]) simp_all
    next
      case (Inr z)
      then obtain d ml ip2 where z: "m = Inr (d, ml, ip2)" by (cases z) auto
      then have d: "0 < d" "d \<le> length (p @ src)" "lit + ml \<le> length r1"
        by (auto simp: m_def match_phase_def Let_def src split: if_splits sum.splits)
      obtain x where x: "length x = ml"
        "\<forall>r. ml \<le> length r \<longrightarrow> copy_match ml (length (p @ src)) d ((p @ src) @ r) = (p @ src) @ x @ drop ml r"
        using copy_match_prefix [OF d(1,2)] by blast
      have "decompress_step input ip (length p) (p @ r)
          = Inr (Inr (ip2, length (p @ src @ x), (p @ src @ x) @ drop (length (src @ x)) r))"
        if "length r = length r1" for r
      proof -
        have "ml \<le> length (drop lit r)" using that d(3) by simp
        then show ?thesis using st [OF that] x z src by (simp add: add.assoc add.commute)
      qed
      then show ?thesis using assms d(3) x(1) src by (intro step [of "src @ x" ip2]) simp_all
    qed
  qed
qed

lemma decompress_loop_prefix:
  assumes "length r1 = length r2"
  shows "(\<exists>e. decompress_loop input ip (length p) (p @ r1) = Inl e \<and> decompress_loop input ip (length p) (p @ r2) = Inl e)
    \<or> (\<exists>x. length x \<le> length r1 \<and> (\<forall>r \<in> {r1, r2}. decompress_loop input ip (length p) (p @ r)
          = Inr (length (p @ x), (p @ x) @ drop (length x) r)))"
  using assms
proof (induction "length input - ip" arbitrary: ip p r1 r2 rule: less_induct)
  case less
  from less.prems show ?case
  proof (cases rule: decompress_step_prefix [of _ _ input ip p])
    case (error e)
    then show ?thesis by (simp add: decompress_loop.simps [of input ip])
  next
    case (stop x)
    then show ?thesis by (intro disjI2 exI [of _ x]) (simp add: decompress_loop.simps [of input ip])
  next
    case (step x ip')
    have adv: "length input - ip' < length input - ip"
      using decompress_step_advances [of input ip "length p" "p @ r1"] step(2) by fastforce
    have go: "decompress_loop input ip (length p) (p @ r) = decompress_loop input ip' (length (p @ x)) ((p @ x) @ drop (length x) r)"
      if "r \<in> {r1, r2}" for r
      using step(2) that by (subst decompress_loop.simps) fastforce
    have len: "length (drop (length x) r1) = length (drop (length x) r2)" using less.prems by simp
    from less.hyps [OF adv len, of "p @ x"] show ?thesis
    proof
      assume "\<exists>e. decompress_loop input ip' (length (p @ x)) ((p @ x) @ drop (length x) r1) = Inl e \<and>
          decompress_loop input ip' (length (p @ x)) ((p @ x) @ drop (length x) r2) = Inl e"
      then show ?thesis using go by (metis insertCI)
    next
      assume "\<exists>y. length y \<le> length (drop (length x) r1) \<and> (\<forall>r \<in> {drop (length x) r1, drop (length x) r2}.
          decompress_loop input ip' (length (p @ x)) ((p @ x) @ r)
          = Inr (length ((p @ x) @ y), ((p @ x) @ y) @ drop (length y) r))"
      then obtain y where y: "length y \<le> length (drop (length x) r1)"
        "\<forall>r \<in> {drop (length x) r1, drop (length x) r2}.
          decompress_loop input ip' (length (p @ x)) ((p @ x) @ r)
          = Inr (length ((p @ x) @ y), ((p @ x) @ y) @ drop (length y) r)" by blast
      then show ?thesis using go step(1)
        by (intro disjI2 exI [of _ "x @ y"]) (auto simp: add.commute)
    qed
  qed
qed

lemma decompress_exact_any_buffer:
  "length o1 = length o2 \<Longrightarrow> decompress_exact input o1 = decompress_exact input o2"
  using decompress_loop_prefix [of o1 o2 input 0 "[]"]
  by (auto simp: decompress_exact_def decompress_def)


end
