(* ===== verification/Frames.thy ===== *)
theory Frames
  imports Prelude "HOL-Library.Monad_Syntax"
begin

text \<open>
  \<^verbatim>\<open>crates/nanochrono-core/src/frames.rs\<close>: the physical page allocator, a fixed table of free
  ranges.  The live part \<open>ranges[..len]\<close> of the array is a list, its capacity the field \<open>cap\<close> (the
  const parameter \<open>N\<close>); addresses are \<open>nat\<close> below \<open>2 ^ 64\<close> with the saturating and checked
  additions written out; the statistic \<open>dropped\<close> is not truncated.  Against the set of free
  addresses the operations are shown exact up to the bytes they report as dropped, \<open>alloc\<close> optimal,
  and no byte is ever handed out twice.
\<close>

section \<open>The allocator\<close>

definition PAGE :: nat where "PAGE = 4096"

record range =
  base :: nat
  rend :: nat

definition range_len :: "range \<Rightarrow> nat" where
  "range_len r = rend r - base r"

definition range_is_empty :: "range \<Rightarrow> bool" where
  "range_is_empty r \<longleftrightarrow> rend r \<le> base r"

definition align_down :: "nat \<Rightarrow> nat \<Rightarrow> nat" where
  "align_down x align = x AND not64 (align - 1)"

definition align_up :: "nat \<Rightarrow> nat \<Rightarrow> nat option" where
  "align_up x align =
     (case checked_add64 x (align - 1) of
        Some v \<Rightarrow> Some (v AND not64 (align - 1))
      | None \<Rightarrow> None)"

record frames =
  ranges :: "range list"
  cap :: nat
  dropped :: nat
  closed :: bool

definition frames_new :: "nat \<Rightarrow> frames" where
  "frames_new N = \<lparr> ranges = [], cap = N, dropped = 0, closed = False \<rparr>"

definition free_bytes :: "frames \<Rightarrow> nat" where
  "free_bytes f = sum_list (map range_len (ranges f))"

definition delete_at :: "nat \<Rightarrow> range list \<Rightarrow> range list" where
  "delete_at i rs = take i rs @ drop (i + 1) rs"

definition place_at :: "nat \<Rightarrow> range \<Rightarrow> range list \<Rightarrow> range list" where
  "place_at i r rs = take i rs @ r # drop i rs"

text \<open>The loop of \<open>insert\<close> that swallows every range touching \<open>[b, e)\<close>.\<close>

function swallow :: "nat \<Rightarrow> nat \<Rightarrow> nat \<Rightarrow> range list \<Rightarrow> nat \<times> nat \<times> range list" where
  "swallow i b e rs =
     (if i < length rs
      then
        let r = rs ! i in
        if rend r \<ge> b \<and> base r \<le> e
        then swallow i (min b (base r)) (max e (rend r)) (delete_at i rs)
        else swallow (i + 1) b e rs
      else (b, e, rs))"
  by pat_completeness auto
termination
  by (relation "measure (\<lambda>(i, _, _, rs). length rs - i)") (auto simp: delete_at_def)

declare swallow.simps [simp del]

text \<open>\<^verbatim>\<open>position(|r| r.base > b).unwrap_or(len)\<close>, and \<^verbatim>\<open>enumerate().min_by_key(len)\<close> (the first smallest).\<close>

definition position_after :: "nat \<Rightarrow> range list \<Rightarrow> nat" where
  "position_after b rs = length (takeWhile (\<lambda>r. \<not> base r > b) rs)"

fun smallest :: "nat \<Rightarrow> range list \<Rightarrow> (nat \<times> nat) option" where
  "smallest i [] = None"
| "smallest i (r # rs) =
     (case smallest (i + 1) rs of
        None \<Rightarrow> Some (i, range_len r)
      | Some (j, l) \<Rightarrow> if range_len r \<le> l then Some (i, range_len r) else Some (j, l))"

definition insert_range :: "nat \<Rightarrow> nat \<Rightarrow> frames \<Rightarrow> frames" where
  "insert_range b e f =
     (if e \<le> b then f
      else
        let (b, e, rs) = swallow 0 b e (ranges f);
            i = position_after b rs
        in if length rs = cap f
           then
             let (small, small_len) = (case smallest 0 rs of None \<Rightarrow> (0, 0) | Some p \<Rightarrow> p)
             in if cap f = 0 \<or> small_len \<ge> e - b
                then f\<lparr> ranges := rs, dropped := dropped f + (e - b) \<rparr>
                else
                  let rs = delete_at small rs; i = position_after b rs
                  in f\<lparr> ranges := place_at i \<lparr> base = b, rend = e \<rparr> rs, dropped := dropped f + small_len \<rparr>
           else f\<lparr> ranges := place_at i \<lparr> base = b, rend = e \<rparr> rs \<rparr>)"

function remove_loop :: "nat \<Rightarrow> nat \<Rightarrow> nat \<Rightarrow> nat \<Rightarrow> range list \<Rightarrow> nat \<Rightarrow> range list \<times> nat" where
  "remove_loop N lo hi i rs d =
     (if i < length rs
      then
        let r = rs ! i in
        if rend r \<le> lo \<or> base r \<ge> hi then remove_loop N lo hi (i + 1) rs d
        else
          let left = \<lparr> base = base r, rend = max lo (base r) \<rparr>;
              right = \<lparr> base = min hi (rend r), rend = rend r \<rparr>
          in case (range_is_empty left, range_is_empty right) of
               (True, True) \<Rightarrow> remove_loop N lo hi i (delete_at i rs) d
             | (False, True) \<Rightarrow> remove_loop N lo hi (i + 1) (rs[i := left]) d
             | (True, False) \<Rightarrow> remove_loop N lo hi (i + 1) (rs[i := right]) d
             | (False, False) \<Rightarrow>
                 if length rs = N
                 then
                   if range_len left \<ge> range_len right
                   then remove_loop N lo hi (i + 1) (rs[i := left]) (d + range_len right)
                   else remove_loop N lo hi (i + 1) (rs[i := right]) (d + range_len left)
                 else remove_loop N lo hi (i + 2) (place_at (i + 1) right (rs[i := left])) d
      else (rs, d))"
  by pat_completeness auto
termination
  by (relation "measure (\<lambda>(_, _, _, i, rs, _). length rs - i)") (auto simp: delete_at_def place_at_def)

declare remove_loop.simps [simp del]

definition remove :: "nat \<Rightarrow> nat \<Rightarrow> frames \<Rightarrow> frames" where
  "remove lo hi f =
     (let (rs, d) = remove_loop (cap f) lo hi 0 (ranges f) (dropped f)
      in f\<lparr> ranges := rs, dropped := d \<rparr>)"

definition add :: "nat \<Rightarrow> nat \<Rightarrow> frames \<Rightarrow> frames \<times> bool" where
  "add b len f =
     (if closed f then (f, False)
      else
        let e = sat_add64 b len in
        case align_up b PAGE of
          None \<Rightarrow> (f, True)
        | Some lo \<Rightarrow>
            let hi = align_down e PAGE
            in (if hi > lo then insert_range lo hi f else f, True))"

definition reserve :: "nat \<Rightarrow> nat \<Rightarrow> frames \<Rightarrow> frames" where
  "reserve b len f =
     (let f = f\<lparr> closed := True \<rparr> in
      if len = 0 then f
      else
        let lo = align_down b PAGE;
            hi = (case align_up (sat_add64 b len) PAGE of Some h \<Rightarrow> h | None \<Rightarrow> not64 (PAGE - 1))
        in remove lo hi f)"

text \<open>The search of \<open>alloc\<close>, over the ranges from the last to the first.\<close>

fun alloc_search :: "nat \<Rightarrow> nat \<Rightarrow> nat \<Rightarrow> range list \<Rightarrow> nat option" where
  "alloc_search len align ceiling [] = None"
| "alloc_search len align ceiling (r # rs) =
     (let top = min (rend r) ceiling in
      if top \<le> base r \<or> top - base r < len then alloc_search len align ceiling rs
      else
        let start = align_down (top - len) align
        in if start \<ge> base r then Some start else alloc_search len align ceiling rs)"

definition alloc :: "nat \<Rightarrow> nat \<Rightarrow> nat \<Rightarrow> frames \<Rightarrow> frames \<times> nat option" where
  "alloc len align ceiling f =
     (let f = f\<lparr> closed := True \<rparr> in
      if len = 0 \<or> \<not> is_power_of_two align then (f, None)
      else
        let align = max align PAGE in
        case align_up len PAGE of
          None \<Rightarrow> (f, None)
        | Some len \<Rightarrow>
            let ceiling = align_down ceiling PAGE
            in case alloc_search len align ceiling (rev (ranges f)) of
                 None \<Rightarrow> (f, None)
               | Some start \<Rightarrow> (remove start (start + len) f, Some start))"

definition free :: "nat \<Rightarrow> nat \<Rightarrow> frames \<Rightarrow> frames \<times> bool" where
  "free b len f =
     (let f = f\<lparr> closed := True \<rparr> in
      if b mod PAGE \<noteq> 0 \<or> len = 0 then (f, False)
      else case align_up len PAGE of
        None \<Rightarrow> (f, False)
      | Some len \<Rightarrow>
          (case checked_add64 b len of
             None \<Rightarrow> (f, False)
           | Some e \<Rightarrow>
               if list_ex (\<lambda>r. base r < e \<and> b < rend r) (ranges f) then (f, False)
               else (insert_range b e f, True)))"

section \<open>Alignment\<close>

lemma and_not64:
  assumes "x \<le> u64_max" "k \<le> 64"
  shows "x AND not64 (2 ^ k - 1) = x div 2 ^ k * 2 ^ k"
proof -
  have "not64 (2 ^ k - 1) = push_bit k (mask (64 - k))"
    using assms(2) by (simp add: not64_def u64_max_def push_bit_eq_mult mask_eq_exp_minus_1 algebra_simps
        flip: power_add)
  then have "x AND not64 (2 ^ k - 1) = push_bit k (take_bit (64 - k) (drop_bit k x))"
    by (simp add: bit_eq_iff bit_simps) (metis add.commute le_add_diff_inverse)
  moreover have "drop_bit k x < 2 ^ (64 - k)"
    using assms by (simp add: drop_bit_eq_div u64_max_def less_mult_imp_div_less flip: power_add)
  ultimately show ?thesis
    by (simp add: take_bit_nat_eq_self push_bit_eq_mult drop_bit_eq_div)
qed

lemma is_power_of_two_exp: "is_power_of_two a \<Longrightarrow> \<exists>k. a = 2 ^ k"
proof (induction a rule: less_induct)
  case (less a)
  then have a: "a \<noteq> 0" "a AND (a - 1) = 0" by (simp_all add: is_power_of_two_def)
  show ?case
  proof (cases "even a")
    case True
    then obtain m where m: "a = 2 * m" by blast
    with a have "m \<noteq> 0" "(2 * m) AND (2 * m - 1) = 0" by simp_all
    moreover have "(2 * m) AND (2 * m - 1) = 2 * (m AND (m - 1))"
      using \<open>m \<noteq> 0\<close> by (subst and_rec) (cases m; simp)
    ultimately have "is_power_of_two m" "m < a" using m by (simp_all add: is_power_of_two_def)
    with less.IH obtain k where "m = 2 ^ k" by blast
    then show ?thesis using m by (intro exI [of _ "Suc k"]) simp
  next
    case False
    then obtain m where m: "a = 2 * m + 1" by (metis oddE)
    have "(2 * m + 1) AND (2 * m) = 2 * m" by (subst and_rec) simp
    with a m have "m = 0" by simp
    with m show ?thesis by (intro exI [of _ 0]) simp
  qed
qed

lemma align_down_eq:
  "x \<le> u64_max \<Longrightarrow> k \<le> 64 \<Longrightarrow> align_down x (2 ^ k) = x div 2 ^ k * 2 ^ k"
  unfolding align_down_def by (rule and_not64)

lemma page_exp: "PAGE = 2 ^ 12" by (simp add: PAGE_def)

lemma align_down_page: "x \<le> u64_max \<Longrightarrow> align_down x PAGE = x div PAGE * PAGE"
  unfolding page_exp by (rule align_down_eq) simp_all

lemma align_up_page:
  "x \<le> u64_max \<Longrightarrow> align_up x PAGE =
     (if x + (PAGE - 1) \<le> u64_max then Some ((x + (PAGE - 1)) div PAGE * PAGE) else None)"
  unfolding align_up_def page_exp using and_not64 [of "x + (2 ^ 12 - 1)" 12]
  by (simp add: checked_add64_def)

section \<open>The free set\<close>

definition span :: "range \<Rightarrow> nat set" where
  "span r = {base r..<rend r}"

definition cover :: "range list \<Rightarrow> nat set" where
  "cover rs = (\<Union>r\<in>set rs. span r)"

definition free_set :: "frames \<Rightarrow> nat set" where
  "free_set f = cover (ranges f)"

definition wf_range :: "range \<Rightarrow> bool" where
  "wf_range r \<longleftrightarrow> base r < rend r \<and> rend r \<le> u64_max \<and> PAGE dvd base r \<and> PAGE dvd rend r"

definition wf_ranges :: "range list \<Rightarrow> bool" where
  "wf_ranges rs \<longleftrightarrow> sorted_wrt (\<lambda>a b. rend a < base b) rs \<and> (\<forall>r\<in>set rs. wf_range r)"

definition wf_frames :: "frames \<Rightarrow> bool" where
  "wf_frames f \<longleftrightarrow> wf_ranges (ranges f) \<and> length (ranges f) \<le> cap f"

lemma finite_cover [simp]: "finite (cover rs)"
  by (simp add: cover_def span_def)

lemma cover_simps [simp]: "cover [] = {}" "cover (r # rs) = span r \<union> cover rs" "cover (xs @ ys) = cover xs \<union> cover ys"
  by (auto simp: cover_def)

lemma card_span [simp]: "card (span r) = range_len r"
  by (simp add: span_def range_len_def)

lemma finite_span: "finite (span r)"
  by (simp add: span_def)

lemma wf_ranges_Cons:
  "wf_ranges (r # rs) \<longleftrightarrow> wf_range r \<and> wf_ranges rs \<and> (\<forall>s\<in>set rs. rend r < base s)"
  by (auto simp: wf_ranges_def)

lemma wf_ranges_append:
  "wf_ranges (xs @ ys) \<longleftrightarrow> wf_ranges xs \<and> wf_ranges ys \<and> (\<forall>x\<in>set xs. \<forall>y\<in>set ys. rend x < base y)"
  by (auto simp: wf_ranges_def sorted_wrt_append)

lemma wf_ranges_Nil [simp]: "wf_ranges []"
  by (simp add: wf_ranges_def)

lemma card_cover: "wf_ranges rs \<Longrightarrow> card (cover rs) = sum_list (map range_len rs)"
proof (induction rs)
  case (Cons r rs)
  then have "span r \<inter> cover rs = {}"
    by (fastforce simp: wf_ranges_Cons wf_range_def cover_def span_def)
  with Cons show ?case by (simp add: wf_ranges_Cons card_Un_disjoint finite_span)
qed simp

lemma free_bytes_card: "wf_frames f \<Longrightarrow> free_bytes f = card (free_set f)"
  by (simp add: wf_frames_def free_bytes_def free_set_def card_cover)

text \<open>A list around an index: every operation of the table touches one place.\<close>

lemma split_at: "i < length rs \<Longrightarrow> rs = take i rs @ rs ! i # drop (Suc i) rs"
  by (rule id_take_nth_drop)

lemma wf_ranges_sub: "wf_ranges (xs @ r # ys) \<Longrightarrow> wf_ranges (xs @ ys)"
  by (auto simp: wf_ranges_append wf_ranges_Cons)

text \<open>Narrowing one range, or splitting it in two, keeps the table well formed.\<close>

lemma wf_ranges_narrow:
  "wf_ranges (xs @ r # ys) \<Longrightarrow> wf_range q \<Longrightarrow> base r \<le> base q \<Longrightarrow> rend q \<le> rend r \<Longrightarrow> wf_ranges (xs @ q # ys)"
  by (fastforce simp: wf_ranges_append wf_ranges_Cons)

lemma wf_ranges_split:
  "wf_ranges (xs @ r # ys) \<Longrightarrow> wf_range p \<Longrightarrow> wf_range q \<Longrightarrow> base r \<le> base p \<Longrightarrow> rend p < base q \<Longrightarrow>
     rend q \<le> rend r \<Longrightarrow> wf_ranges (xs @ p # q # ys)"
  by (fastforce simp: wf_ranges_append wf_ranges_Cons wf_range_def)

lemma list_update_split: "i < length rs \<Longrightarrow> rs[i := q] = take i rs @ q # drop (Suc i) rs"
  by (rule upd_conv_take_nth_drop)

lemma place_split: "i < length rs \<Longrightarrow> place_at (i + 1) q (rs[i := p]) = take i rs @ p # q # drop (Suc i) rs"
  by (simp add: place_at_def list_update_split take_Suc_conv_app_nth)

section \<open>Taking memory out\<close>

text \<open>
  What one turn of the loop of \<open>remove\<close> does: the table stays well formed, whatever is free outside
  \<open>[lo, hi)\<close> is still free or counted as dropped.
\<close>

definition removes :: "nat \<Rightarrow> nat \<Rightarrow> range list \<times> nat \<Rightarrow> range list \<times> nat \<Rightarrow> bool" where
  "removes lo hi = (\<lambda>(rs, d) (rs', d').
     wf_ranges rs' \<and> cover rs' - {lo..<hi} \<subseteq> cover rs - {lo..<hi} \<and> cover rs' \<subseteq> cover rs \<and> d \<le> d'
   \<and> card (cover rs' - {lo..<hi}) + d' = card (cover rs - {lo..<hi}) + d)"

lemma removes_trans: "removes lo hi a b \<Longrightarrow> removes lo hi b c \<Longrightarrow> removes lo hi a c"
  by (auto simp: removes_def split: prod.splits)

lemma removes_same:
  "wf_ranges rs' \<Longrightarrow> cover rs' - {lo..<hi} = cover rs - {lo..<hi} \<Longrightarrow> cover rs' \<subseteq> cover rs \<Longrightarrow>
     removes lo hi (rs, d) (rs', d)"
  by (simp add: removes_def)

lemma removes_lost:
  assumes wf: "wf_ranges rs'" and eq: "cover rs - {lo..<hi} = (cover rs' - {lo..<hi}) \<union> span q"
    and "span q \<inter> cover rs' = {}" "cover rs' \<subseteq> cover rs"
  shows "removes lo hi (rs, d) (rs', d + range_len q)"
proof -
  have "card (cover rs - {lo..<hi}) = card (cover rs' - {lo..<hi}) + range_len q"
    unfolding eq using assms(3) by (subst card_Un_disjoint) (auto simp: finite_span)
  with assms show ?thesis by (auto simp: removes_def)
qed

definition remove_pre :: "nat \<Rightarrow> nat \<Rightarrow> nat \<Rightarrow> nat \<Rightarrow> range list \<Rightarrow> bool" where
  "remove_pre N lo hi i rs \<longleftrightarrow>
     wf_ranges rs \<and> length rs \<le> N \<and> PAGE dvd lo \<and> PAGE dvd hi
   \<and> (lo < hi \<or> (\<forall>r\<in>set rs. rend r \<le> lo))
   \<and> (\<forall>r\<in>set (take i rs). rend r \<le> lo \<or> hi \<le> base r)"

definition remove_post :: "nat \<Rightarrow> nat \<Rightarrow> nat \<Rightarrow> range list \<times> nat \<Rightarrow> range list \<times> nat \<Rightarrow> bool" where
  "remove_post N lo hi st st' \<longleftrightarrow>
     removes lo hi st st' \<and> cover (fst st') \<inter> {lo..<hi} = {} \<and> length (fst st') \<le> N"

text \<open>One range cut by \<open>[lo, hi)\<close>: the state after the turn satisfies the precondition again.\<close>

lemma remove_turn:
  assumes pre: "remove_pre N lo hi (length xs) (xs @ r # ys)" and cut: "lo < rend r" "base r < hi"
  shows "rend r \<le> hi \<Longrightarrow> lo \<le> base r \<Longrightarrow> remove_pre N lo hi (length xs) (xs @ ys)
      \<and> removes lo hi (xs @ r # ys, d) (xs @ ys, d)"
    and "rend r \<le> hi \<Longrightarrow> base r < lo \<Longrightarrow> remove_pre N lo hi (Suc (length xs)) (xs @ \<lparr>base = base r, rend = lo\<rparr> # ys)
      \<and> removes lo hi (xs @ r # ys, d) (xs @ \<lparr>base = base r, rend = lo\<rparr> # ys, d)"
    and "hi < rend r \<Longrightarrow> lo \<le> base r \<Longrightarrow> remove_pre N lo hi (Suc (length xs)) (xs @ \<lparr>base = hi, rend = rend r\<rparr> # ys)
      \<and> removes lo hi (xs @ r # ys, d) (xs @ \<lparr>base = hi, rend = rend r\<rparr> # ys, d)"
    and "hi < rend r \<Longrightarrow> base r < lo \<Longrightarrow> length (xs @ r # ys) \<noteq> N \<Longrightarrow>
      remove_pre N lo hi (length xs + 2) (xs @ \<lparr>base = base r, rend = lo\<rparr> # \<lparr>base = hi, rend = rend r\<rparr> # ys)
      \<and> removes lo hi (xs @ r # ys, d) (xs @ \<lparr>base = base r, rend = lo\<rparr> # \<lparr>base = hi, rend = rend r\<rparr> # ys, d)"
    and "hi < rend r \<Longrightarrow> base r < lo \<Longrightarrow>
      remove_pre N lo hi (Suc (length xs)) (xs @ \<lparr>base = base r, rend = lo\<rparr> # ys)
      \<and> removes lo hi (xs @ r # ys, d) (xs @ \<lparr>base = base r, rend = lo\<rparr> # ys, d + (rend r - hi))
      \<and> remove_pre N lo hi (Suc (length xs)) (xs @ \<lparr>base = hi, rend = rend r\<rparr> # ys)
      \<and> removes lo hi (xs @ r # ys, d) (xs @ \<lparr>base = hi, rend = rend r\<rparr> # ys, d + (lo - base r))"
proof -
  let ?L = "\<lparr>base = base r, rend = lo\<rparr>" and ?R = "\<lparr>base = hi, rend = rend r\<rparr>"
  have wf: "wf_ranges (xs @ r # ys)" and r: "wf_range r" and len: "length (xs @ r # ys) \<le> N"
    and lohi: "lo < hi" and pages: "PAGE dvd lo" "PAGE dvd hi"
    and before: "\<forall>q\<in>set xs. rend q \<le> lo \<or> hi \<le> base q"
    using pre cut by (auto simp: remove_pre_def wf_ranges_append wf_ranges_Cons)
  have L: "wf_range ?L" if "base r < lo" using that r cut pages by (auto simp: wf_range_def)
  have R: "wf_range ?R" if "hi < rend r" using that r cut pages by (auto simp: wf_range_def)
  have disj: "span r \<inter> cover (xs @ ys) = {}"
    using wf unfolding wf_ranges_append wf_ranges_Cons cover_def span_def wf_range_def by fastforce
  have wfs: "wf_ranges (xs @ ys)" "base r < lo \<Longrightarrow> wf_ranges (xs @ ?L # ys)"
    "hi < rend r \<Longrightarrow> wf_ranges (xs @ ?R # ys)"
    "base r < lo \<Longrightarrow> hi < rend r \<Longrightarrow> wf_ranges (xs @ ?L # ?R # ys)"
    using wf_ranges_sub [OF wf] wf_ranges_narrow [OF wf L] wf_ranges_narrow [OF wf R]
      wf_ranges_split [OF wf L R] cut lohi by auto
  show "remove_pre N lo hi (length xs) (xs @ ys) \<and> removes lo hi (xs @ r # ys, d) (xs @ ys, d)"
    if "rend r \<le> hi" "lo \<le> base r"
  proof
    show "remove_pre N lo hi (length xs) (xs @ ys)" using wfs(1) len lohi pages before by (simp add: remove_pre_def)
    show "removes lo hi (xs @ r # ys, d) (xs @ ys, d)"
      by (rule removes_same [OF wfs(1)]) (use that in \<open>auto simp: span_def\<close>)
  qed
  show "remove_pre N lo hi (Suc (length xs)) (xs @ ?L # ys) \<and> removes lo hi (xs @ r # ys, d) (xs @ ?L # ys, d)"
    if "rend r \<le> hi" "base r < lo"
  proof
    show "remove_pre N lo hi (Suc (length xs)) (xs @ ?L # ys)"
      using wfs(2) that len lohi pages before by (simp add: remove_pre_def)
    show "removes lo hi (xs @ r # ys, d) (xs @ ?L # ys, d)"
      by (rule removes_same [OF wfs(2)]) (use that cut in \<open>auto simp: span_def\<close>)
  qed
  show "remove_pre N lo hi (Suc (length xs)) (xs @ ?R # ys) \<and> removes lo hi (xs @ r # ys, d) (xs @ ?R # ys, d)"
    if "hi < rend r" "lo \<le> base r"
  proof
    show "remove_pre N lo hi (Suc (length xs)) (xs @ ?R # ys)"
      using wfs(3) that len lohi pages before by (simp add: remove_pre_def)
    show "removes lo hi (xs @ r # ys, d) (xs @ ?R # ys, d)"
      by (rule removes_same [OF wfs(3)]) (use that cut in \<open>auto simp: span_def\<close>)
  qed
  show "remove_pre N lo hi (length xs + 2) (xs @ ?L # ?R # ys)
      \<and> removes lo hi (xs @ r # ys, d) (xs @ ?L # ?R # ys, d)"
    if "hi < rend r" "base r < lo" "length (xs @ r # ys) \<noteq> N"
  proof
    show "remove_pre N lo hi (length xs + 2) (xs @ ?L # ?R # ys)"
      using wfs(4) that len lohi pages before by (simp add: remove_pre_def numeral_2_eq_2)
    show "removes lo hi (xs @ r # ys, d) (xs @ ?L # ?R # ys, d)"
      by (rule removes_same [OF wfs(4)]) (use that lohi in \<open>auto simp: span_def\<close>)
  qed
  show "remove_pre N lo hi (Suc (length xs)) (xs @ ?L # ys)
      \<and> removes lo hi (xs @ r # ys, d) (xs @ ?L # ys, d + (rend r - hi))
      \<and> remove_pre N lo hi (Suc (length xs)) (xs @ ?R # ys)
      \<and> removes lo hi (xs @ r # ys, d) (xs @ ?R # ys, d + (lo - base r))"
    if big: "hi < rend r" "base r < lo"
  proof (intro conjI)
    show "remove_pre N lo hi (Suc (length xs)) (xs @ ?L # ys)" "remove_pre N lo hi (Suc (length xs)) (xs @ ?R # ys)"
      using wfs(2,3) big len lohi pages before by (simp_all add: remove_pre_def)
    have R_out: "span ?R \<inter> cover (xs @ ?L # ys) = {}" and L_out: "span ?L \<inter> cover (xs @ ?R # ys) = {}"
      using lohi big disj by (force simp: span_def disjoint_iff)+
    show "removes lo hi (xs @ r # ys, d) (xs @ ?L # ys, d + (rend r - hi))"
      using removes_lost [OF wfs(2) _ R_out, of "xs @ r # ys" lo hi d] big lohi disj
      by (force simp: range_len_def span_def)
    show "removes lo hi (xs @ r # ys, d) (xs @ ?R # ys, d + (lo - base r))"
      using removes_lost [OF wfs(3) _ L_out, of "xs @ r # ys" lo hi d] big lohi disj
      by (force simp: range_len_def span_def)
  qed
qed

lemma remove_loop_turn:
  fixes xs ys
  defines "i \<equiv> length xs"
  shows "rend r \<le> lo \<or> hi \<le> base r \<Longrightarrow>
      remove_loop N lo hi i (xs @ r # ys) d = remove_loop N lo hi (Suc i) (xs @ r # ys) d"
    and "lo < rend r \<Longrightarrow> base r < hi \<Longrightarrow> remove_loop N lo hi i (xs @ r # ys) d =
      (let left = \<lparr>base = base r, rend = lo\<rparr>; right = \<lparr>base = hi, rend = rend r\<rparr> in
       if lo \<le> base r \<and> rend r \<le> hi then remove_loop N lo hi i (xs @ ys) d
       else if rend r \<le> hi then remove_loop N lo hi (Suc i) (xs @ left # ys) d
       else if lo \<le> base r then remove_loop N lo hi (Suc i) (xs @ right # ys) d
       else if length (xs @ r # ys) \<noteq> N then remove_loop N lo hi (i + 2) (xs @ left # right # ys) d
       else if rend r - hi \<le> lo - base r
       then remove_loop N lo hi (Suc i) (xs @ left # ys) (d + (rend r - hi))
       else remove_loop N lo hi (Suc i) (xs @ right # ys) (d + (lo - base r)))"
  unfolding i_def
  by (subst remove_loop.simps; auto simp: Let_def range_is_empty_def range_len_def delete_at_def place_at_def
      max_def min_def nth_append list_update_append split: bool.splits)+

lemma remove_loop_post:
  "remove_pre N lo hi i rs \<Longrightarrow> remove_post N lo hi (rs, d) (remove_loop N lo hi i rs d)"
proof (induction "length rs - i" arbitrary: i rs d rule: less_induct)
  case less
  note pre = less.prems
  show ?case
  proof (cases "i < length rs")
    case False
    then have "remove_loop N lo hi i rs d = (rs, d)" by (subst remove_loop.simps) simp
    moreover have "cover rs \<inter> {lo..<hi} = {}"
      using pre False unfolding remove_pre_def cover_def span_def by fastforce
    ultimately show ?thesis using pre by (simp add: remove_post_def removes_def remove_pre_def)
  next
    case True
    define xs ys r where "xs = take i rs" and "ys = drop (Suc i) rs" and "r = rs ! i"
    have rs: "rs = xs @ r # ys" and i: "i = length xs"
      using split_at [OF True] True by (simp_all add: xs_def ys_def r_def)
    have turn: ?thesis
      if "remove_loop N lo hi i rs d = remove_loop N lo hi j qs d'" "length qs - j < length rs - i"
        "remove_pre N lo hi j qs \<and> removes lo hi (rs, d) (qs, d')" for j qs d'
      using that less.hyps [of qs j d'] removes_trans [of lo hi "(rs, d)" "(qs, d')"]
      by (auto simp: remove_post_def)
    show ?thesis
    proof (cases "rend r \<le> lo \<or> hi \<le> base r")
      case True
      then have "remove_pre N lo hi (Suc i) rs \<and> removes lo hi (rs, d) (rs, d)"
        using pre by (auto simp: rs i remove_pre_def removes_def)
      with remove_loop_turn(1) [OF True, of N xs ys d] show ?thesis
        by (intro turn [of "Suc i" rs d]) (auto simp: rs i)
    next
      case False
      then have cut: "lo < rend r" "base r < hi" by auto
      note P = remove_turn [OF pre [unfolded rs i] cut, of d]
      note E = remove_loop_turn(2) [OF cut, of N xs ys d]
      consider "lo \<le> base r" "rend r \<le> hi" | "base r < lo" "rend r \<le> hi" | "lo \<le> base r" "hi < rend r"
        | "base r < lo" "hi < rend r" "length (xs @ r # ys) \<noteq> N"
        | "base r < lo" "hi < rend r" "length (xs @ r # ys) = N" "rend r - hi \<le> lo - base r"
        | "base r < lo" "hi < rend r" "length (xs @ r # ys) = N" "\<not> rend r - hi \<le> lo - base r"
        by linarith
      then show ?thesis
      proof cases
        case 1
        with E P(1) show ?thesis by (intro turn [of i "xs @ ys" d]) (auto simp: rs i)
      next
        case 2
        with E P(2) show ?thesis
          by (intro turn [of "Suc i" "xs @ \<lparr>base = base r, rend = lo\<rparr> # ys" d]) (auto simp: rs i)
      next
        case 3
        with E P(3) show ?thesis
          by (intro turn [of "Suc i" "xs @ \<lparr>base = hi, rend = rend r\<rparr> # ys" d]) (auto simp: rs i)
      next
        case 4
        with E P(4) show ?thesis
          by (intro turn [of "i + 2" "xs @ \<lparr>base = base r, rend = lo\<rparr> # \<lparr>base = hi, rend = rend r\<rparr> # ys" d])
            (auto simp: rs i)
      next
        case 5
        with E P(5) show ?thesis
          by (intro turn [of "Suc i" "xs @ \<lparr>base = base r, rend = lo\<rparr> # ys" "d + (rend r - hi)"])
            (auto simp: rs i)
      next
        case 6
        with E P(5) show ?thesis
          by (intro turn [of "Suc i" "xs @ \<lparr>base = hi, rend = rend r\<rparr> # ys" "d + (lo - base r)"])
            (auto simp: rs i)
      qed
    qed
  qed
qed

section \<open>Putting memory in\<close>

definition apart :: "nat \<Rightarrow> nat \<Rightarrow> range \<Rightarrow> bool" where
  "apart b e r \<longleftrightarrow> rend r < b \<or> e < base r"

definition run_ok :: "nat \<Rightarrow> nat \<Rightarrow> bool" where
  "run_ok b e \<longleftrightarrow> b < e \<and> e \<le> u64_max \<and> PAGE dvd b \<and> PAGE dvd e"

lemma run_ok_range: "run_ok b e \<longleftrightarrow> wf_range \<lparr>base = b, rend = e\<rparr>"
  by (simp add: run_ok_def wf_range_def)

lemma swallow_turn:
  fixes xs ys
  defines "i \<equiv> length xs"
  shows "apart b e r \<Longrightarrow> swallow i b e (xs @ r # ys) = swallow (Suc i) b e (xs @ r # ys)"
    and "\<not> apart b e r \<Longrightarrow> swallow i b e (xs @ r # ys) = swallow i (min b (base r)) (max e (rend r)) (xs @ ys)"
  unfolding i_def
  by (subst swallow.simps; auto simp: Let_def apart_def delete_at_def nth_append)+

lemma swallow_post:
  assumes "wf_ranges rs" "run_ok b e" "\<forall>r\<in>set (take i rs). apart b e r" "swallow i b e rs = (b', e', rs')"
  shows "wf_ranges rs' \<and> run_ok b' e' \<and> (\<forall>r\<in>set rs'. apart b' e' r) \<and> length rs' \<le> length rs
    \<and> cover rs' \<union> {b'..<e'} = cover rs \<union> {b..<e}"
  using assms
proof (induction "length rs - i" arbitrary: i b e rs rule: less_induct)
  case less
  show ?case
  proof (cases "i < length rs")
    case False
    then have "swallow i b e rs = (b, e, rs)" by (subst swallow.simps) simp
    with False less.prems show ?thesis by simp
  next
    case True
    define xs ys r where "xs = take i rs" and "ys = drop (Suc i) rs" and "r = rs ! i"
    have rs: "rs = xs @ r # ys" and i: "i = length xs"
      using split_at [OF True] True by (simp_all add: xs_def ys_def r_def)
    show ?thesis
    proof (cases "apart b e r")
      case True
      with less.hyps [of rs "Suc i" b e] less.prems swallow_turn(1) [OF True, of xs ys] show ?thesis
        by (auto simp: rs i)
    next
      case False
      let ?b = "min b (base r)" and ?e = "max e (rend r)"
      have r: "wf_range r" and wf: "wf_ranges (xs @ ys)"
        using less.prems(1) wf_ranges_sub by (auto simp: rs wf_ranges_append wf_ranges_Cons)
      have run: "run_ok ?b ?e"
        using less.prems(2) r by (auto simp: run_ok_def wf_range_def min_def max_def)
      have before: "apart ?b ?e q" if "q \<in> set xs" for q
      proof -
        have "rend q < base r" "base q < rend q"
          using that less.prems(1) by (auto simp: rs wf_ranges_def wf_range_def sorted_wrt_append)
        moreover have "apart b e q" using that less.prems(3) by (simp add: rs i)
        ultimately show ?thesis using False by (auto simp: apart_def)
      qed
      have cov: "{?b..<?e} = span r \<union> {b..<e}"
        using False r less.prems(2) by (auto simp: span_def apart_def run_ok_def wf_range_def)
      have "swallow i ?b ?e (xs @ ys) = (b', e', rs')"
        using less.prems(4) swallow_turn(2) [OF False, of xs ys] by (simp add: rs i)
      with less.hyps [of "xs @ ys" i ?b ?e] wf run before
      have post: "wf_ranges rs' \<and> run_ok b' e' \<and> (\<forall>r\<in>set rs'. apart b' e' r) \<and> length rs' \<le> length (xs @ ys)
          \<and> cover rs' \<union> {b'..<e'} = cover (xs @ ys) \<union> {?b..<?e}"
        by (simp add: rs i)
      have "cover (xs @ ys) \<union> {?b..<?e} = cover rs \<union> {b..<e}" unfolding cov rs by auto
      with post show ?thesis by (simp add: rs)
    qed
  qed
qed

lemma wf_ranges_place:
  assumes wf: "wf_ranges rs" and run: "run_ok b e" and apart: "\<forall>r\<in>set rs. apart b e r"
  shows "wf_ranges (place_at (position_after b rs) \<lparr>base = b, rend = e\<rparr> rs)"
    and "cover (place_at (position_after b rs) \<lparr>base = b, rend = e\<rparr> rs) = cover rs \<union> {b..<e}"
proof -
  let ?xs = "takeWhile (\<lambda>r. \<not> base r > b) rs" and ?ys = "dropWhile (\<lambda>r. \<not> base r > b) rs"
  have rs: "?xs @ ?ys = rs" by simp
  have place: "place_at (position_after b rs) \<lparr>base = b, rend = e\<rparr> rs = ?xs @ \<lparr>base = b, rend = e\<rparr> # ?ys"
    unfolding place_at_def position_after_def by (metis append_eq_conv_conj rs)
  have low: "rend x < b" if "x \<in> set ?xs" for x
    using that apart run set_takeWhileD [OF that] by (auto simp: apart_def run_ok_def)
  have wfs: "wf_ranges ?xs" "wf_ranges ?ys" using wf rs wf_ranges_append by metis+
  have high: "b < base y" if "y \<in> set ?ys" for y
  proof (cases ?ys)
    case (Cons z zs)
    then have "b < base z" by (metis hd_dropWhile list.distinct(1) list.sel(1))
    with that Cons wfs(2) show ?thesis by (auto simp: wf_ranges_Cons wf_range_def)
  next
    case Nil
    with that show ?thesis by (simp only: Nil) simp
  qed
  have "e < base y" if "y \<in> set ?ys" for y
    using that high [OF that] apart wfs(2) rs
    by (fastforce simp: apart_def wf_ranges_def wf_range_def dest: set_dropWhileD)
  with low wfs run show "wf_ranges (place_at (position_after b rs) \<lparr>base = b, rend = e\<rparr> rs)"
    unfolding place by (fastforce simp: wf_ranges_append wf_ranges_Cons run_ok_range wf_range_def)
  have "cover rs = cover ?xs \<union> cover ?ys" by (metis rs cover_simps(3))
  then show "cover (place_at (position_after b rs) \<lparr>base = b, rend = e\<rparr> rs) = cover rs \<union> {b..<e}"
    unfolding place by (auto simp: span_def)
qed

lemma smallest_Some:
  "smallest i rs = Some (j, l) \<Longrightarrow> i \<le> j \<and> j - i < length rs \<and> l = range_len (rs ! (j - i))"
proof (induction rs arbitrary: i j l)
  case (Cons r rs)
  show ?case
  proof (cases "smallest (i + 1) rs")
    case None
    with Cons.prems show ?thesis by simp
  next
    case (Some p)
    obtain j' l' where p: "p = (j', l')" by fastforce
    with Cons.IH [of "i + 1"] Some have "i + 1 \<le> j'" "j' - (i + 1) < length rs" "l' = range_len (rs ! (j' - (i + 1)))"
      by auto
    with Cons.prems Some p show ?thesis by (auto simp: nth_Cons' split: if_splits)
  qed
qed simp

lemma smallest_None: "smallest i rs = None \<longleftrightarrow> rs = []"
  by (cases rs) (auto split: option.splits)

text \<open>
  The bookkeeping contract of the allocator: \<open>A\<close> is what should be free after the operation; nothing
  outside \<open>A\<close> is, and what is missing from it has been counted as dropped.
\<close>

definition accounts :: "nat set \<Rightarrow> frames \<Rightarrow> frames \<Rightarrow> bool" where
  "accounts A f f' \<longleftrightarrow> wf_frames f' \<and> cap f' = cap f \<and> free_set f' \<subseteq> A \<and> finite A
     \<and> free_bytes f' + dropped f' = card A + dropped f"

lemma accounts_exact:
  "accounts A f f' \<Longrightarrow> dropped f' = dropped f \<Longrightarrow> free_set f' = A"
  unfolding accounts_def by (metis add_right_cancel card_subset_eq free_bytes_card)

lemma accountsI:
  assumes "wf_ranges rs" "length rs \<le> cap f" "cover rs \<subseteq> A" "finite A"
    and "card (cover rs) + d = card A + dropped f"
  shows "accounts A f (f\<lparr> ranges := rs, dropped := d, closed := c \<rparr>)"
  using assms free_bytes_card [of "f\<lparr> ranges := rs, dropped := d, closed := c \<rparr>"]
  by (simp add: accounts_def wf_frames_def free_set_def)

lemma delete_at_facts:
  assumes "wf_ranges rs" "j < length rs"
  shows "wf_ranges (delete_at j rs) \<and> cover rs = cover (delete_at j rs) \<union> span (rs ! j)
    \<and> cover (delete_at j rs) \<inter> span (rs ! j) = {} \<and> Suc (length (delete_at j rs)) = length rs
    \<and> set (delete_at j rs) \<subseteq> set rs"
proof -
  define xs ys r where "xs = take j rs" and "ys = drop (Suc j) rs" and "r = rs ! j"
  have rs: "rs = xs @ r # ys" and j: "j = length xs"
    using split_at [OF assms(2)] assms(2) by (simp_all add: xs_def ys_def r_def)
  have del: "delete_at j rs = xs @ ys" by (simp add: rs j delete_at_def)
  have "cover (xs @ ys) \<inter> span r = {}"
    using assms(1) unfolding rs wf_ranges_append wf_ranges_Cons cover_def span_def wf_range_def by fastforce
  with assms(1) wf_ranges_sub [of xs r ys] show ?thesis
    unfolding del r_def [symmetric] by (auto simp: rs)
qed

lemma length_place: "length (place_at (position_after b rs) r rs) = Suc (length rs)"
proof -
  have "position_after b rs \<le> length rs" by (simp add: position_after_def length_takeWhile_le)
  then show ?thesis by (simp add: place_at_def)
qed

lemma insert_range_accounts:
  assumes wf: "wf_frames f" and run: "run_ok b e"
  shows "accounts (free_set f \<union> {b..<e}) f (insert_range b e f) \<and> closed (insert_range b e f) = closed f"
proof -
  obtain b' e' rs where sw: "swallow 0 b e (ranges f) = (b', e', rs)" by (metis surj_pair)
  have post: "wf_ranges rs" "run_ok b' e'" "\<forall>r\<in>set rs. apart b' e' r" "length rs \<le> length (ranges f)"
    and cov: "cover rs \<union> {b'..<e'} = free_set f \<union> {b..<e}"
    using swallow_post [OF _ run _ sw] wf by (auto simp: wf_frames_def free_set_def)
  have len: "length rs \<le> cap f" using post(4) wf by (simp add: wf_frames_def)
  have disj: "cover rs \<inter> {b'..<e'} = {}"
    using post(3) by (fastforce simp: cover_def span_def apart_def)
  let ?A = "free_set f \<union> {b..<e}"
  have fin: "finite ?A" by (simp add: free_set_def)
  have cardA: "card ?A = card (cover rs) + (e' - b')"
    unfolding cov [symmetric] using disj by (simp add: card_Un_disjoint)
  show ?thesis
  proof (cases "length rs = cap f")
    case False
    have eq: "insert_range b e f = f\<lparr> ranges := place_at (position_after b' rs) \<lparr>base = b', rend = e'\<rparr> rs,
        dropped := dropped f, closed := closed f \<rparr>"
      using run sw False by (simp add: insert_range_def run_ok_def)
    show ?thesis
      unfolding eq
      by (intro conjI accountsI) (use wf_ranges_place [OF post(1-3)] cov len False fin in \<open>auto simp: length_place\<close>)
  next
    case full: True
    obtain j l where sm: "(case smallest 0 rs of None \<Rightarrow> (0, 0) | Some p \<Rightarrow> p) = (j, l)" by fastforce
    show ?thesis
    proof (cases "cap f = 0 \<or> l \<ge> e' - b'")
      case True
      have eq: "insert_range b e f = f\<lparr> ranges := rs, dropped := dropped f + (e' - b'), closed := closed f \<rparr>"
        using run sw full sm True by (simp add: insert_range_def run_ok_def)
      show ?thesis
        unfolding eq by (intro conjI accountsI) (use post(1) cov len fin cardA in auto)
    next
      case False
      then have "rs \<noteq> []" using full by auto
      then have jl: "j < length rs" "l = range_len (rs ! j)"
        using sm smallest_None [of 0 rs] smallest_Some [of 0 rs j l] by (auto split: option.splits)
      let ?rs = "delete_at j rs"
      have del: "wf_ranges ?rs" "cover rs = cover ?rs \<union> span (rs ! j)" "cover ?rs \<inter> span (rs ! j) = {}"
        "Suc (length ?rs) = length rs" "set ?rs \<subseteq> set rs"
        using delete_at_facts [OF post(1) jl(1)] by auto
      note place = wf_ranges_place [OF del(1) post(2)]
      have eq: "insert_range b e f = f\<lparr> ranges := place_at (position_after b' ?rs) \<lparr>base = b', rend = e'\<rparr> ?rs,
          dropped := dropped f + l, closed := closed f \<rparr>"
        using run sw full sm False by (simp add: insert_range_def run_ok_def Let_def)
      have apart: "\<forall>r\<in>set ?rs. apart b' e' r" using post(3) del(5) by auto
      have "card (cover ?rs \<union> {b'..<e'}) + l = card ?A"
      proof -
        have "cover ?rs \<inter> {b'..<e'} = {}" using disj del(2) by auto
        then have "card (cover ?rs \<union> {b'..<e'}) = card (cover ?rs) + (e' - b')" by (simp add: card_Un_disjoint)
        moreover have "card (cover rs) = card (cover ?rs) + l"
          unfolding del(2) using del(3) by (simp add: card_Un_disjoint finite_span jl(2))
        ultimately show ?thesis using cardA by simp
      qed
      moreover have "cover ?rs \<union> {b'..<e'} \<subseteq> ?A" using cov del(2) by auto
      ultimately show ?thesis
        unfolding eq
        by (intro conjI accountsI) (use place [OF apart] full del(4) fin in \<open>auto simp: length_place\<close>)
    qed
  qed
qed

lemma remove_accounts:
  assumes wf: "wf_frames f" and pages: "PAGE dvd lo" "PAGE dvd hi"
    and lohi: "lo < hi \<or> (\<forall>r\<in>set (ranges f). rend r \<le> lo)"
  shows "accounts (free_set f - {lo..<hi}) f (remove lo hi f) \<and> closed (remove lo hi f) = closed f"
proof -
  obtain rs d where rm: "remove_loop (cap f) lo hi 0 (ranges f) (dropped f) = (rs, d)" by fastforce
  have "remove_pre (cap f) lo hi 0 (ranges f)"
    using assms by (simp add: remove_pre_def wf_frames_def)
  from remove_loop_post [OF this, of "dropped f"] have
    post: "removes lo hi (ranges f, dropped f) (rs, d)" "cover rs \<inter> {lo..<hi} = {}" "length rs \<le> cap f"
    by (simp_all add: remove_post_def rm)
  have "cover rs - {lo..<hi} = cover rs" using post(2) by auto
  with post(1) have "wf_ranges rs" "cover rs \<subseteq> free_set f - {lo..<hi}"
    "card (cover rs) + d = card (free_set f - {lo..<hi}) + dropped f"
    by (auto simp: removes_def free_set_def)
  moreover have "remove lo hi f = f\<lparr> ranges := rs, dropped := d, closed := closed f \<rparr>"
    by (simp add: remove_def rm)
  ultimately show ?thesis
    using post(3) by (simp only:) (intro conjI accountsI, simp_all add: free_set_def)
qed

section \<open>The operations against the set of free addresses\<close>

text \<open>The whole pages inside \<open>[b, e)\<close>, and the pages it touches.\<close>

definition page_of :: "nat \<Rightarrow> nat" where
  "page_of x = x div PAGE * PAGE"

definition inner_pages :: "nat \<Rightarrow> nat \<Rightarrow> nat set" where
  "inner_pages b e = {x. b \<le> page_of x \<and> page_of x + PAGE \<le> e}"

definition touched_pages :: "nat \<Rightarrow> nat \<Rightarrow> nat set" where
  "touched_pages b e = {x. {page_of x..<page_of x + PAGE} \<inter> {b..<e} \<noteq> {}}"

definition round_up :: "nat \<Rightarrow> nat" where
  "round_up n = (n + (PAGE - 1)) div PAGE * PAGE"

lemma round_up_facts: "PAGE dvd round_up n" "n \<le> round_up n" "round_up n < n + PAGE"
proof -
  show "PAGE dvd round_up n" by (simp add: round_up_def)
  have "(n + (PAGE - 1)) = round_up n + (n + (PAGE - 1)) mod PAGE"
    unfolding round_up_def by (simp add: div_mult_mod_eq)
  moreover have "(n + (PAGE - 1)) mod PAGE < PAGE" by (simp add: PAGE_def)
  ultimately show "n \<le> round_up n" "round_up n < n + PAGE" by (simp_all add: PAGE_def)
qed

lemma page_of_facts: "PAGE dvd page_of x" "page_of x \<le> x" "x < page_of x + PAGE"
  by (simp_all add: page_of_def PAGE_def)

lemma dvd_page_le: "PAGE dvd a \<Longrightarrow> a \<le> x \<longleftrightarrow> a \<le> page_of x"
  by (auto simp: page_of_def PAGE_def elim!: dvdE)

lemma dvd_page_less: "PAGE dvd a \<Longrightarrow> x < a \<longleftrightarrow> page_of x + PAGE \<le> a"
proof -
  assume "PAGE dvd a"
  then obtain k where a: "a = PAGE * k" by blast
  have "x < PAGE * k \<longleftrightarrow> x div PAGE < k" by (simp add: PAGE_def div_less_iff_less_mult mult.commute)
  also have "\<dots> \<longleftrightarrow> (x div PAGE + 1) * PAGE \<le> k * PAGE" by (auto simp: PAGE_def)
  finally show ?thesis by (simp add: a page_of_def algebra_simps)
qed

lemma dvd_round_up: "PAGE dvd a \<Longrightarrow> b \<le> a \<longleftrightarrow> round_up b \<le> a"
proof
  assume "PAGE dvd a" "b \<le> a"
  then obtain k where a: "a = k * PAGE" by (metis dvd_def mult.commute)
  have "(b + (PAGE - 1)) div PAGE \<le> (k * PAGE + (PAGE - 1)) div PAGE"
    using \<open>b \<le> a\<close> a by (intro div_le_mono) simp
  also have "\<dots> = k" by (simp add: PAGE_def)
  finally show "round_up b \<le> a" unfolding round_up_def a by (rule mult_right_mono) simp
qed (use round_up_facts(2) order_trans in blast)

lemma inner_pages_eq: "inner_pages b e = {round_up b..<page_of e}"
proof (rule set_eqI)
  fix x
  have "b \<le> page_of x \<longleftrightarrow> round_up b \<le> x"
    using dvd_round_up [of "page_of x" b] dvd_page_le [of "round_up b" x] by (simp add: page_of_facts round_up_facts)
  moreover have "page_of x + PAGE \<le> e \<longleftrightarrow> x < page_of e"
    using dvd_page_le [of "page_of x + PAGE" e] dvd_page_less [of "page_of e" x] by (simp add: page_of_facts)
  ultimately show "x \<in> inner_pages b e \<longleftrightarrow> x \<in> {round_up b..<page_of e}"
    by (simp add: inner_pages_def)
qed

lemma touched_pages_eq: "b < e \<Longrightarrow> touched_pages b e = {page_of b..<round_up e}"
proof -
  assume "b < e"
  have t1: "{page_of x..<page_of x + PAGE} \<inter> {b..<e} \<noteq> {} \<longleftrightarrow> b < page_of x + PAGE \<and> page_of x < e" for x
  proof -
    have "{page_of x..<page_of x + PAGE} \<inter> {b..<e} = {max (page_of x) b..<min (page_of x + PAGE) e}" by auto
    then show ?thesis using \<open>b < e\<close> by (auto simp: PAGE_def)
  qed
  have t2: "b < page_of x + PAGE \<longleftrightarrow> page_of b \<le> x" for x
  proof -
    have "b < page_of x + PAGE \<longleftrightarrow> page_of b + PAGE \<le> page_of x + PAGE"
      by (rule dvd_page_less) (simp add: page_of_facts)
    also have "\<dots> \<longleftrightarrow> page_of b \<le> x" using dvd_page_le [of "page_of b" x] by (simp add: page_of_facts)
    finally show ?thesis .
  qed
  have t3: "page_of x < e \<longleftrightarrow> x < round_up e" for x
  proof -
    have "e \<le> page_of x \<longleftrightarrow> round_up e \<le> x"
      using dvd_round_up [of "page_of x" e] dvd_page_le [of "round_up e" x] by (simp add: page_of_facts round_up_facts)
    then show ?thesis by linarith
  qed
  show ?thesis unfolding touched_pages_def t1 t2 t3 by auto
qed

lemma align_facts:
  "x \<le> u64_max \<Longrightarrow> align_down x PAGE = page_of x"
  "x \<le> u64_max \<Longrightarrow> align_up x PAGE = (if x + (PAGE - 1) \<le> u64_max then Some (round_up x) else None)"
  using align_down_page [of x] align_up_page [of x] by (simp_all only: page_of_def round_up_def)

lemma closed_irrelevant [simp]:
  "free_set (f\<lparr> closed := c \<rparr>) = free_set f" "wf_frames (f\<lparr> closed := c \<rparr>) = wf_frames f"
  "accounts A (f\<lparr> closed := c \<rparr>) = accounts A f"
  by (simp_all add: free_set_def wf_frames_def accounts_def fun_eq_iff)

lemma accounts_refl: "wf_frames f \<Longrightarrow> accounts (free_set f) f f"
  by (simp add: accounts_def free_bytes_card) (simp add: free_set_def)

lemma top_page: "not64 (PAGE - 1) = 2 ^ 64 - PAGE" "PAGE dvd not64 (PAGE - 1)"
  by (simp_all add: not64_def u64_max_def PAGE_def)

lemma below_top_page: "PAGE dvd r \<Longrightarrow> r \<le> u64_max \<Longrightarrow> r \<le> not64 (PAGE - 1)"
  unfolding top_page by (auto simp: PAGE_def u64_max_def elim!: dvdE)

lemma add_accounts:
  assumes wf: "wf_frames f" and b: "b \<le> u64_max" and "\<not> closed f"
  shows "accounts (free_set f \<union> inner_pages b (sat_add64 b len)) f (fst (add b len f))
    \<and> snd (add b len f) \<and> \<not> closed (fst (add b len f))"
proof -
  let ?e = "sat_add64 b len"
  have e: "?e \<le> u64_max" by (simp add: sat_add64_def)
  note eq = add_def align_facts(2) [OF b] align_facts(1) [OF e] Let_def
  show ?thesis
  proof (cases "b + (PAGE - 1) \<le> u64_max \<and> round_up b < page_of ?e")
    case True
    then have "add b len f = (insert_range (round_up b) (page_of ?e) f, True)"
      using assms(3) by (simp add: eq)
    moreover have "run_ok (round_up b) (page_of ?e)"
      using True order_trans [OF page_of_facts(2) e] by (simp add: run_ok_def page_of_facts round_up_facts)
    ultimately show ?thesis
      using insert_range_accounts [OF wf, of "round_up b" "page_of ?e"] assms(3) by (simp add: inner_pages_eq)
  next
    case False
    then have "add b len f = (f, True)" using assms(3) by (auto simp: eq)
    moreover have "inner_pages b ?e = {}"
    proof (cases "b + (PAGE - 1) \<le> u64_max")
      case too_high: False
      have "page_of ?e \<le> not64 (PAGE - 1)"
        by (rule below_top_page [OF page_of_facts(1) order_trans [OF page_of_facts(2) e]])
      also have "\<dots> < b" using too_high by (simp add: not64_def PAGE_def u64_max_def)
      also have "b \<le> round_up b" by (rule round_up_facts)
      finally show ?thesis by (simp add: inner_pages_eq)
    qed (use False in \<open>simp add: inner_pages_eq\<close>)
    ultimately show ?thesis using assms(3) accounts_refl [OF wf] by simp
  qed
qed

lemma reserve_accounts:
  assumes wf: "wf_frames f" and b: "b \<le> u64_max"
  shows "accounts (free_set f - touched_pages b (b + len)) f (reserve b len f) \<and> closed (reserve b len f)"
proof (cases "len = 0")
  case True
  then have "touched_pages b (b + len) = {}" by (auto simp: touched_pages_def)
  with True wf show ?thesis using accounts_refl [of "f\<lparr> closed := True \<rparr>"] by (simp add: reserve_def)
next
  case False
  let ?e = "sat_add64 b len"
  have e: "?e \<le> u64_max" by (simp add: sat_add64_def)
  define hi where "hi = (if ?e + (PAGE - 1) \<le> u64_max then round_up ?e else not64 (PAGE - 1))"
  have eq: "reserve b len f = remove (page_of b) hi (f\<lparr> closed := True \<rparr>)"
    using False by (simp add: reserve_def Let_def align_facts(1) [OF b] align_facts(2) [OF e] hi_def)
  have ends: "rend r \<le> not64 (PAGE - 1)" if "r \<in> set (ranges f)" for r
    using that wf below_top_page by (auto simp: wf_frames_def wf_ranges_def wf_range_def)
  have lo: "page_of b \<le> not64 (PAGE - 1)"
    by (rule below_top_page [OF page_of_facts(1) order_trans [OF page_of_facts(2) b]])
  have touched: "touched_pages b (b + len) = {page_of b..<round_up (b + len)}"
    using False by (intro touched_pages_eq) simp
  have acc: "accounts (free_set f - {page_of b..<hi}) f (reserve b len f) \<and> closed (reserve b len f)"
    if "PAGE dvd hi" "page_of b < hi \<or> hi = not64 (PAGE - 1)"
    using remove_accounts [of "f\<lparr> closed := True \<rparr>" "page_of b" hi] wf that lo ends page_of_facts(1)
    unfolding eq by fastforce
  show ?thesis
  proof (cases "?e + (PAGE - 1) \<le> u64_max")
    case True
    then have "?e = b + len" by (auto simp: sat_add64_def PAGE_def)
    moreover have "page_of b < round_up (b + len)"
      using page_of_facts(2) [of b] round_up_facts(2) [of "b + len"] False by linarith
    ultimately show ?thesis using acc True round_up_facts(1) by (simp add: hi_def touched)
  next
    case over: False
    then have "not64 (PAGE - 1) \<le> b + len"
      by (auto simp: sat_add64_def not64_def PAGE_def u64_max_def)
    then have "not64 (PAGE - 1) \<le> round_up (b + len)" using round_up_facts(2) order_trans by blast
    moreover have "free_set f \<subseteq> {..<not64 (PAGE - 1)}"
      using ends by (fastforce simp: free_set_def cover_def span_def)
    ultimately have "free_set f - {page_of b..<not64 (PAGE - 1)} = free_set f - touched_pages b (b + len)"
      unfolding touched by auto
    with acc over top_page(2) show ?thesis by (simp add: hi_def)
  qed
qed

section \<open>Allocation\<close>

definition fits :: "nat \<Rightarrow> nat \<Rightarrow> nat \<Rightarrow> range \<Rightarrow> nat \<Rightarrow> bool" where
  "fits len align ceiling r x \<longleftrightarrow> align dvd x \<and> base r \<le> x \<and> x + len \<le> rend r \<and> x + len \<le> ceiling"

lemma align_down_greatest:
  assumes "t \<le> u64_max" "k \<le> 64"
  shows "2 ^ k dvd align_down t (2 ^ k) \<and> align_down t (2 ^ k) \<le> t
    \<and> (\<forall>x. 2 ^ k dvd x \<and> x \<le> t \<longrightarrow> x \<le> align_down t (2 ^ k))"
proof -
  have "x \<le> t div 2 ^ k * 2 ^ k" if "2 ^ k dvd x" "x \<le> t" for x
  proof -
    from that(1) obtain q where x: "x = q * 2 ^ k" by (metis dvd_def mult.commute)
    with that(2) have "q \<le> t div 2 ^ k" by (simp add: less_eq_div_iff_mult_less_eq)
    then show ?thesis unfolding x by (rule mult_right_mono) simp
  qed
  then show ?thesis by (simp add: align_down_eq [OF assms])
qed

lemma alloc_search_spec:
  assumes "\<forall>r\<in>set rs. wf_range r" "sorted_wrt (\<lambda>a b. rend b < base a) rs" "align = 2 ^ k" "k \<le> 64" "0 < len"
  shows "case alloc_search len align ceiling rs of
      None \<Rightarrow> (\<forall>r\<in>set rs. \<forall>x. \<not> fits len align ceiling r x)
    | Some start \<Rightarrow> (\<exists>r\<in>set rs. fits len align ceiling r start)
        \<and> (\<forall>r\<in>set rs. \<forall>x. fits len align ceiling r x \<longrightarrow> x \<le> start)"
  using assms(1,2)
proof (induction rs)
  case (Cons r rs)
  let ?top = "min (rend r) ceiling"
  let ?start = "align_down (?top - len) align"
  have top: "?top - len \<le> u64_max" using Cons.prems by (auto simp: wf_range_def)
  note ad = align_down_greatest [OF top assms(4), folded assms(3)]
  have later: "x \<le> base r" if "r' \<in> set rs" "fits len align ceiling r' x" for r' x
    using that Cons.prems(2) by (fastforce simp: fits_def)
  have here: "fits len align ceiling r x \<longleftrightarrow> \<not> (?top \<le> base r \<or> ?top - base r < len) \<and> align dvd x
      \<and> base r \<le> x \<and> x \<le> ?top - len" for x
    using assms(5) by (auto simp: fits_def)
  show ?case
  proof (cases "?top \<le> base r \<or> ?top - base r < len \<or> ?start < base r")
    case True
    then have "\<not> fits len align ceiling r x" for x
      unfolding here using ad by (meson leD order_trans order_less_le_trans)
    moreover have "alloc_search len align ceiling (r # rs) = alloc_search len align ceiling rs"
      using True by (auto simp: Let_def)
    ultimately show ?thesis using Cons by (simp split: option.splits)
  next
    case False
    then have "alloc_search len align ceiling (r # rs) = Some ?start" by (auto simp: Let_def)
    moreover have "fits len align ceiling r ?start" unfolding here using False ad by auto
    moreover have "x \<le> ?start" if "r' \<in> set (r # rs)" "fits len align ceiling r' x" for r' x
      using that later [of r' x] False ad here by fastforce
    ultimately show ?thesis by auto
  qed
qed simp

text \<open>A run of free addresses lies inside one range, since ranges never touch.\<close>

lemma run_in_one_range:
  assumes "wf_ranges rs" "{x..<x + n} \<subseteq> cover rs" "0 < n"
  shows "\<exists>r\<in>set rs. base r \<le> x \<and> x + n \<le> rend r"
proof -
  have "x \<in> cover rs" using assms(2,3) by auto
  then obtain r where r: "r \<in> set rs" "base r \<le> x" "x < rend r" by (auto simp: cover_def span_def)
  have "x + n \<le> rend r"
  proof (rule ccontr)
    assume "\<not> x + n \<le> rend r"
    then have "rend r \<in> cover rs" using assms(2) r by auto
    then obtain q where q: "q \<in> set rs" "base q \<le> rend r" "rend r < rend q" by (auto simp: cover_def span_def)
    from assms(1) r(1) q(1) have "q = r \<or> rend q < base r \<or> rend r < base q"
      unfolding wf_ranges_def by (metis in_set_conv_nth linorder_neqE_nat sorted_wrt_nth_less)
    with q r show False using assms(1) by (auto simp: wf_ranges_def wf_range_def)
  qed
  with r show ?thesis by blast
qed

definition free_run :: "nat \<Rightarrow> nat \<Rightarrow> nat \<Rightarrow> frames \<Rightarrow> nat \<Rightarrow> bool" where
  "free_run n align ceiling f x \<longleftrightarrow> align dvd x \<and> x + n \<le> ceiling \<and> {x..<x + n} \<subseteq> free_set f"

lemma round_up_overflow: "len \<le> u64_max \<Longrightarrow> \<not> len + (PAGE - 1) \<le> u64_max \<Longrightarrow> u64_max < round_up len"
proof (rule ccontr)
  assume len: "len \<le> u64_max" "\<not> len + (PAGE - 1) \<le> u64_max" and "\<not> u64_max < round_up len"
  then have "round_up len \<le> not64 (PAGE - 1)" using below_top_page [of "round_up len"] round_up_facts(1) by simp
  with round_up_facts(2) [of len] have "len \<le> not64 (PAGE - 1)" by linarith
  with len show False by (simp add: not64_def PAGE_def u64_max_def)
qed

lemma round_up_pos: "0 < len \<Longrightarrow> 0 < round_up len"
  using round_up_facts(2) [of len] by linarith

lemma max_align:
  assumes "is_power_of_two align" "align \<le> u64_max"
  obtains k where "max align PAGE = 2 ^ k" "k \<le> 64" "PAGE dvd max align PAGE"
proof -
  obtain j where j: "align = 2 ^ j" using is_power_of_two_exp [OF assms(1)] by blast
  with assms(2) have "(2 :: nat) ^ j < 2 ^ 64" by (simp add: u64_max_def)
  then have "j < 64" by (rule power_less_imp_less_exp [rotated]) simp
  moreover have "max align PAGE = 2 ^ max j 12"
  proof (cases "j \<le> 12")
    case True
    then have "(2 :: nat) ^ j \<le> 2 ^ 12" by (intro power_increasing) simp_all
    with True show ?thesis unfolding j page_exp by (simp only: max_absorb2)
  next
    case False
    then have "(2 :: nat) ^ 12 \<le> 2 ^ j" by (intro power_increasing) simp_all
    with False show ?thesis unfolding j page_exp by (simp only: max_absorb1 nat_le_linear)
  qed
  moreover have "PAGE dvd 2 ^ max j 12" unfolding page_exp by (rule le_imp_power_dvd) simp
  ultimately show thesis by (intro that [of "max j 12"]) simp_all
qed

lemma fits_free_run:
  assumes wf: "wf_frames f" and n: "0 < n" "PAGE dvd n" and a: "PAGE dvd align" and c: "ceiling \<le> u64_max"
  shows "(\<exists>r\<in>set (ranges f). fits n align (page_of ceiling) r x) \<longleftrightarrow> free_run n align ceiling f x"
proof -
  have "x + n \<le> page_of ceiling \<longleftrightarrow> x + n \<le> ceiling" if "align dvd x"
    using dvd_page_le [of "x + n" ceiling] that n(2) a by (meson dvd_add dvd_trans)
  moreover have "(\<exists>r\<in>set (ranges f). base r \<le> x \<and> x + n \<le> rend r) \<longleftrightarrow> {x..<x + n} \<subseteq> free_set f"
  proof
    assume "\<exists>r\<in>set (ranges f). base r \<le> x \<and> x + n \<le> rend r"
    then obtain r where "r \<in> set (ranges f)" "{x..<x + n} \<subseteq> span r" by (auto simp: span_def)
    then show "{x..<x + n} \<subseteq> free_set f" by (auto simp: free_set_def cover_def)
  qed (use run_in_one_range [of "ranges f" x n] wf n(1) in \<open>simp add: wf_frames_def free_set_def\<close>)
  ultimately show ?thesis by (auto simp: fits_def free_run_def)
qed

lemma alloc_result:
  assumes wf: "wf_frames f" and u: "len \<le> u64_max" "align \<le> u64_max" "ceiling \<le> u64_max"
    and ok: "0 < len" "is_power_of_two align"
  shows "case alloc len align ceiling f of
      (f', None) \<Rightarrow> f' = f\<lparr> closed := True \<rparr> \<and> (\<forall>x. \<not> free_run (round_up len) (max align PAGE) ceiling f x)
    | (f', Some start) \<Rightarrow>
        free_run (round_up len) (max align PAGE) ceiling f start
      \<and> (\<forall>x. free_run (round_up len) (max align PAGE) ceiling f x \<longrightarrow> x \<le> start)
      \<and> accounts (free_set f - {start..<start + round_up len}) f f' \<and> closed f'"
proof (cases "len + (PAGE - 1) \<le> u64_max")
  case False
  then have "align_up len PAGE = None" using align_facts(2) [OF u(1)] by (simp only: if_False)
  then have "alloc len align ceiling f = (f\<lparr> closed := True \<rparr>, None)"
    using ok by (simp add: alloc_def Let_def)
  with round_up_overflow [OF u(1) False] u(3) show ?thesis by (auto simp: free_run_def)
next
  case True
  let ?n = "round_up len" and ?a = "max align PAGE"
  obtain k where k: "?a = 2 ^ k" "k \<le> 64" "PAGE dvd ?a" using max_align [OF ok(2) u(2)] .
  have up: "align_up len PAGE = Some (round_up len)" using True align_facts(2) [OF u(1)] by (simp only: if_True)
  note eq = alloc_def Let_def up align_facts(1) [OF u(3)]
  note fit = fits_free_run [OF wf round_up_pos [OF ok(1)] round_up_facts(1) k(3) u(3)]
  have sorted: "sorted_wrt (\<lambda>a b. rend b < base a) (rev (ranges f))"
    using wf by (simp add: wf_frames_def wf_ranges_def sorted_wrt_rev)
  have "\<forall>r\<in>set (rev (ranges f)). wf_range r" using wf by (simp add: wf_frames_def wf_ranges_def)
  note spec = alloc_search_spec [OF this sorted k(1,2) round_up_pos [OF ok(1)], of "page_of ceiling"]
  show ?thesis
  proof (cases "alloc_search ?n ?a (page_of ceiling) (rev (ranges f))")
    case None
    then have "alloc len align ceiling f = (f\<lparr> closed := True \<rparr>, None)"
      using ok by (simp add: eq)
    with spec None fit show ?thesis by simp
  next
    case (Some start)
    then have alloc: "alloc len align ceiling f = (remove start (start + ?n) (f\<lparr> closed := True \<rparr>), Some start)"
      using ok by (simp add: eq)
    from spec Some fit have run: "free_run ?n ?a ceiling f start"
      and max: "\<forall>x. free_run ?n ?a ceiling f x \<longrightarrow> x \<le> start"
      by auto
    from run k(3) have "PAGE dvd start" by (meson dvd_trans free_run_def)
    with remove_accounts [of "f\<lparr> closed := True \<rparr>" start "start + ?n"] wf round_up_pos [OF ok(1)] round_up_facts(1)
    have "accounts (free_set f - {start..<start + ?n}) f (remove start (start + ?n) (f\<lparr> closed := True \<rparr>))
        \<and> closed (remove start (start + ?n) (f\<lparr> closed := True \<rparr>))"
      by simp
    with alloc run max show ?thesis by simp
  qed
qed

lemma free_result:
  assumes wf: "wf_frames f" and u: "b \<le> u64_max" "len \<le> u64_max"
  shows "let n = round_up len; (f', ok) = free b len f in
      (ok \<longleftrightarrow> PAGE dvd b \<and> 0 < len \<and> b + n \<le> u64_max \<and> {b..<b + n} \<inter> free_set f = {})
    \<and> (ok \<longrightarrow> accounts (free_set f \<union> {b..<b + n}) f f' \<and> closed f')
    \<and> (\<not> ok \<longrightarrow> f' = f\<lparr> closed := True \<rparr>)"
proof -
  let ?n = "round_up len" and ?f = "f\<lparr> closed := True \<rparr>"
  have overlap: "list_ex (\<lambda>r. base r < b + ?n \<and> b < rend r) (ranges f) \<longleftrightarrow> {b..<b + ?n} \<inter> free_set f \<noteq> {}"
    if "0 < len"
  proof -
    have "base r < b + ?n \<and> b < rend r \<longleftrightarrow> {b..<b + ?n} \<inter> span r \<noteq> {}" if "r \<in> set (ranges f)" for r
    proof -
      have "{b..<b + ?n} \<inter> span r = {max b (base r)..<min (b + ?n) (rend r)}" by (auto simp: span_def)
      moreover have "base r < rend r" using that wf by (simp add: wf_frames_def wf_ranges_def wf_range_def)
      ultimately show ?thesis using round_up_pos [OF \<open>0 < len\<close>] by auto
    qed
    then show ?thesis by (auto simp: list_ex_iff free_set_def cover_def)
  qed
  show ?thesis
  proof (cases "PAGE dvd b \<and> 0 < len \<and> len + (PAGE - 1) \<le> u64_max \<and> b + ?n \<le> u64_max")
    case True
    then have "run_ok b (b + ?n)" using round_up_pos [of len] round_up_facts(1) by (simp add: run_ok_def)
    from insert_range_accounts [of ?f, OF _ this] wf
    have acc: "accounts (free_set f \<union> {b..<b + ?n}) f (insert_range b (b + ?n) ?f)"
      "closed (insert_range b (b + ?n) ?f)"
      by simp_all
    have up: "align_up len PAGE = Some ?n" using True align_facts(2) [OF u(2)] by (simp only: if_True)
    have "free b len f = (if {b..<b + ?n} \<inter> free_set f \<noteq> {} then (?f, False) else (insert_range b (b + ?n) ?f, True))"
      using True overlap by (simp add: free_def Let_def up checked_add64_def dvd_eq_mod_eq_0)
    with acc True show ?thesis by simp
  next
    case False
    have "free b len f = (?f, False)"
    proof (cases "len + (PAGE - 1) \<le> u64_max")
      case True
      then have "align_up len PAGE = Some ?n" using align_facts(2) [OF u(2)] by (simp only: if_True)
      with False True show ?thesis by (auto simp: free_def Let_def checked_add64_def dvd_eq_mod_eq_0)
    next
      case False
      then have "align_up len PAGE = None" using align_facts(2) [OF u(2)] by (simp only: if_False)
      then show ?thesis by (simp add: free_def Let_def)
    qed
    moreover have "\<not> (PAGE dvd b \<and> 0 < len \<and> b + ?n \<le> u64_max)"
      using False round_up_overflow [OF u(2)] by linarith
    ultimately show ?thesis by auto
  qed
qed

section \<open>Properties\<close>





text \<open>
  Runs of the allocator with its clients: \<open>own\<close> the runs handed out and not yet given back (first
  address and length in bytes), \<open>U\<close> the addresses reserved.  A client frees what it was given; a
  reservation names memory no client holds.
\<close>

definition run_set :: "nat \<times> nat \<Rightarrow> nat set" where
  "run_set = (\<lambda>(x, n). {x..<x + n})"

inductive mem_reach :: "nat \<Rightarrow> frames \<Rightarrow> (nat \<times> nat) list \<Rightarrow> nat set \<Rightarrow> bool" for N where
  mem_new: "mem_reach N (frames_new N) [] {}"
| mem_add: "mem_reach N f own U \<Longrightarrow> b \<le> u64_max \<Longrightarrow> len \<le> u64_max \<Longrightarrow> mem_reach N (fst (add b len f)) own U"
| mem_reserve: "mem_reach N f own U \<Longrightarrow> b \<le> u64_max \<Longrightarrow> len \<le> u64_max \<Longrightarrow>
    (\<forall>run\<in>set own. run_set run \<inter> touched_pages b (b + len) = {}) \<Longrightarrow>
    mem_reach N (reserve b len f) own (U \<union> touched_pages b (b + len))"
| mem_alloc: "mem_reach N f own U \<Longrightarrow> len \<le> u64_max \<Longrightarrow> align \<le> u64_max \<Longrightarrow> ceiling \<le> u64_max \<Longrightarrow>
    alloc len align ceiling f = (f', Some start) \<Longrightarrow> mem_reach N f' ((start, round_up len) # own) U"
| mem_free: "mem_reach N f (xs @ (x, n) # ys) U \<Longrightarrow> free x n f = (f', ok) \<Longrightarrow>
    mem_reach N f' (if ok then xs @ ys else xs @ (x, n) # ys) U"

definition unshared :: "nat \<Rightarrow> frames \<Rightarrow> (nat \<times> nat) list \<Rightarrow> nat set \<Rightarrow> bool" where
  "unshared N f own U \<longleftrightarrow> wf_frames f \<and> cap f = N \<and> (\<not> closed f \<longrightarrow> own = [] \<and> U = {})
     \<and> free_set f \<inter> U = {}
     \<and> (\<forall>run\<in>set own. run_set run \<inter> (free_set f \<union> U) = {} \<and> PAGE dvd fst run \<and> PAGE dvd snd run
          \<and> 0 < snd run \<and> fst run + snd run \<le> u64_max)
     \<and> sorted_wrt (\<lambda>a b. run_set a \<inter> run_set b = {}) own"

lemma unshared_shrink:
  assumes "unshared N f own U" "accounts A f f'" "A \<subseteq> free_set f" "closed f'"
  shows "unshared N f' own U"
  using assms by (fastforce simp: unshared_def accounts_def)

lemma unshared_release:
  assumes u: "unshared N f (xs @ (x, n) # ys) U"
    and acc: "accounts (free_set f \<union> {x..<x + n}) f f'" "closed f'"
    and out: "{x..<x + n} \<inter> (free_set f \<union> U) = {}"
    and others: "\<forall>run\<in>set (xs @ ys). {x..<x + n} \<inter> run_set run = {}"
  shows "unshared N f' (xs @ ys) U"
proof -
  have sub: "free_set f' \<subseteq> free_set f \<union> {x..<x + n}" using acc(1) by (simp add: accounts_def)
  have "free_set f' \<inter> U = {}" using sub out u by (auto simp: unshared_def)
  moreover have "run_set run \<inter> (free_set f' \<union> U) = {}" if "run \<in> set (xs @ ys)" for run
  proof -
    have "run_set run \<inter> (free_set f \<union> U) = {}" using u that by (simp add: unshared_def)
    with others that sub show ?thesis by blast
  qed
  moreover have "sorted_wrt (\<lambda>a b. run_set a \<inter> run_set b = {}) (xs @ ys)"
    using u by (simp add: unshared_def sorted_wrt_append)
  moreover have "\<forall>run\<in>set (xs @ ys). PAGE dvd fst run \<and> PAGE dvd snd run \<and> 0 < snd run \<and> fst run + snd run \<le> u64_max"
    using u by (simp add: unshared_def)
  moreover have "wf_frames f'" "cap f' = N" using acc(1) u by (simp_all add: accounts_def unshared_def)
  ultimately show ?thesis using acc(2) unfolding unshared_def by blast
qed

lemma round_up_id: "PAGE dvd n \<Longrightarrow> round_up n = n"
  using dvd_round_up [of n n] round_up_facts(2) [of n] by (simp add: order_antisym)

lemma alloc_None_cases: "alloc len align ceiling f = (f', Some start) \<Longrightarrow> 0 < len \<and> is_power_of_two align"
  by (auto simp: alloc_def Let_def split: if_splits)

lemma mem_reach_unshared: "mem_reach N f own U \<Longrightarrow> unshared N f own U"
proof (induction rule: mem_reach.induct)
  case mem_new
  show ?case by (simp add: unshared_def frames_new_def wf_frames_def free_set_def)
next
  case (mem_add f own U b len)
  show ?case
  proof (cases "closed f")
    case True
    then show ?thesis using mem_add by (simp add: add_def)
  next
    case False
    then have "own = []" "U = {}" "wf_frames f" "cap f = N" using mem_add.IH by (auto simp: unshared_def)
    with add_accounts [OF _ mem_add.hyps(2) False, of len] show ?thesis
      by (auto simp: unshared_def accounts_def)
  qed
next
  case (mem_reserve f own U b len)
  then have wf: "wf_frames f" by (simp add: unshared_def)
  from reserve_accounts [OF wf mem_reserve.hyps(2)]
  have acc: "accounts (free_set f - touched_pages b (b + len)) f (reserve b len f)" "closed (reserve b len f)" by auto
  from unshared_shrink [OF mem_reserve.IH acc(1) _ acc(2)] acc mem_reserve.hyps(4) show ?case
    by (auto simp: unshared_def accounts_def)
next
  case (mem_alloc f own U len align ceiling f' start)
  then have wf: "wf_frames f" and ok: "0 < len" "is_power_of_two align"
    by (simp_all add: unshared_def alloc_None_cases)
  let ?run = "{start..<start + round_up len}"
  from alloc_result [OF wf mem_alloc.hyps(2-4) ok] mem_alloc.hyps(5)
  have run: "free_run (round_up len) (max align PAGE) ceiling f start"
    and acc: "accounts (free_set f - ?run) f f'" "closed f'" by auto
  have page: "PAGE dvd start" using run max_align [OF ok(2) mem_alloc.hyps(3)] by (meson dvd_trans free_run_def)
  have sub: "?run \<subseteq> free_set f" "start + round_up len \<le> u64_max"
    using run mem_alloc.hyps(4) by (auto simp: free_run_def)
  have "unshared N f' own U" by (rule unshared_shrink [OF mem_alloc.IH acc(1) _ acc(2)]) auto
  moreover have "?run \<inter> (free_set f' \<union> U) = {}"
    using acc(1) sub mem_alloc.IH by (auto simp: accounts_def unshared_def)
  moreover have "\<forall>run\<in>set own. ?run \<inter> run_set run = {}"
    using sub mem_alloc.IH by (auto simp: unshared_def)
  ultimately show ?case
    using acc(2) page sub(2) round_up_facts(1) round_up_pos [OF ok(1)] by (auto simp: unshared_def run_set_def)
next
  case (mem_free f xs x n ys U f' ok)
  from mem_free.IH have wf: "wf_frames f" and x: "PAGE dvd x" "PAGE dvd n" "0 < n" "x + n \<le> u64_max"
    and out: "{x..<x + n} \<inter> (free_set f \<union> U) = {}"
    and others: "\<forall>run\<in>set (xs @ ys). {x..<x + n} \<inter> run_set run = {}"
    by (auto simp: unshared_def run_set_def sorted_wrt_append)
  from free_result [of f x n] wf x out mem_free.hyps(2)
  have ok: ok and acc: "accounts (free_set f \<union> {x..<x + n}) f f'" "closed f'"
    by (auto simp: round_up_id Let_def)
  with unshared_release [OF mem_free.IH acc out others] show ?case by simp
qed

text \<open>
  C16: Memory is never shared: in every state the allocator can reach with its clients, the runs
  handed out are pairwise disjoint, none of them overlaps the free set or reserved memory, no
  reserved address is free, and giving back a run that was handed out always succeeds.
\<close>

theorem memory_never_shared:
  assumes "mem_reach N f own U"
  shows "wf_frames f \<and> free_set f \<inter> U = {}
    \<and> (\<forall>run\<in>set own. run_set run \<inter> (free_set f \<union> U) = {} \<and> snd (free (fst run) (snd run) f))
    \<and> sorted_wrt (\<lambda>a b. run_set a \<inter> run_set b = {}) own"
proof -
  have u: "unshared N f own U" using assms by (rule mem_reach_unshared)
  have "snd (free x n f)" if "(x, n) \<in> set own" for x n
  proof -
    have run: "PAGE dvd x" "PAGE dvd n" "0 < n" "x + n \<le> u64_max" "{x..<x + n} \<inter> free_set f = {}"
      using u that by (auto simp: unshared_def run_set_def)
    moreover have "wf_frames f" using u by (simp add: unshared_def)
    ultimately show ?thesis
      using free_result [of f x n] by (cases "free x n f") (simp add: round_up_id Let_def)
  qed
  with u show ?thesis by (auto simp: unshared_def)
qed

theorem memory_never_shared_witness:
  "\<exists>f start. alloc 8192 4096 1048576 (fst (add 4096 65536 (frames_new 4))) = (f, Some start)
     \<and> {start..<start + 8192} \<inter> free_set f = {} \<and> snd (free start 8192 f)"
proof -
  let ?f0 = "fst (add 4096 65536 (frames_new 4))"
  have f0: "?f0 = \<lparr> ranges = [\<lparr> base = 4096, rend = 69632 \<rparr>], cap = 4, dropped = 0, closed = False \<rparr>"
  proof -
    have "align_up 4096 PAGE = Some 4096" "align_down 69632 PAGE = 69632"
      by (subst align_facts; simp add: u64_max_def round_up_def page_of_def PAGE_def)+
    then show ?thesis
      by (simp add: add_def frames_new_def sat_add64_def u64_max_def insert_range_def swallow.simps
          position_after_def place_at_def)
  qed
  have reach0: "mem_reach 4 ?f0 [] {}" by (rule mem_add [OF mem_new]) (simp_all add: u64_max_def)
  have n: "round_up 8192 = 8192" by (simp add: round_up_def PAGE_def)
  have "is_power_of_two 4096" by (simp add: is_power_of_two_def)
  moreover have "wf_frames ?f0" using mem_reach_unshared [OF reach0] by (simp add: unshared_def)
  moreover have "free_run 8192 (max 4096 PAGE) 1048576 ?f0 8192"
    by (auto simp: f0 free_run_def PAGE_def free_set_def cover_def span_def)
  ultimately obtain f start where alloc: "alloc 8192 4096 1048576 ?f0 = (f, Some start)"
    using alloc_result [of ?f0 8192 4096 1048576] by (auto simp: n u64_max_def split: prod.splits option.splits)
  have "mem_reach 4 f [(start, round_up 8192)] {}"
    by (rule mem_alloc [OF reach0 _ _ _ alloc]) (simp_all add: u64_max_def)
  from memory_never_shared [OF this] alloc show ?thesis by (auto simp: n run_set_def)
qed

end
