(* ===== verification/Bytes.thy ===== *)
theory Bytes
  imports Prelude "HOL-Library.Monad_Syntax"
begin

text \<open>
  Byte buffers: what Rust's slice operations do to a \<^verbatim>\<open>[u8]\<close> (every index and every range is
  checked, a failed check panics and is \<open>None\<close> here), and the algebra of reading back what was
  written at another or the same place.  A buffer is a list of bytes; \<open>sub b i n\<close> is the part of
  \<open>n\<close> bytes from \<open>i\<close>, \<open>splice b i xs\<close> is \<open>b\<close> with \<open>xs\<close> written over it from \<open>i\<close>.
\<close>

type_synonym bytes = "u8 list"

section \<open>Checked access\<close>

definition idx :: "'a list \<Rightarrow> nat \<Rightarrow> 'a option" where
  "idx b i = (if i < length b then Some (b ! i) else None)"

definition set_idx :: "'a list \<Rightarrow> nat \<Rightarrow> 'a \<Rightarrow> 'a list option" where
  "set_idx b i v = (if i < length b then Some (b[i := v]) else None)"

text \<open>\<^verbatim>\<open>&b[i..j]\<close>, \<^verbatim>\<open>b[i..j].copy_from_slice(src)\<close> and \<^verbatim>\<open>b[i..j].fill(v)\<close>.\<close>

definition slice :: "'a list \<Rightarrow> nat \<Rightarrow> nat \<Rightarrow> 'a list option" where
  "slice b i j = (if i \<le> j \<and> j \<le> length b then Some (take (j - i) (drop i b)) else None)"

definition copy_slice :: "'a list \<Rightarrow> nat \<Rightarrow> nat \<Rightarrow> 'a list \<Rightarrow> 'a list option" where
  "copy_slice b i j src =
     (if i \<le> j \<and> j \<le> length b \<and> length src = j - i then Some (take i b @ src @ drop j b) else None)"

definition fill_slice :: "'a list \<Rightarrow> nat \<Rightarrow> nat \<Rightarrow> 'a \<Rightarrow> 'a list option" where
  "fill_slice b i j v = copy_slice b i j (replicate (j - i) v)"

section \<open>Parts and splices\<close>

definition sub :: "'a list \<Rightarrow> nat \<Rightarrow> nat \<Rightarrow> 'a list" where
  "sub b i n = take n (drop i b)"

definition splice :: "'a list \<Rightarrow> nat \<Rightarrow> 'a list \<Rightarrow> 'a list" where
  "splice b i xs = take i b @ xs @ drop (i + length xs) b"

definition zeros :: "nat \<Rightarrow> bytes" where
  "zeros n = replicate n 0"

text \<open>\<^verbatim>\<open>iter().any(|&x| x != 0)\<close>, negated.\<close>

definition all_zero :: "bytes \<Rightarrow> bool" where
  "all_zero b \<longleftrightarrow> list_all (\<lambda>x. x = 0) b"

named_theorems slices \<open>checked accesses in range, and reads over writes\<close>

lemma length_zeros [simp]: "length (zeros n) = n"
  by (simp add: zeros_def)

lemma length_sub [simp]: "i + n \<le> length b \<Longrightarrow> length (sub b i n) = n"
  by (simp add: sub_def)

lemma length_splice [simp]: "i + length xs \<le> length b \<Longrightarrow> length (splice b i xs) = length b"
  by (simp add: splice_def)

lemma all_zero_iff: "all_zero b \<longleftrightarrow> b = zeros (length b)"
  by (induction b) (auto simp: all_zero_def zeros_def)

lemma all_zero_zeros [simp]: "all_zero (zeros n)"
  by (simp add: all_zero_iff)

lemma idx_sub [slices]: "i < length b \<Longrightarrow> idx b i = Some (hd (sub b i (Suc 0)))"
  by (simp add: idx_def sub_def hd_drop_conv_nth)

lemma slice_sub [slices]: "i \<le> j \<Longrightarrow> j \<le> length b \<Longrightarrow> slice b i j = Some (sub b i (j - i))"
  by (simp add: slice_def sub_def)

lemma set_idx_splice [slices]: "i < length b \<Longrightarrow> set_idx b i v = Some (splice b i [v])"
  by (simp add: set_idx_def splice_def upd_conv_take_nth_drop)

lemma copy_slice_splice [slices]:
  "i \<le> j \<Longrightarrow> j \<le> length b \<Longrightarrow> length src = j - i \<Longrightarrow> copy_slice b i j src = Some (splice b i src)"
  by (simp add: copy_slice_def splice_def)

lemma fill_slice_splice [slices]:
  "i \<le> j \<Longrightarrow> j \<le> length b \<Longrightarrow> fill_slice b i j 0 = Some (splice b i (zeros (j - i)))"
  by (simp add: fill_slice_def copy_slice_splice zeros_def)

lemma sub_splice_same [slices]:
  "n = length xs \<Longrightarrow> i + n \<le> length b \<Longrightarrow> sub (splice b i xs) i n = xs"
  by (simp add: sub_def splice_def)

lemma sub_splice_left [slices]:
  "i + n \<le> j \<Longrightarrow> j + length xs \<le> length b \<Longrightarrow> sub (splice b j xs) i n = sub b i n"
  by (auto simp: sub_def splice_def min_def drop_take)

lemma sub_splice_right [slices]:
  "j + length xs \<le> i \<Longrightarrow> j + length xs \<le> length b \<Longrightarrow> sub (splice b j xs) i n = sub b i n"
  by (simp add: sub_def splice_def min_def drop_take drop_append)

lemma sub_zeros [slices]: "i + n \<le> m \<Longrightarrow> sub (zeros m) i n = zeros n"
  by (simp add: sub_def zeros_def min_def)

lemma sub_sub [slices]: "j + m \<le> n \<Longrightarrow> sub (sub b i n) j m = sub b (i + j) m"
  by (simp add: sub_def drop_take min_def add.commute)

lemma sub_append_left [slices]: "i + n \<le> length a \<Longrightarrow> sub (a @ b) i n = sub a i n"
  by (simp add: sub_def)

lemma sub_append_right [slices]: "length a \<le> i \<Longrightarrow> sub (a @ b) i n = sub b (i - length a) n"
  by (simp add: sub_def)

lemma sub_all [slices]: "n = length b \<Longrightarrow> sub b 0 n = b"
  by (simp add: sub_def)

lemma splice_splice_same: "length xs = length ys \<Longrightarrow> i + length xs \<le> length b \<Longrightarrow>
    splice (splice b i xs) i ys = splice b i ys"
  by (simp add: splice_def)

lemma splice_splice_adjacent:
  "j = i + length xs \<Longrightarrow> j + length ys \<le> length b \<Longrightarrow>
   splice (splice b i xs) j ys = splice b i (xs @ ys)"
  by (simp add: splice_def ac_simps)

lemma splice_append_left: "i + length xs \<le> length a \<Longrightarrow> splice (a @ b) i xs = splice a i xs @ b"
  by (simp add: splice_def)

lemma splice_whole: "i = 0 \<Longrightarrow> length xs = length b \<Longrightarrow> splice b i xs = xs"
  by (simp add: splice_def)

section \<open>Equality by fields\<close>

text \<open>
  A buffer is determined by the fields a layout cuts it into: \<open>chop ws b\<close> is the list of its
  fields of widths \<open>ws\<close>.
\<close>

fun chop_from :: "nat \<Rightarrow> nat list \<Rightarrow> 'a list \<Rightarrow> 'a list list" where
  "chop_from i [] b = []"
| "chop_from i (w # ws) b = sub b i w # chop_from (i + w) ws b"

lemma concat_chop_from: "concat (chop_from i ws b) = sub b i (sum_list ws)"
proof (induction ws arbitrary: i)
  case (Cons w ws)
  then show ?case by (simp add: sub_def take_add drop_drop add.commute)
qed (simp add: sub_def)

lemma eq_by_fields:
  assumes "chop_from 0 ws b = chop_from 0 ws c" "length b = sum_list ws" "length c = sum_list ws"
  shows "b = c"
proof -
  have "sub b 0 (sum_list ws) = sub c 0 (sum_list ws)"
    by (simp only: concat_chop_from [symmetric] assms(1))
  with assms show ?thesis by (simp add: sub_def)
qed

section \<open>Little-endian integers\<close>

definition le16 :: "u16 \<Rightarrow> bytes" where
  "le16 v = [ucast v, ucast (drop_bit 8 v)]"

definition le32 :: "u32 \<Rightarrow> bytes" where
  "le32 v = le16 (ucast v) @ le16 (ucast (drop_bit 16 v))"

definition le64 :: "u64 \<Rightarrow> bytes" where
  "le64 v = le32 (ucast v) @ le32 (ucast (drop_bit 32 v))"

definition of_le16 :: "bytes \<Rightarrow> u16" where
  "of_le16 b = ucast (b ! 0) OR push_bit 8 (ucast (b ! 1))"

definition of_le32 :: "bytes \<Rightarrow> u32" where
  "of_le32 b = ucast (of_le16 (take 2 b)) OR push_bit 16 (ucast (of_le16 (drop 2 b)))"

definition of_le64 :: "bytes \<Rightarrow> u64" where
  "of_le64 b = ucast (of_le32 (take 4 b)) OR push_bit 32 (ucast (of_le32 (drop 4 b)))"

lemma length_le [simp]: "length (le16 v) = 2" "length (le32 w) = 4" "length (le64 x) = 8"
  by (simp_all add: le16_def le32_def le64_def)

lemma glue16: "ucast (ucast v :: u8) OR push_bit 8 (ucast (ucast (drop_bit 8 v) :: u8)) = (v :: u16)"
  by (rule bit_word_eqI) (auto simp: bit_simps)

lemma glue32: "ucast (ucast v :: u16) OR push_bit 16 (ucast (ucast (drop_bit 16 v) :: u16)) = (v :: u32)"
  by (rule bit_word_eqI) (auto simp: bit_simps)

lemma glue64: "ucast (ucast v :: u32) OR push_bit 32 (ucast (ucast (drop_bit 32 v) :: u32)) = (v :: u64)"
  by (rule bit_word_eqI) (auto simp: bit_simps)

lemma of_le16_le16 [simp]: "of_le16 (le16 v) = v"
  by (simp add: of_le16_def le16_def glue16)

lemma of_le32_le32 [simp]: "of_le32 (le32 v) = v"
  by (simp add: of_le32_def le32_def glue32)

lemma of_le64_le64 [simp]: "of_le64 (le64 v) = v"
  by (simp add: of_le64_def le64_def glue64)

lemma split16: "ucast (ucast x OR push_bit 8 (ucast y) :: u16) = (x :: u8)"
    "ucast (drop_bit 8 (ucast x OR push_bit 8 (ucast y) :: u16)) = (y :: u8)"
  by (rule bit_word_eqI; auto simp: bit_simps dest: bit_imp_le_length)+

lemma split32: "ucast (ucast x OR push_bit 16 (ucast y) :: u32) = (x :: u16)"
    "ucast (drop_bit 16 (ucast x OR push_bit 16 (ucast y) :: u32)) = (y :: u16)"
  by (rule bit_word_eqI; auto simp: bit_simps dest: bit_imp_le_length)+

lemma split64: "ucast (ucast x OR push_bit 32 (ucast y) :: u64) = (x :: u32)"
    "ucast (drop_bit 32 (ucast x OR push_bit 32 (ucast y) :: u64)) = (y :: u32)"
  by (rule bit_word_eqI; auto simp: bit_simps dest: bit_imp_le_length)+

lemma le16_of_le16 [simp]: "length b = 2 \<Longrightarrow> le16 (of_le16 b) = b"
  by (simp only: of_le16_def le16_def split16) (auto simp: length_Suc_conv numeral_2_eq_2)

lemma le32_of_le32 [simp]: "length b = 4 \<Longrightarrow> le32 (of_le32 b) = b"
  by (simp only: of_le32_def le32_def split32) simp

lemma le64_of_le64 [simp]: "length b = 8 \<Longrightarrow> le64 (of_le64 b) = b"
  by (simp only: of_le64_def le64_def split64) simp

section \<open>Layouts\<close>

text \<open>
  A buffer written field by field, from zeros on, is the concatenation of its fields; reading a
  field of such a concatenation walks over the fields before it.
\<close>

named_theorems layout \<open>writing and reading the fields of a concatenation\<close>

lemma splice_append_right [layout]:
  "length a \<le> i \<Longrightarrow> splice (a @ b) i xs = a @ splice b (i - length a) xs"
  by (simp add: splice_def)

lemma splice_append_left_layout [layout]:
  "i + length xs \<le> length a \<Longrightarrow> splice (a @ b) i xs = splice a i xs @ b"
  by (rule splice_append_left)

lemma splice_zeros [layout]:
  "i + length xs \<le> n \<Longrightarrow> splice (zeros n) i xs = zeros i @ xs @ zeros (n - i - length xs)"
  by (simp add: splice_def zeros_def min_def)

lemma zeros_0 [simp]: "zeros 0 = []"
  by (simp add: zeros_def)

lemma zeros_eq_Nil [simp]: "zeros n = [] \<longleftrightarrow> n = 0"
  by (simp add: zeros_def)

lemma sub_append_left' [layout]: "i + n \<le> length a \<Longrightarrow> sub (a @ b) i n = sub a i n"
  by (rule sub_append_left)

lemma sub_append_right' [layout]: "length a \<le> i \<Longrightarrow> sub (a @ b) i n = sub b (i - length a) n"
  by (rule sub_append_right)

lemma sub_all' [layout]: "n = length b \<Longrightarrow> sub b 0 n = b"
  by (rule sub_all)

lemma sub_zeros' [layout]: "i + n \<le> m \<Longrightarrow> sub (zeros m) i n = zeros n"
  by (rule sub_zeros)

lemma sub_append_cover: "length a \<le> n \<Longrightarrow> sub (a @ b) 0 n = a @ sub b 0 (n - length a)"
  by (simp add: sub_def)

lemma sub_Cons_0 [layout]: "sub (x # xs) 0 (Suc 0) = [x]"
  by (simp add: sub_def)

lemma sub_Cons_pos [layout]: "0 < i \<Longrightarrow> sub (x # xs) i n = sub xs (i - 1) n"
  by (simp add: sub_def drop_Cons')

lemma drop_eq_sub: "n = length b - i \<Longrightarrow> drop i b = sub b i n"
  by (simp add: sub_def)

lemma take_eq_sub: "take n b = sub b 0 n"
  by (simp add: sub_def)

lemma eq_concat_fields:
  assumes "length b = sum_list ws"
  shows "concat (chop_from 0 ws b) = b"
  using assms by (simp add: concat_chop_from sub_def)

lemma splice_Cons [layout]: "0 < i \<Longrightarrow> splice (x # b) i xs = x # splice b (i - 1) xs"
  by (cases i) (simp_all add: splice_def)

lemma take_splice_0: "n = length e \<Longrightarrow> take n (splice b 0 e) = e"
  by (simp add: splice_def)

lemma slice_tail: "i \<le> length b \<Longrightarrow> slice b i (length b) = Some (drop i b)"
  by (simp add: slice_def)

end
