(* ===== verification/Blake3.thy ===== *)
theory Blake3
  imports Bytes
begin

text \<open>
  BLAKE3, \<^verbatim>\<open>src/crates/nanochrono-core/src/blake3.rs\<close>: the compression function, the chunk
  being filled, the incremental tree hasher with its stack of completed subtrees, the extendable
  output and the three modes.  Integers whose bits are mixed are words; lengths, the chunk counter
  (64 bits in the code, at most \<open>2 ^ 54\<close> here) and the stack depth are naturals.  A panic (an index
  or a subtraction out of range) is \<open>None\<close>.

  The reference is the recursive tree of the BLAKE3 specification: the left subtree of an input
  takes the largest power of two of chunks that leaves at least one byte on the right.  The
  theorems show that the incremental hasher, however its input is cut, computes that tree's
  output without a panic, at every position of the output stream.
\<close>

section \<open>Constants\<close>

definition OUT_LEN :: nat where "OUT_LEN = 32"
definition B3_KEY_LEN :: nat where "B3_KEY_LEN = 32"
definition BLOCK_LEN :: nat where "BLOCK_LEN = 64"
definition CHUNK_LEN :: nat where "CHUNK_LEN = 1024"

definition CHUNK_START :: u32 where "CHUNK_START = 1"
definition CHUNK_END :: u32 where "CHUNK_END = 2"
definition PARENT :: u32 where "PARENT = 4"
definition ROOT :: u32 where "ROOT = 8"
definition KEYED_HASH :: u32 where "KEYED_HASH = 16"
definition DERIVE_KEY_CONTEXT :: u32 where "DERIVE_KEY_CONTEXT = 32"
definition DERIVE_KEY_MATERIAL :: u32 where "DERIVE_KEY_MATERIAL = 64"

definition IV :: "u32 list" where
  "IV = [0x6A09E667, 0xBB67AE85, 0x3C6EF372, 0xA54FF53A, 0x510E527F, 0x9B05688C, 0x1F83D9AB, 0x5BE0CD19]"

definition PERMUTATION :: "nat list" where
  "PERMUTATION = [2, 6, 3, 10, 7, 0, 4, 13, 1, 11, 12, 5, 9, 14, 15, 8]"

lemmas b3_consts = OUT_LEN_def B3_KEY_LEN_def BLOCK_LEN_def CHUNK_LEN_def

section \<open>The compression function\<close>

definition b3_g :: "u32 list \<Rightarrow> nat \<Rightarrow> nat \<Rightarrow> nat \<Rightarrow> nat \<Rightarrow> u32 \<Rightarrow> u32 \<Rightarrow> u32 list" where
  "b3_g s a b c d x y = (
     let s = s[a := s ! a + s ! b + x];
         s = s[d := word_rotr 16 (s ! d XOR s ! a)];
         s = s[c := s ! c + s ! d];
         s = s[b := word_rotr 12 (s ! b XOR s ! c)];
         s = s[a := s ! a + s ! b + y];
         s = s[d := word_rotr 8 (s ! d XOR s ! a)];
         s = s[c := s ! c + s ! d];
         s = s[b := word_rotr 7 (s ! b XOR s ! c)]
     in s)"

definition b3_round :: "u32 list \<Rightarrow> u32 list \<Rightarrow> u32 list" where
  "b3_round s m = (
     let s = b3_g s 0 4 8 12 (m ! 0) (m ! 1);
         s = b3_g s 1 5 9 13 (m ! 2) (m ! 3);
         s = b3_g s 2 6 10 14 (m ! 4) (m ! 5);
         s = b3_g s 3 7 11 15 (m ! 6) (m ! 7);
         s = b3_g s 0 5 10 15 (m ! 8) (m ! 9);
         s = b3_g s 1 6 11 12 (m ! 10) (m ! 11);
         s = b3_g s 2 7 8 13 (m ! 12) (m ! 13);
         s = b3_g s 3 4 9 14 (m ! 14) (m ! 15)
     in s)"

text \<open>The seven rounds; \<open>r\<close> rounds are left, and the words are permuted between two rounds.\<close>

fun b3_rounds :: "nat \<Rightarrow> u32 list \<Rightarrow> u32 list \<Rightarrow> u32 list" where
  "b3_rounds 0 s m = s"
| "b3_rounds (Suc r) s m =
     b3_rounds r (b3_round s m) (if r = 0 then m else map (\<lambda>src. m ! src) PERMUTATION)"

definition b3_feed_forward :: "u32 list \<Rightarrow> nat \<Rightarrow> u32 list \<Rightarrow> u32 list" where
  "b3_feed_forward cv i s =
     (let s = s[i := s ! i XOR s ! (i + 8)] in s[i + 8 := s ! (i + 8) XOR cv ! i])"

definition b3_compress :: "u32 list \<Rightarrow> u32 list \<Rightarrow> nat \<Rightarrow> u32 \<Rightarrow> u32 \<Rightarrow> u32 list" where
  "b3_compress cv block counter block_len flags = (
     let s = [cv ! 0, cv ! 1, cv ! 2, cv ! 3, cv ! 4, cv ! 5, cv ! 6, cv ! 7,
              IV ! 0, IV ! 1, IV ! 2, IV ! 3,
              word_of_nat counter, word_of_nat (counter div 2 ^ 32), block_len, flags];
         s = b3_rounds 7 s block
     in fold (b3_feed_forward cv) [0..<8] s)"

definition first8 :: "u32 list \<Rightarrow> u32 list" where
  "first8 w = take 8 w"

definition b3_words :: "bytes \<Rightarrow> u32 list" where
  "b3_words bs = fold (\<lambda>(i, b) w. w[i div 4 := w ! (i div 4) OR push_bit (8 * (i mod 4)) (ucast b)])
     (enumerate 0 (take BLOCK_LEN bs)) (replicate 16 0)"

definition key_words :: "bytes \<Rightarrow> u32 list" where
  "key_words key = first8 (b3_words key)"

section \<open>Output nodes\<close>

record b3_output =
  o_cv :: "u32 list"
  o_block :: "u32 list"
  o_counter :: nat
  o_block_len :: u32
  o_flags :: u32

definition chaining_value :: "b3_output \<Rightarrow> u32 list" where
  "chaining_value out =
     first8 (b3_compress (o_cv out) (o_block out) (o_counter out) (o_block_len out) (o_flags out))"

text \<open>The 64 bytes of output block \<open>counter\<close> of a root node.\<close>

definition root_block :: "b3_output \<Rightarrow> nat \<Rightarrow> bytes" where
  "root_block out counter =
     concat (map le32 (b3_compress (o_cv out) (o_block out) counter (o_block_len out) (o_flags out OR ROOT)))"

text \<open>
  The loop of \<^verbatim>\<open>root_bytes\<close> filling \<open>n\<close> more bytes; \<open>skip\<close> is a remainder modulo 64 at its only
  call and 0 after the first turn, so that the second guard never decides.
\<close>

function root_bytes_loop :: "b3_output \<Rightarrow> nat \<Rightarrow> nat \<Rightarrow> nat \<Rightarrow> bytes" where
  "root_bytes_loop out counter skip n =
     (if n = 0 \<or> 2 * OUT_LEN \<le> skip then []
      else let bs = root_block out counter;
               k = min (2 * OUT_LEN - skip) n
           in sub bs skip k @ root_bytes_loop out (counter + 1) 0 (n - k))"
  by pat_completeness auto
termination
  by (relation "measure (\<lambda>(_, _, _, n). n)") (auto simp: b3_consts)

definition root_bytes :: "b3_output \<Rightarrow> nat \<Rightarrow> nat \<Rightarrow> bytes" where
  "root_bytes out seek n = root_bytes_loop out (seek div (2 * OUT_LEN)) (seek mod (2 * OUT_LEN)) n"

section \<open>The chunk being filled\<close>

record chunk =
  c_cv :: "u32 list"
  c_counter :: nat
  c_block :: bytes
  c_block_len :: nat
  c_blocks_done :: nat
  c_flags :: u32

definition chunk_new :: "u32 list \<Rightarrow> nat \<Rightarrow> u32 \<Rightarrow> chunk" where
  "chunk_new key counter flags = \<lparr> c_cv = key, c_counter = counter, c_block = zeros BLOCK_LEN,
     c_block_len = 0, c_blocks_done = 0, c_flags = flags \<rparr>"

definition chunk_len :: "chunk \<Rightarrow> nat" where
  "chunk_len c = BLOCK_LEN * c_blocks_done c + c_block_len c"

definition start_flag :: "chunk \<Rightarrow> u32" where
  "start_flag c = (if c_blocks_done c = 0 then CHUNK_START else 0)"

text \<open>The full buffer of a chunk compressed into its chaining value.\<close>

definition chunk_flush :: "chunk \<Rightarrow> chunk" where
  "chunk_flush c = c \<lparr>
     c_cv := first8 (b3_compress (c_cv c) (b3_words (c_block c)) (c_counter c)
               (word_of_nat BLOCK_LEN) (c_flags c OR start_flag c)),
     c_blocks_done := c_blocks_done c + 1,
     c_block := zeros BLOCK_LEN,
     c_block_len := 0 \<rparr>"

function chunk_update :: "chunk \<Rightarrow> bytes \<Rightarrow> chunk option" where
  "chunk_update c input =
     (if input = [] then Some c
      else let c = (if c_block_len c = BLOCK_LEN then chunk_flush c else c);
               at = c_block_len c
           in if BLOCK_LEN < at then None
              else let n = min (BLOCK_LEN - at) (length input)
                   in do {
                     block \<leftarrow> copy_slice (c_block c) at (at + n) (take n input);
                     chunk_update (c \<lparr> c_block := block, c_block_len := at + n \<rparr>) (drop n input)
                   })"
  by pat_completeness auto
termination
  by (relation "measure (\<lambda>(_, input). length input)") (auto simp: b3_consts chunk_flush_def split: if_splits)

definition chunk_output :: "chunk \<Rightarrow> b3_output" where
  "chunk_output c = \<lparr>
     o_cv = c_cv c,
     o_block = b3_words (take (c_block_len c) (c_block c)),
     o_counter = c_counter c,
     o_block_len = word_of_nat (c_block_len c),
     o_flags = c_flags c OR start_flag c OR CHUNK_END \<rparr>"

definition b3_parent :: "u32 list \<Rightarrow> u32 list \<Rightarrow> u32 list \<Rightarrow> u32 \<Rightarrow> b3_output" where
  "b3_parent left right key flags = \<lparr>
     o_cv = key, o_block = left @ right, o_counter = 0,
     o_block_len = word_of_nat BLOCK_LEN, o_flags = PARENT OR flags \<rparr>"

section \<open>The hasher\<close>

record hasher =
  h_chunk :: chunk
  h_key :: "u32 list"
  h_stack :: "u32 list list"
  h_depth :: nat
  h_flags :: u32

definition hasher_with :: "u32 list \<Rightarrow> u32 \<Rightarrow> hasher" where
  "hasher_with key flags = \<lparr> h_chunk = chunk_new key 0 flags, h_key = key,
     h_stack = replicate 54 (replicate 8 0), h_depth = 0, h_flags = flags \<rparr>"

definition hasher_new :: hasher where
  "hasher_new = hasher_with IV 0"

definition hasher_new_keyed :: "bytes \<Rightarrow> hasher" where
  "hasher_new_keyed key = hasher_with (key_words key) KEYED_HASH"

text \<open>The loop of \<^verbatim>\<open>add_chunk_cv\<close>: the depth and the chaining value it ends with.\<close>

fun merge_loop :: "u32 list \<Rightarrow> u32 \<Rightarrow> u32 list list \<Rightarrow> nat \<Rightarrow> u32 list \<Rightarrow> nat \<Rightarrow> (nat \<times> u32 list) option" where
  "merge_loop key flags stack 0 cv tot = (if even tot then None else Some (0, cv))"
| "merge_loop key flags stack (Suc d) cv tot =
     (if even tot
      then do {
        left \<leftarrow> idx stack d;
        merge_loop key flags stack d (chaining_value (b3_parent left cv key flags)) (tot div 2)
      }
      else Some (Suc d, cv))"

definition add_chunk_cv :: "hasher \<Rightarrow> u32 list \<Rightarrow> nat \<Rightarrow> hasher option" where
  "add_chunk_cv h cv tot = do {
     (d, cv) \<leftarrow> merge_loop (h_key h) (h_flags h) (h_stack h) (h_depth h) cv tot;
     stack \<leftarrow> set_idx (h_stack h) d cv;
     Some (h \<lparr> h_stack := stack, h_depth := d + 1 \<rparr>)
   }"

text \<open>The first half of a turn of \<^verbatim>\<open>update\<close>: a full chunk with more input to come.\<close>

definition roll_chunk :: "hasher \<Rightarrow> hasher option" where
  "roll_chunk h =
     (if chunk_len (h_chunk h) = CHUNK_LEN
      then let cv = chaining_value (chunk_output (h_chunk h));
               tot = c_counter (h_chunk h) + 1
           in do {
             h' \<leftarrow> add_chunk_cv h cv tot;
             Some (h' \<lparr> h_chunk := chunk_new (h_key h') tot (h_flags h') \<rparr>)
           }
      else Some h)"

lemma roll_chunk_room: "roll_chunk h = Some h' \<Longrightarrow> chunk_len (h_chunk h') \<noteq> CHUNK_LEN"
  by (auto simp: roll_chunk_def Let_def chunk_len_def chunk_new_def b3_consts
      split: if_splits bind_splits)

function hasher_update :: "hasher \<Rightarrow> bytes \<Rightarrow> hasher option" where
  "hasher_update h input =
     (if input = [] then Some h
      else do {
        h \<leftarrow> roll_chunk h;
        let len = chunk_len (h_chunk h);
        if CHUNK_LEN < len then None
        else do {
          let n = min (CHUNK_LEN - len) (length input);
          c \<leftarrow> chunk_update (h_chunk h) (take n input);
          hasher_update (h \<lparr> h_chunk := c \<rparr>) (drop n input)
        }
      })"
  by pat_completeness auto
termination
  by (relation "measure (\<lambda>(_, input). length input)") (auto simp: b3_consts dest: roll_chunk_room)

fun root_loop :: "u32 list list \<Rightarrow> u32 list \<Rightarrow> u32 \<Rightarrow> nat \<Rightarrow> b3_output \<Rightarrow> b3_output option" where
  "root_loop stack key flags 0 out = Some out"
| "root_loop stack key flags (Suc i) out = do {
     left \<leftarrow> idx stack i;
     root_loop stack key flags i (b3_parent left (chaining_value out) key flags)
   }"

definition hasher_root :: "hasher \<Rightarrow> b3_output option" where
  "hasher_root h = root_loop (h_stack h) (h_key h) (h_flags h) (h_depth h) (chunk_output (h_chunk h))"

definition finalize_xof :: "hasher \<Rightarrow> nat \<Rightarrow> nat \<Rightarrow> bytes option" where
  "finalize_xof h seek n = do { out \<leftarrow> hasher_root h; Some (root_bytes out seek n) }"

definition finalize :: "hasher \<Rightarrow> bytes option" where
  "finalize h = do { out \<leftarrow> hasher_root h; Some (root_bytes out 0 OUT_LEN) }"

definition new_derive_key :: "bytes \<Rightarrow> hasher option" where
  "new_derive_key ctxt = do {
     h \<leftarrow> hasher_update (hasher_with IV DERIVE_KEY_CONTEXT) ctxt;
     ck \<leftarrow> finalize_xof h 0 B3_KEY_LEN;
     Some (hasher_with (key_words ck) DERIVE_KEY_MATERIAL)
   }"

definition blake3_hash :: "bytes \<Rightarrow> bytes option" where
  "blake3_hash data = do { h \<leftarrow> hasher_update hasher_new data; finalize h }"

definition keyed_hash :: "bytes \<Rightarrow> bytes \<Rightarrow> bytes option" where
  "keyed_hash key data = do { h \<leftarrow> hasher_update (hasher_new_keyed key) data; finalize h }"

definition derive_key :: "bytes \<Rightarrow> bytes \<Rightarrow> bytes option" where
  "derive_key ctxt material = do {
     h \<leftarrow> new_derive_key ctxt;
     h \<leftarrow> hasher_update h material;
     finalize h
   }"

definition ct_eq :: "bytes \<Rightarrow> bytes \<Rightarrow> bool" where
  "ct_eq a b \<longleftrightarrow> fold (\<lambda>(x, y) d. d OR (x XOR y)) (zip a b) (0 :: u8) = 0"

section \<open>The reference: the tree of the specification\<close>

text \<open>
  \<open>chain\<close> is the chaining value of a chunk after its first \<open>i\<close> blocks; \<open>chunk_node\<close> is the node
  of a chunk, its last block (the only one that may be short) left uncompressed.
\<close>

primrec chain :: "u32 list \<Rightarrow> nat \<Rightarrow> u32 \<Rightarrow> bytes \<Rightarrow> nat \<Rightarrow> u32 list" where
  "chain key counter flags bs 0 = key"
| "chain key counter flags bs (Suc i) =
     first8 (b3_compress (chain key counter flags bs i) (b3_words (sub bs (BLOCK_LEN * i) BLOCK_LEN)) counter
       (word_of_nat BLOCK_LEN) (flags OR (if i = 0 then CHUNK_START else 0)))"

definition chunk_node :: "u32 list \<Rightarrow> u32 \<Rightarrow> nat \<Rightarrow> bytes \<Rightarrow> b3_output" where
  "chunk_node key flags counter bs = (let i = (length bs - 1) div BLOCK_LEN in \<lparr>
     o_cv = chain key counter flags bs i,
     o_block = b3_words (drop (BLOCK_LEN * i) bs),
     o_counter = counter,
     o_block_len = word_of_nat (length bs - BLOCK_LEN * i),
     o_flags = flags OR (if i = 0 then CHUNK_START else 0) OR CHUNK_END \<rparr>)"

text \<open>The largest power of two not above a positive number.\<close>

fun pow2_below :: "nat \<Rightarrow> nat" where
  "pow2_below n = (if n \<le> 1 then 1 else 2 * pow2_below (n div 2))"

declare pow2_below.simps [simp del]

lemma pow2_below_pos [simp]: "0 < pow2_below n"
  by (induction n rule: pow2_below.induct) (subst pow2_below.simps, simp)

lemma pow2_below_le: "0 < n \<Longrightarrow> pow2_below n \<le> n"
proof (induction n rule: pow2_below.induct)
  case (1 n)
  then show ?case by (cases "n \<le> 1") (subst pow2_below.simps, simp)+
qed

lemma pow2_below_double: "0 < n \<Longrightarrow> pow2_below (2 * n) = 2 * pow2_below n"
  by (subst pow2_below.simps) simp

lemma pow2_below_double_Suc: "0 < n \<Longrightarrow> pow2_below (2 * n + 1) = 2 * pow2_below n"
  by (subst pow2_below.simps) simp

lemma left_part_short:
  assumes "CHUNK_LEN < length bs"
  shows "CHUNK_LEN * pow2_below ((length bs - 1) div CHUNK_LEN) < length bs"
proof -
  have "0 < (length bs - 1) div CHUNK_LEN"
    using assms by (simp add: b3_consts div_greater_zero_iff)
  then have "pow2_below ((length bs - 1) div CHUNK_LEN) \<le> (length bs - 1) div CHUNK_LEN"
    by (rule pow2_below_le)
  then have "CHUNK_LEN * pow2_below ((length bs - 1) div CHUNK_LEN)
      \<le> CHUNK_LEN * ((length bs - 1) div CHUNK_LEN)"
    by (rule mult_le_mono2)
  also have "\<dots> \<le> length bs - 1" by (rule times_div_less_eq_dividend)
  finally show ?thesis using assms by linarith
qed

text \<open>The node of an input that starts at chunk \<open>s\<close>.\<close>

function subtree :: "u32 list \<Rightarrow> u32 \<Rightarrow> nat \<Rightarrow> bytes \<Rightarrow> b3_output" where
  "subtree key flags s bs =
     (if length bs \<le> CHUNK_LEN then chunk_node key flags s bs
      else let p = pow2_below ((length bs - 1) div CHUNK_LEN)
           in b3_parent (chaining_value (subtree key flags s (take (CHUNK_LEN * p) bs)))
                (chaining_value (subtree key flags (s + p) (drop (CHUNK_LEN * p) bs))) key flags)"
  by pat_completeness auto

termination
proof (relation "measure (\<lambda>(_, _, _, bs). length bs)")
  fix key :: "u32 list" and flags :: u32 and s p :: nat and bs :: bytes
  assume a: "\<not> length bs \<le> CHUNK_LEN" "p = pow2_below ((length bs - 1) div CHUNK_LEN)"
  then have "CHUNK_LEN * p < length bs" using left_part_short [of bs] by simp
  then show "((key, flags, s, take (CHUNK_LEN * p) bs), key, flags, s, bs)
      \<in> measure (\<lambda>(_, _, _, bs). length bs)" by simp
  have "length bs - CHUNK_LEN * p < length bs" using a by (intro diff_less) (auto simp: b3_consts)
  then show "((key, flags, s + p, drop (CHUNK_LEN * p) bs), key, flags, s, bs)
      \<in> measure (\<lambda>(_, _, _, bs). length bs)" by simp
qed simp

declare subtree.simps [simp del] chunk_update.simps [simp del] hasher_update.simps [simp del]
  root_bytes_loop.simps [simp del]

text \<open>Byte \<open>i\<close> of the output stream of a root node.\<close>

definition stream_byte :: "b3_output \<Rightarrow> nat \<Rightarrow> u8" where
  "stream_byte out i = root_block out (i div 64) ! (i mod 64)"

section \<open>Lengths\<close>

lemma length_b3_g [simp]: "length (b3_g s a b c d x y) = length s"
  by (simp add: b3_g_def Let_def)

lemma length_b3_round [simp]: "length (b3_round s m) = length s"
  by (simp add: b3_round_def Let_def)

lemma length_b3_rounds [simp]: "length (b3_rounds r s m) = length s"
  by (induction r arbitrary: s m) simp_all

lemma length_feed_forward: "length (fold (b3_feed_forward cv) is s) = length s"
  by (induction "is" arbitrary: s) (simp_all add: b3_feed_forward_def Let_def)

lemma length_b3_compress [simp]: "length (b3_compress cv block counter block_len flags) = 16"
  by (simp only: b3_compress_def Let_def length_feed_forward length_b3_rounds) simp

lemma length_root_block [simp]: "length (root_block out counter) = 64"
  by (simp add: root_block_def length_concat comp_def sum_list_triv)

lemma length_chaining_value [simp]: "length (chaining_value out) = 8"
  by (simp add: chaining_value_def first8_def)

section \<open>The output stream\<close>

lemma sub_as_map: "i + n \<le> length b \<Longrightarrow> sub b i n = map (\<lambda>j. b ! j) [i..<i + n]"
  by (rule nth_equalityI) (simp_all add: sub_def)

lemma root_bytes_loop_stream:
  "skip < 64 \<Longrightarrow> root_bytes_loop out counter skip n
     = map (stream_byte out) [64 * counter + skip..<64 * counter + skip + n]"
proof (induction out counter skip n rule: root_bytes_loop.induct)
  case (1 out counter skip n)
  define k where "k = min (64 - skip) n"
  show ?case
  proof (cases "n = 0")
    case False
    have k: "skip + k \<le> 64" "k \<le> n" "k < n \<Longrightarrow> skip + k = 64"
      using \<open>skip < 64\<close> by (auto simp: k_def)
    have here: "sub (root_block out counter) skip k
        = map (stream_byte out) [64 * counter + skip..<64 * counter + skip + k]"
      using k(1) by (auto simp: sub_as_map stream_byte_def add.assoc intro!: nth_equalityI)
    have "root_bytes_loop out counter skip n
        = sub (root_block out counter) skip k @ root_bytes_loop out (counter + 1) 0 (n - k)"
      using False \<open>skip < 64\<close> by (subst root_bytes_loop.simps) (simp add: b3_consts k_def Let_def)
    also have "root_bytes_loop out (counter + 1) 0 (n - k)
        = map (stream_byte out) [64 * counter + skip + k..<64 * counter + skip + n]"
    proof (cases "k < n")
      case True
      have "root_bytes_loop out (counter + 1) 0 (n - k)
          = map (stream_byte out) [64 * (counter + 1) + 0..<64 * (counter + 1) + 0 + (n - k)]"
        using 1(1) [OF _ refl refl] False \<open>skip < 64\<close> by (simp add: b3_consts k_def)
      moreover have "64 * (counter + 1) + 0 = 64 * counter + skip + k"
          "64 * (counter + 1) + 0 + (n - k) = 64 * counter + skip + n"
        using True k(3) by auto
      ultimately show ?thesis by (simp only:)
    next
      case False
      then have "k = n" using k(2) by simp
      then show ?thesis by (simp add: root_bytes_loop.simps)
    qed
    finally show ?thesis
      unfolding here map_append [symmetric] using k(2)
      by (metis add.assoc le_add_diff_inverse le_add1 upt_add_eq_append)
  qed (simp add: root_bytes_loop.simps)
qed

lemma root_bytes_stream: "root_bytes out seek n = map (stream_byte out) [seek..<seek + n]"
  by (simp add: root_bytes_def root_bytes_loop_stream b3_consts)

lemma length_root_bytes [simp]: "length (root_bytes out seek n) = n"
  by (simp add: root_bytes_stream)

section \<open>Filling a chunk\<close>

text \<open>The state of a chunk that holds \<open>bs\<close>, its first \<open>i\<close> blocks compressed.\<close>

definition chunk_at :: "u32 list \<Rightarrow> u32 \<Rightarrow> nat \<Rightarrow> bytes \<Rightarrow> nat \<Rightarrow> chunk" where
  "chunk_at key flags counter bs i = \<lparr>
     c_cv = chain key counter flags bs i, c_counter = counter,
     c_block = drop (64 * i) bs @ zeros (64 - (length bs - 64 * i)),
     c_block_len = length bs - 64 * i, c_blocks_done = i, c_flags = flags \<rparr>"

definition chunk_of :: "u32 list \<Rightarrow> u32 \<Rightarrow> nat \<Rightarrow> bytes \<Rightarrow> chunk" where
  "chunk_of key flags counter bs = chunk_at key flags counter bs ((length bs - 1) div 64)"

lemma chain_append: "64 * i \<le> length bs \<Longrightarrow> chain key counter flags (bs @ xs) i = chain key counter flags bs i"
  by (induction i) (simp_all add: b3_consts sub_append_left)

lemma chunk_flush_at:
  assumes "length bs = 64 * i + 64"
  shows "chunk_flush (chunk_at key flags counter bs i) = chunk_at key flags counter bs (Suc i)"
  using assms by (simp add: chunk_flush_def chunk_at_def start_flag_def b3_consts zeros_def sub_def)

lemma chunk_fill_at:
  assumes "64 * i \<le> length bs" "length bs + length xs \<le> 64 * i + 64"
  shows "copy_slice (c_block (chunk_at key flags counter bs i)) (length bs - 64 * i)
           (length bs - 64 * i + length xs) xs = Some (c_block (chunk_at key flags counter (bs @ xs) i))"
proof -
  obtain b where b: "b = drop (64 * i) bs" "length b = length bs - 64 * i" by simp
  then have len: "length b + length xs \<le> 64" using assms by linarith
  have "copy_slice (b @ zeros (64 - length b)) (length b) (length b + length xs) xs
      = Some (b @ xs @ zeros (64 - (length b + length xs)))"
    using len by (simp add: copy_slice_def zeros_def)
  with b assms show ?thesis by (simp add: chunk_at_def)
qed

lemma chunk_at_append:
  "64 * i \<le> length bs \<Longrightarrow> chunk_at key flags counter (bs @ xs) i =
    chunk_at key flags counter bs i
      \<lparr> c_block := c_block (chunk_at key flags counter (bs @ xs) i),
        c_block_len := length bs - 64 * i + length xs \<rparr>"
  by (simp add: chunk_at_def chain_append)

lemma div_64_eq: "64 * i < n \<Longrightarrow> n \<le> 64 * i + 64 \<Longrightarrow> (n - 1) div 64 = (i :: nat)"
  by (rule div_nat_eqI) auto

lemma chunk_update_turn:
  assumes room: "64 * i \<le> length bs" "length bs < 64 * i + 64" and "input \<noteq> []"
    and c: "(if c_block_len c = BLOCK_LEN then chunk_flush c else c) = chunk_at key flags counter bs i"
  obtains xs ys where "input = xs @ ys" "xs \<noteq> []"
    "chunk_update c input = chunk_update (chunk_of key flags counter (bs @ xs)) ys"
proof
  define a where "a = length bs - 64 * i"
  define n where "n = min (64 - a) (length input)"
  have n: "n \<le> length input" "0 < n" "length bs + n \<le> 64 * i + 64" and a: "\<not> 64 < a"
    using room \<open>input \<noteq> []\<close> by (auto simp: n_def a_def)
  show "input = take n input @ drop n input" by simp
  show "take n input \<noteq> []" using n \<open>input \<noteq> []\<close> by auto
  have of: "chunk_of key flags counter (bs @ take n input) = chunk_at key flags counter (bs @ take n input) i"
    using n room div_64_eq [of i "length bs + n"] by (simp add: chunk_of_def)
  have at: "c_block_len (chunk_at key flags counter bs i) = a" by (simp add: chunk_at_def a_def)
  have fill: "copy_slice (c_block (chunk_at key flags counter bs i)) a (a + n) (take n input)
      = Some (c_block (chunk_at key flags counter (bs @ take n input) i))"
    using chunk_fill_at [of i bs "take n input"] room n by (simp add: a_def)
  have app: "chunk_at key flags counter bs i
        \<lparr> c_block := c_block (chunk_at key flags counter (bs @ take n input) i), c_block_len := a + n \<rparr>
      = chunk_at key flags counter (bs @ take n input) i"
    using chunk_at_append [of i bs key flags counter "take n input"] room n(1) by (simp add: a_def)
  show "chunk_update c input = chunk_update (chunk_of key flags counter (bs @ take n input)) (drop n input)"
    unfolding of using \<open>input \<noteq> []\<close> a
    by (subst chunk_update.simps, simp only: c)
      (simp add: at n_def [symmetric] fill app Let_def BLOCK_LEN_def)
qed

lemma chunk_of_cases:
  obtains (room) i where "chunk_of key flags counter bs = chunk_at key flags counter bs i"
      "64 * i \<le> length bs" "length bs < 64 * i + 64"
    | (full) i where "chunk_of key flags counter bs = chunk_at key flags counter bs i"
      "length bs = 64 * i + 64"
proof (cases "length bs < 64 * ((length bs - 1) div 64) + 64")
  case True
  then show ?thesis using room by (simp add: chunk_of_def)
next
  case False
  then have "length bs = 64 * ((length bs - 1) div 64) + 64" by linarith
  then show ?thesis using full by (simp add: chunk_of_def)
qed

lemma chunk_update_of:
  "chunk_update (chunk_of key flags counter bs) input = Some (chunk_of key flags counter (bs @ input))"
proof (induction "length input" arbitrary: bs input rule: less_induct)
  case less
  show ?case
  proof (cases "input = []")
    case False
    obtain i where i: "64 * i \<le> length bs" "length bs < 64 * i + 64"
        "(if c_block_len (chunk_of key flags counter bs) = BLOCK_LEN
          then chunk_flush (chunk_of key flags counter bs) else chunk_of key flags counter bs)
         = chunk_at key flags counter bs i"
    proof (cases rule: chunk_of_cases [of key flags counter bs])
      case (room i)
      then show ?thesis by (intro that [of i]) (auto simp: chunk_at_def BLOCK_LEN_def)
    next
      case (full i)
      moreover have "c_block_len (chunk_at key flags counter bs i) = BLOCK_LEN"
        using full by (simp add: chunk_at_def BLOCK_LEN_def)
      ultimately show ?thesis by (intro that [of "Suc i"]) (simp_all add: chunk_flush_at)
    qed
    obtain xs ys where "input = xs @ ys" "xs \<noteq> []"
      "chunk_update (chunk_of key flags counter bs) input = chunk_update (chunk_of key flags counter (bs @ xs)) ys"
      using chunk_update_turn [OF i(1,2) False i(3)] by metis
    with less show ?thesis by simp
  qed (simp add: chunk_update.simps)
qed

lemma chunk_new_of: "chunk_new key counter flags = chunk_of key flags counter []"
  by (simp add: chunk_new_def chunk_of_def chunk_at_def BLOCK_LEN_def)

lemma chunk_len_of [simp]: "chunk_len (chunk_of key flags counter bs) = length bs"
  by (cases rule: chunk_of_cases [of key flags counter bs])
    (auto simp: chunk_len_def chunk_at_def BLOCK_LEN_def)

lemma chunk_counter_of [simp]: "c_counter (chunk_of key flags counter bs) = counter"
  by (simp add: chunk_of_def chunk_at_def)

lemma chunk_output_of: "chunk_output (chunk_of key flags counter bs) = chunk_node key flags counter bs"
  by (simp add: chunk_output_def chunk_of_def chunk_at_def chunk_node_def start_flag_def BLOCK_LEN_def Let_def)

section \<open>The stack of completed subtrees\<close>

lemma pow2_below_scale: "0 < n \<Longrightarrow> pow2_below (2 ^ k * n) = 2 ^ k * pow2_below n"
  by (induction k) (simp_all add: mult.assoc pow2_below_double)

lemma pow2_below_power [simp]: "pow2_below (2 ^ k) = 2 ^ k"
  using pow2_below_scale [of 1 k] by (simp add: pow2_below.simps [of "Suc 0"])

lemma pow2_below_rest: "n < 2 ^ Suc k \<Longrightarrow> n - pow2_below n < 2 ^ k"
proof (induction k arbitrary: n)
  case 0
  then show ?case by (auto simp: pow2_below.simps [of n])
next
  case (Suc k)
  show ?case
  proof (cases "n \<le> 1")
    case False
    define q where "q = n div 2"
    have q: "0 < q" "n \<le> 2 * q + 1" "q < 2 ^ Suc k" using False Suc.prems by (auto simp: q_def)
    have "pow2_below n = 2 * pow2_below q" using False by (subst pow2_below.simps) (simp add: q_def)
    with Suc.IH [OF q(3)] pow2_below_le [OF q(1)] q(2) show ?thesis by simp
  qed (simp add: pow2_below.simps [of n])
qed

text \<open>
  The chaining values of the complete subtrees that \<open>n\<close> chunks decompose into, largest first:
  one for each bit set in \<open>n\<close>.
\<close>

function peaks :: "u32 list \<Rightarrow> u32 \<Rightarrow> nat \<Rightarrow> bytes \<Rightarrow> nat \<Rightarrow> u32 list list" where
  "peaks key flags s bs n =
     (if n = 0 then []
      else let p = pow2_below n
           in chaining_value (subtree key flags s (take (1024 * p) bs))
              # peaks key flags (s + p) (drop (1024 * p) bs) (n - p))"
  by pat_completeness auto
termination by (relation "measure (\<lambda>(_, _, _, _, n). n)") auto

declare peaks.simps [simp del]

lemma peaks_0 [simp]: "peaks key flags s bs 0 = []"
  by (simp add: peaks.simps)

lemma peaks_step:
  "0 < n \<Longrightarrow> peaks key flags s bs n = chaining_value (subtree key flags s (take (1024 * pow2_below n) bs))
     # peaks key flags (s + pow2_below n) (drop (1024 * pow2_below n) bs) (n - pow2_below n)"
  by (subst peaks.simps) (simp add: Let_def)

lemma length_peaks: "n < 2 ^ k \<Longrightarrow> length (peaks key flags s bs n) \<le> k"
proof (induction k arbitrary: s bs n)
  case (Suc k)
  then show ?case by (cases "n = 0") (simp_all add: peaks_step pow2_below_rest)
qed simp

lemma peaks_append:
  "1024 * n \<le> length bs \<Longrightarrow> peaks key flags s (bs @ xs) n = peaks key flags s bs n"
proof (induction n arbitrary: s bs rule: less_induct)
  case (less n)
  show ?case
  proof (cases "n = 0")
    case False
    then have p: "pow2_below n \<le> n" by (simp add: pow2_below_le)
    then have "1024 * pow2_below n \<le> length bs" using less.prems by linarith
    moreover have "peaks key flags (s + pow2_below n) (drop (1024 * pow2_below n) bs @ xs) (n - pow2_below n)
        = peaks key flags (s + pow2_below n) (drop (1024 * pow2_below n) bs) (n - pow2_below n)"
      using less.prems False p by (intro less.IH) auto
    ultimately show ?thesis using False by (simp add: peaks_step)
  qed simp
qed

lemma peaks_odd:
  "peaks key flags s bs (2 ^ k * (2 * m + 1)) = peaks key flags s bs (2 ^ k * (2 * m)) @
     [chaining_value (subtree key flags (s + 2 ^ k * (2 * m)) (sub bs (1024 * (2 ^ k * (2 * m))) (1024 * 2 ^ k)))]"
proof (induction m arbitrary: s bs rule: less_induct)
  case (less m)
  show ?case
  proof (cases "m = 0")
    case True
    then show ?thesis by (simp add: peaks_step sub_def)
  next
    case False
    define q where "q = pow2_below m"
    have q: "0 < q" "q \<le> m" using False by (simp_all add: q_def pow2_below_le)
    have p: "pow2_below (2 ^ k * (2 * m + 1)) = 2 ^ k * (2 * q)" "pow2_below (2 ^ k * (2 * m)) = 2 ^ k * (2 * q)"
      using False by (simp_all only: pow2_below_scale pow2_below_double pow2_below_double_Suc q_def
          mult_pos_pos zero_less_numeral add_pos_pos zero_less_one neq0_conv)
    obtain r where r: "m = q + r" using q(2) le_Suc_ex by blast
    have rest: "2 ^ k * (2 * m + 1) - 2 ^ k * (2 * q) = 2 ^ k * (2 * (m - q) + 1)"
        "2 ^ k * (2 * m) - 2 ^ k * (2 * q) = 2 ^ k * (2 * (m - q))"
        "2 ^ k * (2 * q) + 2 ^ k * (2 * (m - q)) = 2 ^ k * (2 * m)"
      unfolding r by (simp_all add: distrib_left)
    have "sub (drop (1024 * (2 ^ k * (2 * q))) bs) (1024 * (2 ^ k * (2 * (m - q)))) (1024 * 2 ^ k)
        = sub bs (1024 * (2 ^ k * (2 * m))) (1024 * 2 ^ k)"
      using q(2) unfolding sub_def drop_drop distrib_left [symmetric] add.commute [of "1024 * _"]
      by (simp add: add.commute)
    moreover note less.IH [of "m - q" "s + 2 ^ k * (2 * q)" "drop (1024 * (2 ^ k * (2 * q))) bs"]
    moreover have pos: "0 < 2 ^ k * (2 * m + 1)" "0 < 2 ^ k * (2 * m)" "m - q < m" using False q by simp_all
    ultimately show ?thesis
      unfolding peaks_step [OF pos(1)] peaks_step [OF pos(2)] p rest(1,2)
      by (simp only: add.assoc rest(3) append_Cons simp_thms)
  qed
qed

lemma div_1024_eq: "1024 * i < n \<Longrightarrow> n \<le> 1024 * i + 1024 \<Longrightarrow> (n - 1) div 1024 = (i :: nat)"
  by (rule div_nat_eqI) auto

lemma pow2_below_pred: "pow2_below (2 ^ Suc k - 1) = 2 ^ k"
proof (induction k)
  case (Suc k)
  have "2 * x - 1 = 2 * (x - 1) + 1" if "0 < x" for x :: nat using that by arith
  from this [of "2 ^ Suc k"] have "2 ^ Suc (Suc k) - 1 = 2 * (2 ^ Suc k - 1) + (1 :: nat)" by simp
  then have "pow2_below (2 ^ Suc (Suc k) - 1) = 2 * pow2_below (2 ^ Suc k - 1)"
    using one_less_power [of "2 :: nat" "Suc k"] by (simp only:) (rule pow2_below_double_Suc, simp)
  with Suc show ?case by simp
qed (simp add: pow2_below.simps [of "Suc 0"])

lemma subtree_parent:
  assumes "length bs = 1024 * n + r" "0 < n" "0 < r" "r \<le> 1024"
  shows "subtree key flags s bs =
    b3_parent (chaining_value (subtree key flags s (take (1024 * pow2_below n) bs)))
      (chaining_value (subtree key flags (s + pow2_below n) (drop (1024 * pow2_below n) bs))) key flags"
proof -
  have "(length bs - 1) div 1024 = n" using assms by (intro div_1024_eq) simp_all
  moreover have "\<not> length bs \<le> 1024" using assms by simp
  ultimately show ?thesis by (subst subtree.simps) (simp add: CHUNK_LEN_def Let_def)
qed

lemma subtree_merge:
  assumes "length bs = 1024 * 2 ^ Suc k"
  shows "subtree key flags s bs =
    b3_parent (chaining_value (subtree key flags s (take (1024 * 2 ^ k) bs)))
      (chaining_value (subtree key flags (s + 2 ^ k) (drop (1024 * 2 ^ k) bs))) key flags"
proof -
  have "length bs = 1024 * (2 ^ Suc k - 1) + 1024" using assms by (simp add: diff_mult_distrib2)
  moreover have "0 < 2 ^ Suc k - (1 :: nat)" using one_less_power [of "2 :: nat" "Suc k"] by simp
  ultimately have "subtree key flags s bs =
      b3_parent (chaining_value (subtree key flags s (take (1024 * pow2_below (2 ^ Suc k - 1)) bs)))
        (chaining_value (subtree key flags (s + pow2_below (2 ^ Suc k - 1))
          (drop (1024 * pow2_below (2 ^ Suc k - 1)) bs))) key flags"
    by (rule subtree_parent) simp_all
  then show ?thesis by (simp only: pow2_below_pred)
qed

lemma subtree_sub_merge:
  assumes "i + 1024 * 2 ^ Suc k \<le> length bs"
  shows "subtree key flags s (sub bs i (1024 * 2 ^ Suc k)) =
    b3_parent (chaining_value (subtree key flags s (sub bs i (1024 * 2 ^ k))))
      (chaining_value (subtree key flags (s + 2 ^ k) (sub bs (i + 1024 * 2 ^ k) (1024 * 2 ^ k)))) key flags"
proof -
  have "take (1024 * 2 ^ k) (sub bs i (1024 * 2 ^ Suc k)) = sub bs i (1024 * 2 ^ k)"
    by (simp add: sub_def min_def)
  moreover have "drop (1024 * 2 ^ k) (sub bs i (1024 * 2 ^ Suc k)) = sub bs (i + 1024 * 2 ^ k) (1024 * 2 ^ k)"
    by (simp add: sub_def drop_take add.commute)
  ultimately show ?thesis using subtree_merge [of "sub bs i (1024 * 2 ^ Suc k)" k] assms by simp
qed

lemma fold_peaks_subtree:
  assumes "length bs = 1024 * n + r" "r \<le> 1024" "0 < n \<Longrightarrow> 0 < r"
  shows "foldr (\<lambda>left out. b3_parent left (chaining_value out) key flags) (peaks key flags s bs n)
      (chunk_node key flags (s + n) (drop (1024 * n) bs)) = subtree key flags s bs"
  using assms
proof (induction n arbitrary: s bs rule: less_induct)
  case (less n)
  show ?case
  proof (cases "n = 0")
    case True
    then show ?thesis using less.prems by (subst subtree.simps) (simp add: CHUNK_LEN_def)
  next
    case False
    define p where "p = pow2_below n"
    have p: "0 < p" "p \<le> n" using False by (simp_all add: p_def pow2_below_le)
    then obtain q where q: "n = p + q" using le_Suc_ex by blast
    have "foldr (\<lambda>left out. b3_parent left (chaining_value out) key flags)
        (peaks key flags (s + p) (drop (1024 * p) bs) q)
        (chunk_node key flags (s + p + q) (drop (1024 * q) (drop (1024 * p) bs)))
        = subtree key flags (s + p) (drop (1024 * p) bs)"
      using less.prems p q by (intro less.IH) auto
    moreover have "peaks key flags s bs n = chaining_value (subtree key flags s (take (1024 * p) bs))
        # peaks key flags (s + p) (drop (1024 * p) bs) q"
      using peaks_step [of n key flags s bs] False p_def q by (metis add_diff_cancel_left' neq0_conv)
    moreover have "subtree key flags s bs =
        b3_parent (chaining_value (subtree key flags s (take (1024 * p) bs)))
          (chaining_value (subtree key flags (s + p) (drop (1024 * p) bs))) key flags"
      using less.prems False unfolding p_def by (intro subtree_parent) auto
    moreover have "s + p + q = s + n" "drop (1024 * q) (drop (1024 * p) bs) = drop (1024 * n) bs"
      by (simp_all add: q distrib_left add.commute)
    ultimately show ?thesis by (simp only: foldr.simps comp_apply)
  qed
qed

lemma even_pos_cases:
  assumes "even (n :: nat)" "0 < n"
  obtains m where "n = 2 * (m + 1)" "n - 1 = 2 * m + 1"
proof -
  from assms obtain j where "n = 2 * j" "0 < j" by (auto elim!: evenE)
  then show ?thesis using that [of "j - 1"] by simp
qed

lemma merge_loop_peaks:
  assumes "0 < tot" "1024 * (2 ^ k * tot) \<le> length bs" "d \<le> length stack"
    and "take d stack = peaks key flags 0 bs (2 ^ k * (tot - 1))"
    and "cv = chaining_value (subtree key flags (2 ^ k * (tot - 1)) (sub bs (1024 * (2 ^ k * (tot - 1))) (1024 * 2 ^ k)))"
  shows "\<exists>d' cv'. merge_loop key flags stack d cv tot = Some (d', cv') \<and> d' \<le> d \<and>
    take d' stack @ [cv'] = peaks key flags 0 bs (2 ^ k * tot)"
  using assms
proof (induction d arbitrary: k tot cv)
  case 0
  have "even tot \<Longrightarrow> False"
  proof -
    assume "even tot"
    then obtain m where "tot - 1 = 2 * m + 1" using \<open>0 < tot\<close> by (blast elim: even_pos_cases)
    with 0(4) show False by (simp only: peaks_odd) simp
  qed
  moreover have "odd tot \<Longrightarrow> peaks key flags 0 bs (2 ^ k * tot) = [cv]"
  proof -
    assume "odd tot"
    then obtain m where m: "tot = 2 * m + 1" by (elim oddE)
    show ?thesis using 0(4,5) unfolding m peaks_odd by simp
  qed
  ultimately show ?case by auto
next
  case (Suc d)
  show ?case
  proof (cases "even tot")
    case False
    then obtain m where m: "tot = 2 * m + 1" by (elim oddE)
    show ?thesis using Suc.prems(4,5) False unfolding m peaks_odd by simp
  next
    case True
    then obtain m where m: "tot = 2 * (m + 1)" "tot - 1 = 2 * m + 1"
      using \<open>0 < tot\<close> by (rule even_pos_cases)
    define left where "left = chaining_value (subtree key flags (2 ^ k * (2 * m))
        (sub bs (1024 * (2 ^ k * (2 * m))) (1024 * 2 ^ k)))"
    have d: "d < length stack" using Suc.prems(3) by simp
    have "take d stack @ [stack ! d] = peaks key flags 0 bs (2 ^ k * (2 * m)) @ [left]"
      using Suc.prems(4) unfolding m(2) peaks_odd take_Suc_conv_app_nth [OF d] by (simp add: left_def)
    then have st: "take d stack = peaks key flags 0 bs (2 ^ Suc k * ((m + 1) - 1))" "stack ! d = left"
      by (simp_all add: ac_simps)
    have "1024 * (2 ^ k * (2 * m)) + 1024 * 2 ^ Suc k \<le> length bs"
      using Suc.prems(2) by (simp add: m(1) algebra_simps)
    from subtree_sub_merge [OF this, of key flags "2 ^ k * (2 * m)"]
    have cv': "chaining_value (b3_parent left cv key flags)
        = chaining_value (subtree key flags (2 ^ Suc k * ((m + 1) - 1))
            (sub bs (1024 * (2 ^ Suc k * ((m + 1) - 1))) (1024 * 2 ^ Suc k)))"
      using Suc.prems(5) unfolding m(2) left_def by (simp add: algebra_simps)
    have "\<exists>d' cv'. merge_loop key flags stack d (chaining_value (b3_parent left cv key flags)) (m + 1)
        = Some (d', cv') \<and> d' \<le> d \<and> take d' stack @ [cv'] = peaks key flags 0 bs (2 ^ Suc k * (m + 1))"
      using Suc.prems(2) d m(1) by (intro Suc.IH st(1) cv') (simp_all add: algebra_simps)
    then show ?thesis using d st(2) True by (auto simp: idx_def m(1) algebra_simps)
  qed
qed

lemma root_loop_foldr:
  "d \<le> length stack \<Longrightarrow> root_loop stack key flags d out =
     Some (foldr (\<lambda>left out. b3_parent left (chaining_value out) key flags) (take d stack) out)"
proof (induction d arbitrary: out)
  case (Suc d)
  then show ?case by (simp add: idx_def take_Suc_conv_app_nth)
qed simp

section \<open>The hasher's invariant\<close>

text \<open>
  A hasher that has taken in \<open>bs\<close>, its first \<open>n\<close> chunks finished: the rest is in the chunk being
  filled, and the stack holds the subtrees of the finished chunks.
\<close>

definition hasher_at :: "u32 list \<Rightarrow> u32 \<Rightarrow> bytes \<Rightarrow> nat \<Rightarrow> hasher \<Rightarrow> bool" where
  "hasher_at key flags bs n h \<longleftrightarrow>
     h_chunk h = chunk_of key flags n (drop (1024 * n) bs) \<and> h_key h = key \<and> h_flags h = flags \<and>
     length (h_stack h) = 54 \<and> h_depth h \<le> 54 \<and>
     take (h_depth h) (h_stack h) = peaks key flags 0 bs n"

definition hasher_of :: "u32 list \<Rightarrow> u32 \<Rightarrow> bytes \<Rightarrow> hasher \<Rightarrow> bool" where
  "hasher_of key flags bs h \<longleftrightarrow> hasher_at key flags bs ((length bs - 1) div 1024) h"

lemma hasher_with_of: "hasher_of key flags [] (hasher_with key flags)"
  by (simp add: hasher_of_def hasher_at_def hasher_with_def chunk_new_of)

lemma hasher_root_of:
  assumes "hasher_of key flags bs h"
  shows "hasher_root h = Some (subtree key flags 0 bs)"
proof -
  define n where "n = (length bs - 1) div 1024"
  define r where "r = length bs - 1024 * n"
  have r: "length bs = 1024 * n + r" "r \<le> 1024" "0 < n \<Longrightarrow> 0 < r"
    unfolding r_def n_def by linarith+
  have h: "hasher_at key flags bs n h" using assms by (simp add: hasher_of_def n_def)
  then have "hasher_root h = Some (foldr (\<lambda>left out. b3_parent left (chaining_value out) key flags)
      (peaks key flags 0 bs n) (chunk_node key flags (0 + n) (drop (1024 * n) bs)))"
    by (simp add: hasher_at_def hasher_root_def root_loop_foldr chunk_output_of)
  then show ?thesis by (simp only: fold_peaks_subtree [OF r])
qed

lemma add_chunk_cv_at:
  assumes h: "hasher_at key flags bs n h" and n: "1024 * Suc n = length bs" "Suc n < 2 ^ 54"
  shows "\<exists>h'. add_chunk_cv h (chaining_value (chunk_node key flags n (drop (1024 * n) bs))) (n + 1) = Some h' \<and>
    h_key h' = key \<and> h_flags h' = flags \<and> length (h_stack h') = 54 \<and> h_depth h' \<le> 54 \<and>
    take (h_depth h') (h_stack h') = peaks key flags 0 bs (Suc n)"
proof -
  define cv where "cv = chaining_value (chunk_node key flags n (drop (1024 * n) bs))"
  have one: "chunk_node key flags n (drop (1024 * n) bs) = subtree key flags n (sub bs (1024 * n) 1024)"
    using n(1) by (subst subtree.simps) (simp add: sub_def CHUNK_LEN_def)
  have "\<exists>d cv'. merge_loop key flags (h_stack h) (h_depth h) cv (Suc n) = Some (d, cv') \<and> d \<le> h_depth h \<and>
      take d (h_stack h) @ [cv'] = peaks key flags 0 bs (2 ^ 0 * Suc n)"
    using h n(1) by (intro merge_loop_peaks) (simp_all add: hasher_at_def cv_def one)
  then obtain d cv' where d: "merge_loop key flags (h_stack h) (h_depth h) cv (Suc n) = Some (d, cv')"
      "d \<le> h_depth h" "take d (h_stack h) @ [cv'] = peaks key flags 0 bs (Suc n)" by auto
  have st: "length (h_stack h) = 54" "h_key h = key" "h_flags h = flags" "h_depth h \<le> 54"
    using h by (simp_all add: hasher_at_def)
  have "length (take d (h_stack h) @ [cv']) \<le> 54"
    unfolding d(3) using n(2) by (rule length_peaks)
  then have "d < 54" using d(2) st by simp
  then have "add_chunk_cv h cv (n + 1) = Some (h \<lparr> h_stack := (h_stack h)[d := cv'], h_depth := d + 1 \<rparr>)"
    using d(1) st by (simp add: add_chunk_cv_def set_idx_def)
  moreover have "take (d + 1) ((h_stack h)[d := cv']) = peaks key flags 0 bs (Suc n)"
    using d(3) \<open>d < 54\<close> st by (simp add: take_Suc_conv_app_nth)
  ultimately show ?thesis using st \<open>d < 54\<close> by (simp add: cv_def)
qed

lemma roll_chunk_of:
  assumes h: "hasher_of key flags bs h" and short: "length bs < 2 ^ 64"
  obtains n h' where "roll_chunk h = Some h'" "hasher_at key flags bs n h'"
    "1024 * n \<le> length bs" "length bs < 1024 * n + 1024"
proof -
  define n where "n = (length bs - 1) div 1024"
  have at: "hasher_at key flags bs n h" using h by (simp add: hasher_of_def n_def)
  have n: "1024 * n \<le> length bs" "length bs \<le> 1024 * n + 1024" unfolding n_def by linarith+
  have len: "chunk_len (h_chunk h) = length bs - 1024 * n" using at by (simp add: hasher_at_def)
  show thesis
  proof (cases "length bs = 1024 * n + 1024")
    case False
    then have "length bs - 1024 * n \<noteq> 1024" "length bs < 1024 * n + 1024" using n by linarith+
    then show thesis using that [of h n] at n len by (simp add: roll_chunk_def CHUNK_LEN_def)
  next
    case True
    then have "Suc n < 2 ^ 54" using short by simp
    from add_chunk_cv_at [OF at _ this] True obtain h' where h':
      "add_chunk_cv h (chaining_value (chunk_node key flags n (drop (1024 * n) bs))) (n + 1) = Some h'"
      "h_key h' = key" "h_flags h' = flags" "length (h_stack h') = 54" "h_depth h' \<le> 54"
      "take (h_depth h') (h_stack h') = peaks key flags 0 bs (Suc n)" by auto
    have "roll_chunk h = Some (h' \<lparr> h_chunk := chunk_new key (n + 1) flags \<rparr>)"
      using True at h' len by (simp add: roll_chunk_def CHUNK_LEN_def hasher_at_def chunk_output_of)
    moreover have "hasher_at key flags bs (Suc n) (h' \<lparr> h_chunk := chunk_new key (n + 1) flags \<rparr>)"
      using True h' by (simp add: hasher_at_def chunk_new_of)
    ultimately show thesis using that True by simp
  qed
qed

lemma hasher_update_of:
  assumes "hasher_of key flags bs h" "length bs + length input < 2 ^ 64"
  shows "\<exists>h'. hasher_update h input = Some h' \<and> hasher_of key flags (bs @ input) h'"
  using assms
proof (induction "length input" arbitrary: bs h input rule: less_induct)
  case less
  show ?case
  proof (cases "input = []")
    case True
    then show ?thesis using less.prems by (simp add: hasher_update.simps)
  next
    case False
    obtain n h' where h': "roll_chunk h = Some h'" "hasher_at key flags bs n h'"
      "1024 * n \<le> length bs" "length bs < 1024 * n + 1024"
      using less.prems by (elim roll_chunk_of) simp_all
    define a where "a = length bs - 1024 * n"
    define k where "k = min (1024 - a) (length input)"
    have k: "k \<le> length input" "0 < k" "length bs + k \<le> 1024 * n + 1024" "\<not> 1024 < a"
      using h'(3,4) False by (auto simp: k_def a_def)
    define c where "c = chunk_of key flags n (drop (1024 * n) (bs @ take k input))"
    have len: "chunk_len (h_chunk h') = a" using h'(2) by (simp add: hasher_at_def a_def)
    have c: "chunk_update (h_chunk h') (take k input) = Some c"
      using h'(2,3) by (simp add: hasher_at_def chunk_update_of c_def)
    have step: "hasher_update h input = hasher_update (h' \<lparr> h_chunk := c \<rparr>) (drop k input)"
      using False k(4) h'(1) by (subst hasher_update.simps)
        (simp add: len Let_def CHUNK_LEN_def k_def [symmetric] c)
    have "(length (bs @ take k input) - 1) div 1024 = n"
      using h'(3) k by (intro div_1024_eq) simp_all
    then have "hasher_of key flags (bs @ take k input) (h' \<lparr> h_chunk := c \<rparr>)"
      using h'(2,3) by (simp add: hasher_of_def hasher_at_def c_def peaks_append)
    moreover have "length (drop k input) < length input" using False k(2) by simp
    ultimately have "\<exists>h''. hasher_update (h' \<lparr> h_chunk := c \<rparr>) (drop k input) = Some h'' \<and>
        hasher_of key flags ((bs @ take k input) @ drop k input) h''"
      using k(1) less.prems(2) by (intro less.hyps) simp_all
    then show ?thesis unfolding step by simp
  qed
qed

section \<open>Hashing is the tree\<close>

text \<open>Input handed over in pieces, one \<^verbatim>\<open>update\<close> after another.\<close>

primrec hasher_updates :: "hasher \<Rightarrow> bytes list \<Rightarrow> hasher option" where
  "hasher_updates h [] = Some h"
| "hasher_updates h (input # inputs) = do { h \<leftarrow> hasher_update h input; hasher_updates h inputs }"

lemma hasher_updates_of:
  "hasher_of key flags bs h \<Longrightarrow> length bs + length (concat inputs) < 2 ^ 64 \<Longrightarrow>
    \<exists>h'. hasher_updates h inputs = Some h' \<and> hasher_of key flags (bs @ concat inputs) h'"
proof (induction inputs arbitrary: bs h)
  case (Cons input inputs)
  have "length bs + length input < 2 ^ 64" using Cons.prems(2) by simp
  from hasher_update_of [OF Cons.prems(1) this] obtain h' where
    "hasher_update h input = Some h'" "hasher_of key flags (bs @ input) h'" by blast
  with Cons.IH [of "bs @ input" h'] Cons.prems(2) show ?case by (simp add: add.assoc)
qed simp

lemma hash_tree:
  assumes "length bs < 2 ^ 64"
  shows "\<exists>h. hasher_update (hasher_with key flags) bs = Some h \<and>
    finalize_xof h seek n = Some (root_bytes (subtree key flags 0 bs) seek n) \<and>
    finalize h = Some (root_bytes (subtree key flags 0 bs) 0 OUT_LEN)"
  using hasher_update_of [OF hasher_with_of, of bs key flags] assms
  by (auto simp: finalize_xof_def finalize_def hasher_root_of)

lemma blake3_hash_tree:
  "length bs < 2 ^ 64 \<Longrightarrow> blake3_hash bs = Some (root_bytes (subtree IV 0 0 bs) 0 OUT_LEN)"
  using hash_tree [of bs IV 0 0 0] by (auto simp: blake3_hash_def hasher_new_def)

definition b3 :: "bytes \<Rightarrow> bytes" where
  "b3 bs = root_bytes (subtree IV 0 0 bs) 0 OUT_LEN"

lemma blake3_hash_b3: "length bs < 2 ^ 64 \<Longrightarrow> blake3_hash bs = Some (b3 bs)"
  by (simp add: blake3_hash_tree b3_def)

lemma length_b3 [simp]: "length (b3 bs) = 32"
  by (simp add: b3_def OUT_LEN_def)

lemma ct_eq_iff: "length a = length b \<Longrightarrow> ct_eq a b \<longleftrightarrow> a = b"
proof -
  have or0: "x OR y = 0 \<longleftrightarrow> x = 0 \<and> y = 0" for x y :: u8
    by (auto simp: bit_eq_iff bit_simps)
  have fold0: "fold (\<lambda>(x, y) d. d OR (x XOR y)) ps d = 0 \<longleftrightarrow> d = 0 \<and> (\<forall>(x, y) \<in> set ps. x = y)"
    for ps and d :: u8
    by (induction ps arbitrary: d) (auto simp: or0 dest: word_xor_eq_0)
  assume "length a = length b"
  then show ?thesis
    unfolding ct_eq_def fold0 by (induction a b rule: list_induct2) auto
qed

text \<open>
  C19: However the input is cut into pieces, updating a hasher of any mode with them one after
  another never panics (the stack of 54 subtrees is never over- or underrun) and gives, at
  every position of the output stream, the bytes of the tree of the BLAKE3 specification over
  the whole input.
\<close>

theorem incremental_hash_is_tree:
  assumes "length (concat inputs) < 2 ^ 64"
  shows "\<exists>h. hasher_updates (hasher_with key flags) inputs = Some h \<and>
    (\<forall>seek n. finalize_xof h seek n =
       Some (map (stream_byte (subtree key flags 0 (concat inputs))) [seek..<seek + n]))"
  using hasher_updates_of [OF hasher_with_of, of inputs key flags] assms
  by (auto simp: finalize_xof_def hasher_root_of root_bytes_stream)

theorem incremental_hash_is_tree_witness:
  "\<exists>h. hasher_updates hasher_new [replicate 1500 7, [], [1, 2, 3]] = Some h \<and>
    (\<forall>seek n. finalize_xof h seek n =
       Some (map (stream_byte (subtree IV 0 0 (concat [replicate 1500 7, [], [1, 2, 3]]))) [seek..<seek + n]))"
  unfolding hasher_new_def by (rule incremental_hash_is_tree) (simp only: length_concat, simp)

end
