(* ===== verification/Ncfs_Format.thy ===== *)
theory Ncfs_Format
  imports Blake3 Lz4
begin

text \<open>
  The on-disk format of NCFS, \<^verbatim>\<open>src/crates/nanochrono-core/src/ncfs/format.rs\<close>: little-endian
  fields, keys, node pointers, the superblock, tree nodes, inodes, extents, subvolume items and
  directory items, each with its encoder and its checked decoder.  A buffer is a list of bytes; an
  index out of range panics and is \<open>None\<close>, so that a decoder's result is \<open>Some r\<close> with \<open>r\<close> what
  the code returns.  Byte arrays of fixed length are lists, their length part of each structure's
  well-formedness.  Timestamps (\<^verbatim>\<open>i64\<close>) are kept as the 64 bits they are stored as.
\<close>

section \<open>Constants\<close>

definition BLOCK :: nat where "BLOCK = 4096"
definition MAGIC :: bytes where "MAGIC = [0x4E, 0x43, 0x46, 0x53, 0x1B, 0x00, 0x01, 0x00]"
definition VERSION :: u32 where "VERSION = 1"
definition SIG_FIRST :: u64 where "SIG_FIRST = 3"
definition SIG_BLOCKS :: u64 where "SIG_BLOCKS = 16"
definition FIRST_FREE :: u64 where "FIRST_FREE = SIG_FIRST + SIG_BLOCKS"
definition MIN_BLOCKS :: u64 where "MIN_BLOCKS = 256"
definition NODE_MAGIC :: bytes where "NODE_MAGIC = [0x4E, 0x43, 0x4E, 0x44]"
definition NODE_HEADER :: nat where "NODE_HEADER = 64"
definition KEY_LEN :: nat where "KEY_LEN = 17"
definition ITEM_HEADER :: nat where "ITEM_HEADER = KEY_LEN + 4"
definition CHILD_ENTRY :: nat where "CHILD_ENTRY = KEY_LEN + 8 + 8 + 32"
definition MAX_CHILDREN :: nat where "MAX_CHILDREN = (BLOCK - NODE_HEADER) div CHILD_ENTRY"
definition MAX_LEVEL :: u8 where "MAX_LEVEL = 8"
definition WINDOW :: nat where "WINDOW = 128 * 1024"
definition WINDOW_BLOCKS :: nat where "WINDOW_BLOCKS = WINDOW div BLOCK"
definition INLINE_MAX :: nat where "INLINE_MAX = 2048"
definition NAME_MAX :: nat where "NAME_MAX = 255"
definition ROOT_INO :: u64 where "ROOT_INO = 1"
definition FLAG_SEED :: u64 where "FLAG_SEED = 1"
definition INCOMPAT_LZ4 :: u64 where "INCOMPAT_LZ4 = 1"
definition INCOMPAT_ZSTD :: u64 where "INCOMPAT_ZSTD = 2"
definition INCOMPAT_KNOWN :: u64 where "INCOMPAT_KNOWN = INCOMPAT_LZ4 OR INCOMPAT_ZSTD"
definition RO_COMPAT_KNOWN :: u64 where "RO_COMPAT_KNOWN = 0"
definition SB_SUM :: nat where "SB_SUM = BLOCK - 32"

definition KIND_INODE :: u8 where "KIND_INODE = 1"
definition KIND_DIRENT :: u8 where "KIND_DIRENT = 2"
definition KIND_DIRINDEX :: u8 where "KIND_DIRINDEX = 3"
definition KIND_EXTENT :: u8 where "KIND_EXTENT = 4"
definition KIND_ROOT :: u8 where "KIND_ROOT = 16"

lemmas ncfs_sizes = BLOCK_def NODE_HEADER_def KEY_LEN_def ITEM_HEADER_def CHILD_ENTRY_def
  MAX_CHILDREN_def WINDOW_def WINDOW_BLOCKS_def INLINE_MAX_def NAME_MAX_def SB_SUM_def

text \<open>File types: \<^verbatim>\<open>st_mode\<close> bits and the \<^verbatim>\<open>d_type\<close> of each.\<close>

definition S_IFMT :: u32 where "S_IFMT = 0xF000"
definition S_IFSOCK :: u32 where "S_IFSOCK = 0xC000"
definition S_IFLNK :: u32 where "S_IFLNK = 0xA000"
definition S_IFREG :: u32 where "S_IFREG = 0x8000"
definition S_IFBLK :: u32 where "S_IFBLK = 0x6000"
definition S_IFDIR :: u32 where "S_IFDIR = 0x4000"
definition S_IFCHR :: u32 where "S_IFCHR = 0x2000"
definition S_IFIFO :: u32 where "S_IFIFO = 0x1000"

definition dtype :: "u32 \<Rightarrow> u8" where
  "dtype mode = (let t = mode AND S_IFMT in
     if t = S_IFDIR then 4 else if t = S_IFLNK then 10 else if t = S_IFCHR then 2
     else if t = S_IFBLK then 6 else if t = S_IFIFO then 1 else if t = S_IFSOCK then 12 else 8)"

section \<open>Errors\<close>

datatype zstd_error =
    ZTruncated | ZBadMagic | ZReserved | ZDictionary | ZBadBlock | ZBadLiterals | ZBadHuffman
  | ZBadFse | ZBadSequences | ZBadOffset | ZOverflow | ZShort | ZChecksum

datatype ncfs_error =
    Io | NoSuperblock | Unsupported | Checksum u64 | Corrupt u64 | NotFound | Exists
  | NotADirectory | IsADirectory | NotASymlink | NotEmpty | InvalidName | Loop | NoSpace
  | ReadOnly | TooBig | Busy | Lz4Error lz4_error | ZstdError zstd_error

section \<open>Fields\<close>

definition rd16 :: "bytes \<Rightarrow> nat \<Rightarrow> u16 option" where
  "rd16 b at = do { x \<leftarrow> idx b at; y \<leftarrow> idx b (at + 1); Some (ucast x OR push_bit 8 (ucast y)) }"

definition rd32 :: "bytes \<Rightarrow> nat \<Rightarrow> u32 option" where
  "rd32 b at = do { x \<leftarrow> rd16 b at; y \<leftarrow> rd16 b (at + 2); Some (ucast x OR push_bit 16 (ucast y)) }"

definition rd64 :: "bytes \<Rightarrow> nat \<Rightarrow> u64 option" where
  "rd64 b at = do { x \<leftarrow> rd32 b at; y \<leftarrow> rd32 b (at + 4); Some (ucast x OR push_bit 32 (ucast y)) }"

definition wr16 :: "nat \<Rightarrow> u16 \<Rightarrow> bytes \<Rightarrow> bytes option" where
  "wr16 at v b = do { b \<leftarrow> set_idx b at (ucast v); set_idx b (at + 1) (ucast (drop_bit 8 v)) }"

definition wr32 :: "nat \<Rightarrow> u32 \<Rightarrow> bytes \<Rightarrow> bytes option" where
  "wr32 at v b = do { b \<leftarrow> wr16 at (ucast v) b; wr16 (at + 2) (ucast (drop_bit 16 v)) b }"

definition wr64 :: "nat \<Rightarrow> u64 \<Rightarrow> bytes \<Rightarrow> bytes option" where
  "wr64 at v b = do { b \<leftarrow> wr32 at (ucast v) b; wr32 (at + 4) (ucast (drop_bit 32 v)) b }"

definition hash32 :: "bytes \<Rightarrow> nat \<Rightarrow> bytes option" where
  "hash32 b at = slice b at (at + 32)"

section \<open>Keys\<close>

datatype key = Key (obj: u64) (kind: u8) (off: u64)

definition key_read :: "bytes \<Rightarrow> nat \<Rightarrow> key option" where
  "key_read b at = do { ob \<leftarrow> rd64 b at; kd \<leftarrow> idx b (at + 8); ofs \<leftarrow> rd64 b (at + 9); Some (Key ob kd ofs) }"

definition key_write :: "key \<Rightarrow> nat \<Rightarrow> bytes \<Rightarrow> bytes option" where
  "key_write k at b = do {
     b \<leftarrow> wr64 at (obj k) b; b \<leftarrow> set_idx b (at + 8) (kind k); wr64 (at + 9) (off k) b }"

text \<open>\<^verbatim>\<open>checked_add(1)\<close> at a type's width.\<close>

definition checked_inc :: "'a::len word \<Rightarrow> 'a word option" where
  "checked_inc x = (if x = - 1 then None else Some (x + 1))"

definition successor :: "key \<Rightarrow> key option" where
  "successor k = (case checked_inc (off k) of
       Some ofs \<Rightarrow> Some (Key (obj k) (kind k) ofs)
     | None \<Rightarrow> (case checked_inc (kind k) of
         Some kd \<Rightarrow> Some (Key (obj k) kd 0)
       | None \<Rightarrow> map_option (\<lambda>ob. Key ob 0 0) (checked_inc (obj k))))"

text \<open>The derived order: object, kind, offset, in that order.\<close>

instantiation key :: linorder
begin

definition less_eq_key :: "key \<Rightarrow> key \<Rightarrow> bool" where
  "less_eq_key a b \<longleftrightarrow> obj a < obj b \<or>
     (obj a = obj b \<and> (kind a < kind b \<or> (kind a = kind b \<and> off a \<le> off b)))"

definition less_key :: "key \<Rightarrow> key \<Rightarrow> bool" where
  "less_key a b \<longleftrightarrow> obj a < obj b \<or>
     (obj a = obj b \<and> (kind a < kind b \<or> (kind a = kind b \<and> off a < off b)))"

instance
proof
  fix a b c :: key
  show "a < b \<longleftrightarrow> a \<le> b \<and> \<not> b \<le> a" by (auto simp: less_key_def less_eq_key_def)
  show "a \<le> a" by (simp add: less_eq_key_def)
  show "a \<le> b \<Longrightarrow> b \<le> c \<Longrightarrow> a \<le> c" by (auto simp: less_eq_key_def)
  show "a \<le> b \<Longrightarrow> b \<le> a \<Longrightarrow> a = b" by (auto simp: less_eq_key_def intro: key.expand)
  show "a \<le> b \<or> b \<le> a" by (auto simp: less_eq_key_def)
qed

end

section \<open>Node pointers\<close>

record ptr =
  p_block :: u64
  p_gen :: u64
  p_hash :: bytes
  p_level :: u8

definition ptr_read :: "bytes \<Rightarrow> nat \<Rightarrow> ptr option" where
  "ptr_read b at = do {
     bl \<leftarrow> rd64 b at; gn \<leftarrow> rd64 b (at + 8); h \<leftarrow> hash32 b (at + 16); lv \<leftarrow> idx b (at + 48);
     Some \<lparr> p_block = bl, p_gen = gn, p_hash = h, p_level = lv \<rparr> }"

definition ptr_write :: "ptr \<Rightarrow> nat \<Rightarrow> bytes \<Rightarrow> bytes option" where
  "ptr_write p at b = do {
     b \<leftarrow> wr64 at (p_block p) b;
     b \<leftarrow> wr64 (at + 8) (p_gen p) b;
     b \<leftarrow> copy_slice b (at + 16) (at + 48) (p_hash p);
     set_idx b (at + 48) (p_level p) }"

section \<open>The superblock\<close>

record superblock =
  incompat :: u64
  ro_compat :: u64
  compat :: u64
  sb_flags :: u64
  sb_fsid :: bytes
  label :: bytes
  sb_generation :: u64
  total_blocks :: u64
  sb_created :: u64
  committed :: u64
  root_tree :: ptr
  next_subvol :: u64
  default_subvol :: u64
  used_blocks :: u64
  sig_blocks :: u16

definition sb_encode :: "superblock \<Rightarrow> bytes option" where
  "sb_encode s = do {
     b \<leftarrow> copy_slice (zeros BLOCK) 0 8 MAGIC;
     b \<leftarrow> wr32 8 VERSION b;
     b \<leftarrow> wr32 12 (word_of_nat BLOCK) b;
     b \<leftarrow> wr64 16 (incompat s) b;
     b \<leftarrow> wr64 24 (ro_compat s) b;
     b \<leftarrow> wr64 32 (compat s) b;
     b \<leftarrow> wr64 40 (sb_flags s) b;
     b \<leftarrow> copy_slice b 48 64 (sb_fsid s);
     b \<leftarrow> copy_slice b 64 128 (label s);
     b \<leftarrow> wr64 128 (sb_generation s) b;
     b \<leftarrow> wr64 136 (total_blocks s) b;
     b \<leftarrow> wr64 144 (sb_created s) b;
     b \<leftarrow> wr64 152 (committed s) b;
     b \<leftarrow> ptr_write (root_tree s) 160 b;
     b \<leftarrow> wr64 216 (next_subvol s) b;
     b \<leftarrow> wr64 224 (default_subvol s) b;
     b \<leftarrow> wr64 232 (used_blocks s) b;
     b \<leftarrow> wr16 240 (sig_blocks s) b;
     body \<leftarrow> slice b 0 SB_SUM;
     h \<leftarrow> blake3_hash body;
     copy_slice b SB_SUM BLOCK h }"

text \<open>The fields of a superblock block, and the checks on them.\<close>

definition sb_fields :: "bytes \<Rightarrow> superblock option" where
  "sb_fields b = do {
     fs \<leftarrow> slice b 48 64;
     lb \<leftarrow> slice b 64 128;
     ic \<leftarrow> rd64 b 16;
     rc \<leftarrow> rd64 b 24;
     co \<leftarrow> rd64 b 32;
     fl \<leftarrow> rd64 b 40;
     gn \<leftarrow> rd64 b 128;
     tb \<leftarrow> rd64 b 136;
     cr \<leftarrow> rd64 b 144;
     cm \<leftarrow> rd64 b 152;
     rt \<leftarrow> ptr_read b 160;
     ns \<leftarrow> rd64 b 216;
     ds \<leftarrow> rd64 b 224;
     ub \<leftarrow> rd64 b 232;
     sg \<leftarrow> rd16 b 240;
     Some \<lparr> incompat = ic, ro_compat = rc, compat = co, sb_flags = fl, sb_fsid = fs, label = lb,
       sb_generation = gn, total_blocks = tb, sb_created = cr, committed = cm, root_tree = rt,
       next_subvol = ns, default_subvol = ds, used_blocks = ub, sig_blocks = sg \<rparr> }"

definition sb_decode :: "bytes \<Rightarrow> (ncfs_error + superblock) option" where
  "sb_decode b =
     (if length b \<noteq> BLOCK \<or> take 8 b \<noteq> MAGIC then Some (Inl NoSuperblock)
      else do {
        body \<leftarrow> slice b 0 SB_SUM;
        h \<leftarrow> blake3_hash body;
        stored \<leftarrow> hash32 b SB_SUM;
        if \<not> ct_eq h stored then Some (Inl NoSuperblock)
        else do {
          v \<leftarrow> rd32 b 8;
          bs \<leftarrow> rd32 b 12;
          if v \<noteq> VERSION \<or> bs \<noteq> word_of_nat BLOCK then Some (Inl Unsupported)
          else do {
            tail \<leftarrow> slice b 242 SB_SUM;
            gap \<leftarrow> slice b 209 216;
            if \<not> all_zero tail \<or> \<not> all_zero gap then Some (Inl NoSuperblock)
            else do {
              sb \<leftarrow> sb_fields b;
              Some (
                if incompat sb AND NOT INCOMPAT_KNOWN \<noteq> 0 then Inl Unsupported
                else if total_blocks sb < MIN_BLOCKS
                  \<or> p_block (root_tree sb) < FIRST_FREE
                  \<or> p_block (root_tree sb) \<ge> total_blocks sb
                  \<or> p_level (root_tree sb) \<ge> MAX_LEVEL
                  \<or> ucast (sig_blocks sb) > SIG_BLOCKS
                  \<or> default_subvol sb = 0
                  \<or> next_subvol sb \<le> default_subvol sb
                then Inl NoSuperblock
                else Inr sb) } } } })"

definition writable :: "superblock \<Rightarrow> bool" where
  "writable s \<longleftrightarrow> ro_compat s AND NOT RO_COMPAT_KNOWN = 0 \<and> sb_flags s AND FLAG_SEED = 0"

text \<open>The bytes of the label that its text is read from: up to its first NUL.\<close>

definition label_bytes :: "superblock \<Rightarrow> bytes" where
  "label_bytes s = takeWhile (\<lambda>c. c \<noteq> 0) (label s)"

section \<open>Tree nodes\<close>

record node_header =
  n_level :: u8
  n_count :: u16
  n_block :: u64
  n_gen :: u64
  n_owner :: u64
  n_fsid :: bytes

definition node_header_read :: "bytes \<Rightarrow> node_header option option" where
  "node_header_read b =
     (if length b \<noteq> BLOCK \<or> take 4 b \<noteq> NODE_MAGIC then Some None
      else do {
        five \<leftarrow> idx b 5;
        pad \<leftarrow> slice b 48 NODE_HEADER;
        if five \<noteq> 0 \<or> \<not> all_zero pad then Some None
        else do {
          fs \<leftarrow> slice b 32 48;
          lv \<leftarrow> idx b 4;
          ct \<leftarrow> rd16 b 6;
          bl \<leftarrow> rd64 b 8;
          gn \<leftarrow> rd64 b 16;
          ow \<leftarrow> rd64 b 24;
          Some (Some \<lparr> n_level = lv, n_count = ct, n_block = bl, n_gen = gn, n_owner = ow, n_fsid = fs \<rparr>) } })"

definition node_header_write :: "node_header \<Rightarrow> bytes \<Rightarrow> bytes option" where
  "node_header_write h b = do {
     b \<leftarrow> copy_slice b 0 4 NODE_MAGIC;
     b \<leftarrow> set_idx b 4 (n_level h);
     b \<leftarrow> set_idx b 5 0;
     b \<leftarrow> wr16 6 (n_count h) b;
     b \<leftarrow> wr64 8 (n_block h) b;
     b \<leftarrow> wr64 16 (n_gen h) b;
     b \<leftarrow> wr64 24 (n_owner h) b;
     b \<leftarrow> copy_slice b 32 48 (n_fsid h);
     fill_slice b 48 NODE_HEADER 0 }"

text \<open>\<^verbatim>\<open>prev.is_some_and(|p| p >= k)\<close>.\<close>

definition not_above :: "key option \<Rightarrow> key \<Rightarrow> bool" where
  "not_above prev k \<longleftrightarrow> (case prev of None \<Rightarrow> False | Some p \<Rightarrow> p \<ge> k)"

text \<open>The loop over a leaf's \<open>n\<close> items: where their data begins, or \<open>None\<close> for a broken rule.\<close>

fun check_items :: "bytes \<Rightarrow> nat \<Rightarrow> nat list \<Rightarrow> nat \<Rightarrow> key option \<Rightarrow> nat option option" where
  "check_items b n [] stop prev = Some (Some stop)"
| "check_items b n (i # is) stop prev = do {
     let at = NODE_HEADER + i * ITEM_HEADER;
     k \<leftarrow> key_read b at;
     ofs \<leftarrow> rd16 b (at + KEY_LEN);
     l \<leftarrow> rd16 b (at + KEY_LEN + 2);
     if unat ofs + unat l \<noteq> stop \<or> unat ofs < NODE_HEADER + n * ITEM_HEADER \<or> not_above prev k
     then Some None
     else check_items b n is (unat ofs) (Some k) }"

fun check_children :: "bytes \<Rightarrow> nat list \<Rightarrow> key option \<Rightarrow> bool option" where
  "check_children b [] prev = Some True"
| "check_children b (i # is) prev = do {
     k \<leftarrow> key_read b (NODE_HEADER + i * CHILD_ENTRY);
     if not_above prev k then Some False else check_children b is (Some k) }"

text \<open>The structural rules of a node whose header is \<open>h\<close>.\<close>

definition check_body :: "bytes \<Rightarrow> node_header \<Rightarrow> bool option" where
  "check_body b h = (let n = unat (n_count h) in
     if n_level h = 0
     then if NODE_HEADER + n * ITEM_HEADER > BLOCK then Some False
       else do {
         r \<leftarrow> check_items b n [0..<n] BLOCK None;
         case r of None \<Rightarrow> Some False
         | Some stop \<Rightarrow> do {
             gap \<leftarrow> slice b (NODE_HEADER + n * ITEM_HEADER) stop;
             Some (all_zero gap) } }
     else if n = 0 \<or> n > MAX_CHILDREN then Some False
       else do {
         ok \<leftarrow> check_children b [0..<n] None;
         rest \<leftarrow> slice b (NODE_HEADER + n * CHILD_ENTRY) (length b);
         Some (ok \<and> all_zero rest) })"

definition check_node :: "bytes \<Rightarrow> ptr \<Rightarrow> bytes \<Rightarrow> u64 \<Rightarrow> (ncfs_error + node_header) option" where
  "check_node b p fsid owner = do {
     h \<leftarrow> blake3_hash b;
     if \<not> ct_eq h (p_hash p) then Some (Inl (Checksum (p_block p)))
     else do {
       hd \<leftarrow> node_header_read b;
       case hd of None \<Rightarrow> Some (Inl (Corrupt (p_block p)))
       | Some h \<Rightarrow>
           if n_block h \<noteq> p_block p \<or> n_gen h \<noteq> p_gen p \<or> n_level h \<noteq> p_level p \<or> n_fsid h \<noteq> fsid
             \<or> (n_owner h = 0) \<noteq> (owner = 0) \<or> n_level h \<ge> MAX_LEVEL
           then Some (Inl (Corrupt (p_block p)))
           else do {
             ok \<leftarrow> check_body b h;
             Some (if ok then Inr h else Inl (Corrupt (p_block p))) } } }"

definition leaf_item :: "bytes \<Rightarrow> nat \<Rightarrow> (key \<times> bytes) option" where
  "leaf_item b i = do {
     let at = NODE_HEADER + i * ITEM_HEADER;
     ofs \<leftarrow> rd16 b (at + KEY_LEN);
     l \<leftarrow> rd16 b (at + KEY_LEN + 2);
     k \<leftarrow> key_read b at;
     v \<leftarrow> slice b (unat ofs) (unat ofs + unat l);
     Some (k, v) }"

definition child :: "bytes \<Rightarrow> nat \<Rightarrow> u8 \<Rightarrow> (key \<times> ptr) option" where
  "child b i level = do {
     let at = NODE_HEADER + i * CHILD_ENTRY;
     k \<leftarrow> key_read b at;
     bl \<leftarrow> rd64 b (at + KEY_LEN);
     gn \<leftarrow> rd64 b (at + KEY_LEN + 8);
     h \<leftarrow> hash32 b (at + KEY_LEN + 16);
     if level = 0 then None
     else Some (k, \<lparr> p_block = bl, p_gen = gn, p_hash = h, p_level = level - 1 \<rparr>) }"

definition write_child :: "bytes \<Rightarrow> nat \<Rightarrow> key \<Rightarrow> ptr \<Rightarrow> bytes option" where
  "write_child b i k p = do {
     let at = NODE_HEADER + i * CHILD_ENTRY;
     b \<leftarrow> key_write k at b;
     b \<leftarrow> wr64 (at + KEY_LEN) (p_block p) b;
     b \<leftarrow> wr64 (at + KEY_LEN + 8) (p_gen p) b;
     copy_slice b (at + KEY_LEN + 16) (at + KEY_LEN + 48) (p_hash p) }"

fun child_index_loop :: "nat \<Rightarrow> key list \<Rightarrow> key \<Rightarrow> nat \<Rightarrow> nat" where
  "child_index_loop i [] k pick = pick"
| "child_index_loop i (x # xs) k pick = (if x \<le> k then child_index_loop (i + 1) xs k i else pick)"

definition child_index :: "key list \<Rightarrow> key \<Rightarrow> nat" where
  "child_index keys k = child_index_loop 0 keys k 0"

section \<open>Inodes\<close>

record inode =
  mode :: u32
  uid :: u32
  gid :: u32
  nlink :: u32
  isize :: u64
  atime :: u64
  mtime :: u64
  ctime :: u64
  btime :: u64
  i_flags :: u64
  i_generation :: u64
  i_parent :: u64
  next_index :: u64
  rdev :: u64
  disk_bytes :: u64

definition INODE_LEN :: nat where "INODE_LEN = 112"

definition inode_encode :: "inode \<Rightarrow> bytes option" where
  "inode_encode i = do {
     b \<leftarrow> wr32 0 (mode i) (zeros INODE_LEN);
     b \<leftarrow> wr32 4 (uid i) b;
     b \<leftarrow> wr32 8 (gid i) b;
     b \<leftarrow> wr32 12 (nlink i) b;
     b \<leftarrow> wr64 16 (isize i) b;
     b \<leftarrow> wr64 24 (atime i) b;
     b \<leftarrow> wr64 32 (mtime i) b;
     b \<leftarrow> wr64 40 (ctime i) b;
     b \<leftarrow> wr64 48 (btime i) b;
     b \<leftarrow> wr64 56 (i_flags i) b;
     b \<leftarrow> wr64 64 (i_generation i) b;
     b \<leftarrow> wr64 72 (i_parent i) b;
     b \<leftarrow> wr64 80 (next_index i) b;
     b \<leftarrow> wr64 88 (rdev i) b;
     wr64 96 (disk_bytes i) b }"

definition inode_decode :: "bytes \<Rightarrow> inode option option" where
  "inode_decode b =
     (if length b \<noteq> INODE_LEN \<or> \<not> all_zero (drop 104 b) then Some None
      else do {
        m \<leftarrow> rd32 b 0;
        u \<leftarrow> rd32 b 4;
        g \<leftarrow> rd32 b 8;
        nl \<leftarrow> rd32 b 12;
        sz \<leftarrow> rd64 b 16;
        at \<leftarrow> rd64 b 24;
        mt \<leftarrow> rd64 b 32;
        ct \<leftarrow> rd64 b 40;
        bt \<leftarrow> rd64 b 48;
        fl \<leftarrow> rd64 b 56;
        gn \<leftarrow> rd64 b 64;
        pa \<leftarrow> rd64 b 72;
        ni \<leftarrow> rd64 b 80;
        rd \<leftarrow> rd64 b 88;
        db \<leftarrow> rd64 b 96;
        Some (Some \<lparr> mode = m, uid = u, gid = g, nlink = nl, isize = sz, atime = at, mtime = mt,
          ctime = ct, btime = bt, i_flags = fl, i_generation = gn, i_parent = pa, next_index = ni,
          rdev = rd, disk_bytes = db \<rparr>) })"

definition is_dir :: "inode \<Rightarrow> bool" where
  "is_dir i \<longleftrightarrow> mode i AND S_IFMT = S_IFDIR"

definition is_symlink :: "inode \<Rightarrow> bool" where
  "is_symlink i \<longleftrightarrow> mode i AND S_IFMT = S_IFLNK"

definition is_file :: "inode \<Rightarrow> bool" where
  "is_file i \<longleftrightarrow> mode i AND S_IFMT = S_IFREG"

section \<open>Extents\<close>

datatype compression = NoCompression | Lz4 | Zstd

definition compression_from_u8 :: "u8 \<Rightarrow> compression option" where
  "compression_from_u8 v =
     (if v = 0 then Some NoCompression else if v = 1 then Some Lz4 else if v = 2 then Some Zstd else None)"

fun compression_u8 :: "compression \<Rightarrow> u8" where
  "compression_u8 NoCompression = 0"
| "compression_u8 Lz4 = 1"
| "compression_u8 Zstd = 2"

fun compression_name :: "compression \<Rightarrow> string" where
  "compression_name NoCompression = ''none''"
| "compression_name Lz4 = ''lz4''"
| "compression_name Zstd = ''zstd''"

record region =
  r_compression :: compression
  r_len :: u32
  r_block :: u64
  r_blocks :: u32
  r_stored :: u32
  r_birth :: u64
  r_hash :: bytes

datatype extent = Inline compression u32 bytes | Regular region

definition EXTENT_HEADER :: nat where "EXTENT_HEADER = 8"
definition REGION_LEN :: nat where "REGION_LEN = EXTENT_HEADER + 56"

definition extent_decode :: "bytes \<Rightarrow> extent option option" where
  "extent_decode b =
     (if length b < EXTENT_HEADER then Some None
      else do {
        z \<leftarrow> rd16 b 2;
        c \<leftarrow> idx b 1;
        t \<leftarrow> idx b 0;
        len \<leftarrow> rd32 b 4;
        if z \<noteq> 0 then Some None
        else case compression_from_u8 c of None \<Rightarrow> Some None
        | Some cp \<Rightarrow>
            if len = 0 \<or> unat len > WINDOW then Some None
            else if t = 0 then do {
              data \<leftarrow> slice b EXTENT_HEADER (length b);
              if length data > INLINE_MAX \<or> (cp = NoCompression \<and> length data \<noteq> unat len) then Some None
              else Some (Some (Inline cp len data)) }
            else if t = 1 then
              if length b \<noteq> REGION_LEN then Some None
              else do {
                bl \<leftarrow> rd64 b 8;
                bs \<leftarrow> rd32 b 16;
                st \<leftarrow> rd32 b 20;
                bi \<leftarrow> rd64 b 24;
                h \<leftarrow> hash32 b 32;
                let r = \<lparr> r_compression = cp, r_len = len, r_block = bl, r_blocks = bs, r_stored = st,
                  r_birth = bi, r_hash = h \<rparr>;
                if bs = 0 \<or> unat bs > WINDOW_BLOCKS then Some None
                else if \<not> (unat st \<le> unat bs * BLOCK \<and> unat st > (unat bs - 1) * BLOCK)
                  \<or> (cp = NoCompression \<and> st \<noteq> len) then Some None
                else Some (Some (Regular r)) }
            else Some None })"

fun extent_len :: "extent \<Rightarrow> u32" where
  "extent_len (Inline _ len _) = len"
| "extent_len (Regular r) = r_len r"

definition encode_inline :: "compression \<Rightarrow> u32 \<Rightarrow> bytes \<Rightarrow> bytes \<Rightarrow> (bytes \<times> nat) option" where
  "encode_inline cp len data out = do {
     out \<leftarrow> set_idx out 0 0;
     out \<leftarrow> set_idx out 1 (compression_u8 cp);
     out \<leftarrow> wr16 2 0 out;
     out \<leftarrow> wr32 4 len out;
     out \<leftarrow> copy_slice out EXTENT_HEADER (EXTENT_HEADER + length data) data;
     Some (out, EXTENT_HEADER + length data) }"

definition region_encode :: "region \<Rightarrow> bytes option" where
  "region_encode r = do {
     b \<leftarrow> set_idx (zeros REGION_LEN) 0 1;
     b \<leftarrow> set_idx b 1 (compression_u8 (r_compression r));
     b \<leftarrow> wr32 4 (r_len r) b;
     b \<leftarrow> wr64 8 (r_block r) b;
     b \<leftarrow> wr32 16 (r_blocks r) b;
     b \<leftarrow> wr32 20 (r_stored r) b;
     b \<leftarrow> wr64 24 (r_birth r) b;
     copy_slice b 32 64 (r_hash r) }"

section \<open>Subvolumes\<close>

record root_item =
  ri_root :: ptr
  ri_generation :: u64
  ri_created :: u64
  ri_flags :: u64
  ri_parent :: u64
  next_ino :: u64
  name_len :: u8
  ri_name :: bytes

definition ROOT_FIXED :: nat where "ROOT_FIXED = 105"
definition SUBVOL_READONLY :: u64 where "SUBVOL_READONLY = 1"

definition root_name :: "root_item \<Rightarrow> bytes option" where
  "root_name r = slice (ri_name r) 0 (unat (name_len r))"

definition root_encode :: "root_item \<Rightarrow> bytes \<Rightarrow> (bytes \<times> nat) option" where
  "root_encode r out = do {
     out \<leftarrow> fill_slice out 0 ROOT_FIXED 0;
     out \<leftarrow> ptr_write (ri_root r) 0 out;
     out \<leftarrow> wr64 56 (ri_generation r) out;
     out \<leftarrow> wr64 64 (ri_created r) out;
     out \<leftarrow> wr64 72 (ri_flags r) out;
     out \<leftarrow> wr64 80 (ri_parent r) out;
     out \<leftarrow> wr64 88 (next_ino r) out;
     out \<leftarrow> set_idx out 104 (name_len r);
     let n = unat (name_len r);
     name \<leftarrow> slice (ri_name r) 0 n;
     out \<leftarrow> copy_slice out ROOT_FIXED (ROOT_FIXED + n) name;
     Some (out, ROOT_FIXED + n) }"

definition root_decode :: "bytes \<Rightarrow> root_item option option" where
  "root_decode b =
     (if length b < ROOT_FIXED then Some None
      else do {
        z1 \<leftarrow> slice b 49 56;
        z2 \<leftarrow> slice b 96 104;
        nl \<leftarrow> idx b 104;
        let n = unat nl;
        if \<not> all_zero z1 \<or> \<not> all_zero z2 then Some None
        else if length b \<noteq> ROOT_FIXED + n \<or> n = 0 then Some None
        else do {
          nm \<leftarrow> copy_slice (zeros NAME_MAX) 0 n (drop ROOT_FIXED b);
          rt \<leftarrow> ptr_read b 0;
          gn \<leftarrow> rd64 b 56;
          cr \<leftarrow> rd64 b 64;
          fl \<leftarrow> rd64 b 72;
          pa \<leftarrow> rd64 b 80;
          ni \<leftarrow> rd64 b 88;
          let r = \<lparr> ri_root = rt, ri_generation = gn, ri_created = cr, ri_flags = fl, ri_parent = pa,
            next_ino = ni, name_len = word_of_nat n, ri_name = nm \<rparr>;
          Some (if p_level rt \<ge> MAX_LEVEL \<or> ni \<le> ROOT_INO then None else Some r) } })"

section \<open>Directories\<close>

definition valid_name :: "bytes \<Rightarrow> bool" where
  "valid_name name \<longleftrightarrow> name \<noteq> [] \<and> length name \<le> NAME_MAX \<and> name \<noteq> [0x2E] \<and> name \<noteq> [0x2E, 0x2E] \<and>
     \<not> list_ex (\<lambda>c. c = 0x2F \<or> c = 0) name"

definition name_context :: bytes where
  "name_context = map of_char ''NCFS 2026-10 directory entry name''"

definition name_hash :: "bytes \<Rightarrow> u64 option" where
  "name_hash name = do {
     h \<leftarrow> new_derive_key name_context;
     h \<leftarrow> hasher_update h name;
     out \<leftarrow> finalize_xof h 0 8;
     Some (of_le64 out) }"

record dirent =
  d_child :: u64
  d_seq :: u64
  d_dtype :: u8
  d_name :: bytes

definition DIRENT_FIXED :: nat where "DIRENT_FIXED = 18"

text \<open>What the iterator yields from \<open>at\<close> on; a broken record is the last thing it yields.\<close>

function dirents_from :: "bytes \<Rightarrow> nat \<Rightarrow> dirent option list option" where
  "dirents_from b at =
     (if at = length b then Some []
      else if at + DIRENT_FIXED > length b then Some [None]
      else do {
        nl \<leftarrow> idx b (at + 17);
        let n = unat nl;
        if at + DIRENT_FIXED + n > length b then Some [None]
        else do {
          ch \<leftarrow> rd64 b at;
          sq \<leftarrow> rd64 b (at + 8);
          dt \<leftarrow> idx b (at + 16);
          nm \<leftarrow> slice b (at + DIRENT_FIXED) (at + DIRENT_FIXED + n);
          let d = \<lparr> d_child = ch, d_seq = sq, d_dtype = dt, d_name = nm \<rparr>;
          if \<not> valid_name nm then Some [None]
          else do { ds \<leftarrow> dirents_from b (at + DIRENT_FIXED + n); Some (Some d # ds) } } })"
  by pat_completeness auto
termination
  by (relation "measure (\<lambda>(b, at). length b - at)") (auto simp: DIRENT_FIXED_def)

definition dirents :: "bytes \<Rightarrow> dirent option list option" where
  "dirents b = dirents_from b 0"

definition push_dirent :: "bytes \<Rightarrow> dirent \<Rightarrow> bytes option" where
  "push_dirent out d = do {
     f \<leftarrow> wr64 0 (d_child d) (zeros DIRENT_FIXED);
     f \<leftarrow> wr64 8 (d_seq d) f;
     f \<leftarrow> set_idx f 16 (d_dtype d);
     f \<leftarrow> set_idx f 17 (word_of_nat (length (d_name d)));
     Some (out @ f @ d_name d) }"

definition dirindex :: "bytes \<Rightarrow> (u64 \<times> u8 \<times> bytes) option option" where
  "dirindex b =
     (if length b < 10 then Some None
      else do {
        nl \<leftarrow> idx b 9;
        if length b \<noteq> 10 + unat nl then Some None
        else do {
          name \<leftarrow> slice b 10 (length b);
          if valid_name name
          then do { ch \<leftarrow> rd64 b 0; dt \<leftarrow> idx b 8; Some (Some (ch, dt, name)) }
          else Some None } })"

definition encode_dirindex :: "u64 \<Rightarrow> u8 \<Rightarrow> bytes \<Rightarrow> bytes option" where
  "encode_dirindex ch dt name = do {
     v \<leftarrow> wr64 0 ch (zeros 10);
     v \<leftarrow> set_idx v 8 dt;
     v \<leftarrow> set_idx v 9 (word_of_nat (length name));
     Some (v @ name) }"

section \<open>Reading and writing fields\<close>

lemma rd16_sub [layout]: "at + 2 \<le> length b \<Longrightarrow> rd16 b at = Some (of_le16 (sub b at 2))"
  by (simp add: rd16_def idx_def of_le16_def sub_def)

lemma rd32_sub [layout]: "at + 4 \<le> length b \<Longrightarrow> rd32 b at = Some (of_le32 (sub b at 4))"
  by (simp add: rd32_def rd16_sub of_le32_def) (simp add: sub_def drop_take min_def add.commute)

lemma rd64_sub [layout]: "at + 8 \<le> length b \<Longrightarrow> rd64 b at = Some (of_le64 (sub b at 8))"
  by (simp add: rd64_def rd32_sub of_le64_def) (simp add: sub_def drop_take min_def add.commute)

lemma wr16_splice [layout]: "at + 2 \<le> length b \<Longrightarrow> wr16 at v b = Some (splice b at (le16 v))"
  by (simp add: wr16_def slices splice_splice_adjacent le16_def)

lemma wr32_splice [layout]: "at + 4 \<le> length b \<Longrightarrow> wr32 at v b = Some (splice b at (le32 v))"
  by (simp add: wr32_def wr16_splice splice_splice_adjacent le32_def)

lemma wr64_splice [layout]: "at + 8 \<le> length b \<Longrightarrow> wr64 at v b = Some (splice b at (le64 v))"
  by (simp add: wr64_def wr32_splice splice_splice_adjacent le64_def)

lemma hash32_sub [layout]: "at + 32 \<le> length b \<Longrightarrow> hash32 b at = Some (sub b at 32)"
  by (simp add: hash32_def slices)

lemmas access [layout] = idx_sub slice_sub set_idx_splice copy_slice_splice fill_slice_splice

definition key_bytes :: "key \<Rightarrow> bytes" where
  "key_bytes k = le64 (obj k) @ [kind k] @ le64 (off k)"

definition of_key_bytes :: "bytes \<Rightarrow> key" where
  "of_key_bytes b = Key (of_le64 (sub b 0 8)) (hd (sub b 8 1)) (of_le64 (sub b 9 8))"

lemma length_key_bytes [simp]: "length (key_bytes k) = 17"
  by (simp add: key_bytes_def)

lemma of_key_bytes_key_bytes [simp]: "of_key_bytes (key_bytes k) = k"
  by (simp add: of_key_bytes_def key_bytes_def layout)

lemma key_read_sub [layout]: "at + 17 \<le> length b \<Longrightarrow> key_read b at = Some (of_key_bytes (sub b at 17))"
  by (simp add: key_read_def of_key_bytes_def layout sub_sub)

lemma key_write_splice [layout]: "at + 17 \<le> length b \<Longrightarrow> key_write k at b = Some (splice b at (key_bytes k))"
  by (simp add: key_write_def key_bytes_def wr64_splice set_idx_splice splice_splice_adjacent)

definition ptr_bytes :: "ptr \<Rightarrow> bytes" where
  "ptr_bytes p = le64 (p_block p) @ le64 (p_gen p) @ p_hash p @ [p_level p]"

definition of_ptr_bytes :: "bytes \<Rightarrow> ptr" where
  "of_ptr_bytes b = \<lparr> p_block = of_le64 (sub b 0 8), p_gen = of_le64 (sub b 8 8), p_hash = sub b 16 32,
     p_level = hd (sub b 48 1) \<rparr>"

definition ptr_wf :: "ptr \<Rightarrow> bool" where
  "ptr_wf p \<longleftrightarrow> length (p_hash p) = 32"

lemma length_ptr_bytes [simp]: "ptr_wf p \<Longrightarrow> length (ptr_bytes p) = 49"
  by (simp add: ptr_bytes_def ptr_wf_def)

lemma of_ptr_bytes_ptr_bytes [simp]: "ptr_wf p \<Longrightarrow> of_ptr_bytes (ptr_bytes p) = p"
  by (simp add: of_ptr_bytes_def ptr_bytes_def ptr_wf_def layout)

lemma ptr_wf_of_ptr_bytes [simp]: "length b = 49 \<Longrightarrow> ptr_wf (of_ptr_bytes b)"
  by (simp add: ptr_wf_def of_ptr_bytes_def)

lemma singleton_hd_sub: "i < length b \<Longrightarrow> [hd (sub b i (Suc 0))] = sub b i (Suc 0)"
  by (simp add: sub_def take_Suc hd_drop_conv_nth Cons_nth_drop_Suc [symmetric])

lemma ptr_bytes_of_ptr_bytes [simp]:
  assumes "length b = 49"
  shows "ptr_bytes (of_ptr_bytes b) = b"
  using eq_concat_fields [of b "[8, 8, 32, 1]"] assms
  by (simp add: ptr_bytes_def of_ptr_bytes_def singleton_hd_sub)

lemma ptr_read_sub [layout]: "at + 49 \<le> length b \<Longrightarrow> ptr_read b at = Some (of_ptr_bytes (sub b at 49))"
  by (simp add: ptr_read_def of_ptr_bytes_def layout sub_sub)

lemma ptr_write_splice [layout]:
  "ptr_wf p \<Longrightarrow> at + 49 \<le> length b \<Longrightarrow> ptr_write p at b = Some (splice b at (ptr_bytes p))"
  by (simp add: ptr_write_def ptr_bytes_def ptr_wf_def wr64_splice access splice_splice_adjacent)

section \<open>Inodes\<close>

definition inode_bytes :: "inode \<Rightarrow> bytes" where
  "inode_bytes i = le32 (mode i) @ le32 (uid i) @ le32 (gid i) @ le32 (nlink i) @ le64 (isize i) @
     le64 (atime i) @ le64 (mtime i) @ le64 (ctime i) @ le64 (btime i) @ le64 (i_flags i) @
     le64 (i_generation i) @ le64 (i_parent i) @ le64 (next_index i) @ le64 (rdev i) @
     le64 (disk_bytes i) @ zeros 8"

lemma inode_encode_bytes: "inode_encode i = Some (inode_bytes i)"
  by (simp add: inode_encode_def inode_bytes_def INODE_LEN_def layout)

lemma inode_decode_bytes: "inode_decode (inode_bytes i) = Some (Some i)"
  by (simp add: inode_decode_def inode_bytes_def INODE_LEN_def layout)

lemma inode_decode_Some:
  assumes "inode_decode b = Some (Some i)"
  shows "b = inode_bytes i"
proof -
  have b: "length b = 112" "all_zero (drop 104 b)"
    using assms by (auto simp: inode_decode_def INODE_LEN_def split: if_splits)
  then have z: "sub b 104 8 = zeros 8" by (simp add: all_zero_iff drop_eq_sub [of 8])
  have "inode_bytes i = concat (chop_from 0 [4, 4, 4, 4, 8, 8, 8, 8, 8, 8, 8, 8, 8, 8, 8, 8] b)"
    using assms b by (auto simp: inode_decode_def INODE_LEN_def layout inode_bytes_def z)
  also have "\<dots> = b" by (rule eq_concat_fields) (simp add: b)
  finally show ?thesis ..
qed

lemma inode_decode_total: "inode_decode b \<noteq> None"
  by (simp add: inode_decode_def INODE_LEN_def layout)

section \<open>The superblock\<close>

definition sb_wf :: "superblock \<Rightarrow> bool" where
  "sb_wf s \<longleftrightarrow> length (sb_fsid s) = 16 \<and> length (label s) = 64 \<and> ptr_wf (root_tree s)"

definition sb_body :: "superblock \<Rightarrow> bytes" where
  "sb_body s = MAGIC @ le32 VERSION @ le32 4096 @ le64 (incompat s) @ le64 (ro_compat s) @
     le64 (compat s) @ le64 (sb_flags s) @ sb_fsid s @ label s @ le64 (sb_generation s) @
     le64 (total_blocks s) @ le64 (sb_created s) @ le64 (committed s) @ ptr_bytes (root_tree s) @
     zeros 7 @ le64 (next_subvol s) @ le64 (default_subvol s) @ le64 (used_blocks s) @
     le16 (sig_blocks s) @ zeros 3822"

definition sb_bytes :: "superblock \<Rightarrow> bytes" where
  "sb_bytes s = sb_body s @ b3 (sb_body s)"

text \<open>What the decoder demands of the fields.\<close>

definition sb_ok :: "superblock \<Rightarrow> bool" where
  "sb_ok s \<longleftrightarrow> incompat s AND NOT INCOMPAT_KNOWN = 0 \<and> MIN_BLOCKS \<le> total_blocks s \<and>
     FIRST_FREE \<le> p_block (root_tree s) \<and> p_block (root_tree s) < total_blocks s \<and>
     p_level (root_tree s) < MAX_LEVEL \<and> ucast (sig_blocks s) \<le> SIG_BLOCKS \<and>
     default_subvol s \<noteq> 0 \<and> default_subvol s < next_subvol s"

lemma length_MAGIC [simp]: "length MAGIC = 8"
  by (simp add: MAGIC_def)

lemma length_sb_body [simp]: "sb_wf s \<Longrightarrow> length (sb_body s) = 4064"
  by (simp add: sb_body_def sb_wf_def)

lemma length_sb_bytes [simp]: "sb_wf s \<Longrightarrow> length (sb_bytes s) = 4096"
  by (simp add: sb_bytes_def)

lemma hash_short: "length b \<le> 4096 \<Longrightarrow> blake3_hash b = Some (b3 b)"
  by (rule blake3_hash_b3) simp

lemma sb_encode_bytes: "sb_wf s \<Longrightarrow> sb_encode s = Some (sb_bytes s)"
  by (simp add: sb_encode_def sb_bytes_def sb_body_def sb_wf_def ncfs_sizes layout hash_short sub_append_cover)

lemma sb_fields_bytes: "sb_wf s \<Longrightarrow> sb_fields (sb_body s @ h) = Some s"
  by (simp add: sb_fields_def sb_body_def sb_wf_def layout)

lemma sb_decode_bytes:
  assumes "sb_wf s"
  shows "sb_decode (sb_bytes s) = Some (if incompat s AND NOT INCOMPAT_KNOWN \<noteq> 0 then Inl Unsupported
    else if sb_ok s then Inr s else Inl NoSuperblock)"
proof -
  have "sub (sb_bytes s) 0 4064 = sb_body s" "sub (sb_bytes s) 4064 32 = b3 (sb_body s)"
    using assms by (simp_all add: sb_bytes_def layout)
  moreover have "take 8 (sb_bytes s) = MAGIC" "sub (sb_bytes s) 8 4 = le32 VERSION"
      "sub (sb_bytes s) 12 4 = le32 4096" "sub (sb_bytes s) 242 3822 = zeros 3822"
      "sub (sb_bytes s) 209 7 = zeros 7"
    using assms by (simp_all add: sb_bytes_def sb_body_def sb_wf_def layout take_eq_sub)
  moreover have "sb_fields (sb_bytes s) = Some s" using assms by (simp add: sb_bytes_def sb_fields_bytes)
  ultimately show ?thesis
    using assms
    by (auto simp: sb_decode_def ncfs_sizes access rd32_sub hash32_sub hash_short ct_eq_iff sb_ok_def not_less not_le)
qed

lemma sb_decode_cases:
  assumes "length b = 4096" "take 8 b = MAGIC" "b3 (sub b 0 4064) = sub b 4064 32"
    "sub b 8 4 = le32 VERSION" "sub b 12 4 = le32 4096" "sub b 209 7 = zeros 7" "sub b 242 3822 = zeros 3822"
    "sb_fields b = Some s"
  shows "sb_wf s \<and> b = sb_bytes s"
proof -
  have "sb_wf s" using assms(1,8) by (auto simp: sb_fields_def layout sb_wf_def)
  moreover have "sb_body s = concat (chop_from 0 [8, 4, 4, 8, 8, 8, 8, 16, 64, 8, 8, 8, 8, 49, 7, 8, 8, 8, 2, 3822] b)"
    using assms by (auto simp: sb_fields_def layout sb_body_def take_eq_sub)
  then have "sb_body s = sub b 0 4064" by (simp only: concat_chop_from) simp
  moreover have "b = sub b 0 4064 @ sub b 4064 32" using assms(1) by (simp add: sub_def)
  ultimately show ?thesis using assms(3) by (simp add: sb_bytes_def)
qed

lemma sb_decode_Inr:
  assumes "sb_decode b = Some (Inr s)"
  shows "sb_wf s" "sb_ok s" "b = sb_bytes s"
proof -
  have b: "length b = 4096" "take 8 b = MAGIC"
    using assms by (auto simp: sb_decode_def ncfs_sizes split: if_splits)
  then have *: "b3 (sub b 0 4064) = sub b 4064 32" "of_le32 (sub b 8 4) = VERSION"
    "of_le32 (sub b 12 4) = 4096" "sub b 209 7 = zeros 7" "sub b 242 3822 = zeros 3822"
    "sb_fields b = Some s" "sb_ok s"
    using assms
    by (auto simp: sb_decode_def ncfs_sizes access rd32_sub hash32_sub hash_short ct_eq_iff sb_ok_def not_less not_le
        all_zero_iff split: if_splits bind_splits)
  have "sub b 8 4 = le32 VERSION" "sub b 12 4 = le32 4096"
    unfolding *(2,3) [symmetric] using b by simp_all
  from sb_decode_cases [OF b *(1) this *(4,5,6)] *(7) show "sb_wf s" "sb_ok s" "b = sb_bytes s" by simp_all
qed

lemma sb_fields_total: "length b = 4096 \<Longrightarrow> sb_fields b \<noteq> None"
  by (simp add: sb_fields_def layout)

lemma sb_decode_total: "sb_decode b \<noteq> None"
  using sb_fields_total [of b]
  by (auto simp: sb_decode_def ncfs_sizes access rd32_sub hash32_sub hash_short)

section \<open>Nodes\<close>

lemma node_header_read_total: "node_header_read b \<noteq> None"
  by (auto simp: node_header_read_def ncfs_sizes layout)

lemma node_header_read_length: "node_header_read b = Some (Some h) \<Longrightarrow> length b = 4096"
  by (auto simp: node_header_read_def ncfs_sizes split: if_splits)

text \<open>An item header of a leaf, read in a block of full length.\<close>

definition item_key :: "bytes \<Rightarrow> nat \<Rightarrow> key" where
  "item_key b i = of_key_bytes (sub b (64 + i * 21) 17)"

definition item_off :: "bytes \<Rightarrow> nat \<Rightarrow> nat" where
  "item_off b i = unat (of_le16 (sub b (64 + i * 21 + 17) 2))"

definition item_len :: "bytes \<Rightarrow> nat \<Rightarrow> nat" where
  "item_len b i = unat (of_le16 (sub b (64 + i * 21 + 19) 2))"

lemma item_in_block: "i < n \<Longrightarrow> 64 + n * 21 \<le> 4096 \<Longrightarrow> 64 + i * 21 + 21 \<le> (4096 :: nat)"
  by simp

lemma leaf_item_eq:
  assumes "length b = 4096" "i < n" "64 + n * 21 \<le> 4096" "item_off b i + item_len b i \<le> 4096"
  shows "leaf_item b i = Some (item_key b i, sub b (item_off b i) (item_len b i))"
  using assms item_in_block [OF assms(2,3)]
  by (simp add: leaf_item_def ncfs_sizes layout item_key_def item_off_def item_len_def)

lemma check_items_step:
  assumes "length b = 4096" "i < n" "64 + n * 21 \<le> 4096"
  shows "check_items b n (i # is) stop prev =
    (if item_off b i + item_len b i \<noteq> stop \<or> item_off b i < 64 + n * 21 \<or> not_above prev (item_key b i)
     then Some None else check_items b n is (item_off b i) (Some (item_key b i)))"
  using assms item_in_block [OF assms(2,3)]
  by (simp add: ncfs_sizes layout item_key_def item_off_def item_len_def)

definition key_list :: "key option \<Rightarrow> key list" where
  "key_list k = (case k of None \<Rightarrow> [] | Some k \<Rightarrow> [k])"

lemma sorted_from_prev:
  "\<not> not_above prev k \<Longrightarrow> sorted_wrt (<) (k # ks) \<Longrightarrow> sorted_wrt (<) (key_list prev @ k # ks)"
  by (auto simp: not_above_def key_list_def split: option.splits)

lemma check_items_sound:
  assumes "length b = 4096" "64 + n * 21 \<le> 4096" "\<forall>i \<in> set is. i < n" "stop \<le> 4096" "64 + n * 21 \<le> stop"
    and "check_items b n is stop prev = Some (Some stop')"
  shows "\<exists>items. map (leaf_item b) is = map Some items \<and> 64 + n * 21 \<le> stop' \<and> stop' \<le> 4096 \<and>
    drop stop' b = concat (rev (map snd items)) @ drop stop b \<and>
    sorted_wrt (<) (key_list prev @ map fst items)"
  using assms(3-)
proof (induction "is" arbitrary: stop prev)
  case Nil
  then show ?case by (intro exI [of _ "[]"]) (auto simp: key_list_def split: option.splits)
next
  case (Cons i "is")
  have i: "i < n" using Cons.prems(1) by simp
  note step = Cons.prems(4) [unfolded check_items_step [OF assms(1) i assms(2)]]
  have ok: "item_off b i + item_len b i = stop" "64 + n * 21 \<le> item_off b i"
      "\<not> not_above prev (item_key b i)"
      "check_items b n is (item_off b i) (Some (item_key b i)) = Some (Some stop')"
    using step by (auto split: if_splits)
  obtain items where items: "map (leaf_item b) is = map Some items" "64 + n * 21 \<le> stop'" "stop' \<le> 4096"
      "drop stop' b = concat (rev (map snd items)) @ drop (item_off b i) b"
      "sorted_wrt (<) (item_key b i # map fst items)"
    using Cons.IH [OF _ _ ok(2,4)] Cons.prems(1,2) ok(1) by (auto simp: key_list_def)
  have item: "leaf_item b i = Some (item_key b i, sub b (item_off b i) (item_len b i))"
    using leaf_item_eq [OF assms(1) i assms(2)] ok(1) Cons.prems(2) by simp
  have "drop (item_off b i) b = sub b (item_off b i) (item_len b i) @ drop stop b"
    unfolding ok(1) [symmetric] sub_def by (metis add.commute append_take_drop_id drop_drop)
  then show ?case
    using items item sorted_from_prev [OF ok(3) items(5)]
    by (intro exI [of _ "(item_key b i, sub b (item_off b i) (item_len b i)) # items"]) simp
qed

lemma check_items_total:
  "length b = 4096 \<Longrightarrow> 64 + n * 21 \<le> 4096 \<Longrightarrow> \<forall>i \<in> set is. i < n \<Longrightarrow> check_items b n is stop prev \<noteq> None"
proof (induction "is" arbitrary: stop prev)
  case (Cons i "is")
  then show ?case by (simp add: check_items_step del: check_items.simps(2))
qed simp

definition child_key :: "bytes \<Rightarrow> nat \<Rightarrow> key" where
  "child_key b i = of_key_bytes (sub b (64 + i * 65) 17)"

lemma child_in_block: "i < n \<Longrightarrow> n \<le> 62 \<Longrightarrow> 64 + i * 65 + 65 \<le> (4096 :: nat)"
  by simp

definition child_ptr :: "bytes \<Rightarrow> nat \<Rightarrow> u8 \<Rightarrow> ptr" where
  "child_ptr b i level = \<lparr> p_block = of_le64 (sub b (64 + i * 65 + 17) 8),
     p_gen = of_le64 (sub b (64 + i * 65 + 25) 8), p_hash = sub b (64 + i * 65 + 33) 32, p_level = level - 1 \<rparr>"

lemma child_eq:
  assumes "length b = 4096" "i < n" "n \<le> 62" "level \<noteq> 0"
  shows "child b i level = Some (child_key b i, child_ptr b i level)"
  using assms child_in_block [OF assms(2,3)]
  by (simp add: child_def ncfs_sizes layout child_key_def child_ptr_def)

lemma check_children_sound:
  assumes "length b = 4096" "n \<le> 62" "\<forall>i \<in> set is. i < n"
  shows "\<exists>ok. check_children b is prev = Some ok \<and>
    (ok \<longrightarrow> sorted_wrt (<) (key_list prev @ map (child_key b) is))"
  using assms(3)
proof (induction "is" arbitrary: prev)
  case Nil
  then show ?case by (auto simp: key_list_def split: option.splits)
next
  case (Cons i "is")
  have "key_read b (NODE_HEADER + i * CHILD_ENTRY) = Some (child_key b i)"
    using assms(1) child_in_block [of i n] Cons.prems assms(2)
    by (simp add: ncfs_sizes layout child_key_def)
  moreover obtain ok where ok: "check_children b is (Some (child_key b i)) = Some ok"
      "ok \<longrightarrow> sorted_wrt (<) (child_key b i # map (child_key b) is)"
    using Cons.IH [of "Some (child_key b i)"] Cons.prems by (auto simp: key_list_def)
  ultimately show ?case using sorted_from_prev [of prev "child_key b i"] by auto
qed

text \<open>
  What a checked node holds.  A leaf is its header, the item headers, zeros, and the items' data
  packed from the end in item order: nothing overlaps and nothing is hidden.
\<close>

definition leaf_holds :: "bytes \<Rightarrow> (key \<times> bytes) list \<Rightarrow> bool" where
  "leaf_holds b items \<longleftrightarrow> (\<forall>i < length items. leaf_item b i = Some (items ! i)) \<and>
     sorted_wrt (<) (map fst items) \<and>
     (\<exists>gap. b = sub b 0 (64 + length items * 21) @ zeros gap @ concat (rev (map snd items)))"

definition inner_holds :: "bytes \<Rightarrow> u8 \<Rightarrow> (key \<times> ptr) list \<Rightarrow> bool" where
  "inner_holds b level cs \<longleftrightarrow> cs \<noteq> [] \<and> length cs \<le> 62 \<and>
     (\<forall>i < length cs. child b i level = Some (cs ! i)) \<and> sorted_wrt (<) (map fst cs) \<and>
     (\<forall>(k, p) \<in> set cs. p_level p = level - 1 \<and> ptr_wf p) \<and> all_zero (drop (64 + length cs * 65) b)"

lemma check_body_leaf:
  assumes b: "length b = 4096" and leaf: "n_level h = 0"
  shows "\<exists>ok. check_body b h = Some ok \<and>
    (ok \<longrightarrow> (\<exists>items. length items = unat (n_count h) \<and> leaf_holds b items))"
proof (cases "64 + unat (n_count h) * 21 \<le> 4096")
  case False
  then show ?thesis using leaf by (intro exI [of _ False]) (simp add: check_body_def ncfs_sizes)
next
  case True
  define n where "n = unat (n_count h)"
  have n: "64 + n * 21 \<le> 4096" using True by (simp add: n_def)
  obtain r where r: "check_items b n [0..<n] 4096 None = Some r"
    using check_items_total [OF b n, of "[0..<n]"] by fastforce
  show ?thesis
  proof (cases r)
    case None
    then show ?thesis using r leaf n
      by (intro exI [of _ False]) (simp add: check_body_def ncfs_sizes n_def)
  next
    case (Some stop)
    obtain items where items: "map (leaf_item b) [0..<n] = map Some items" "64 + n * 21 \<le> stop" "stop \<le> 4096"
        "drop stop b = concat (rev (map snd items))" "sorted_wrt (<) (map fst items)"
      using check_items_sound [OF b n _ _ n r [unfolded Some]] b by (auto simp: key_list_def)
    have len: "length items = n" using items(1) by (metis length_map length_upt minus_nat.diff_0)
    have at: "leaf_item b i = Some (items ! i)" if "i < n" for i
      using arg_cong [OF items(1), of "\<lambda>xs. xs ! i"] that len by simp
    have "b = sub b 0 (64 + n * 21) @ sub b (64 + n * 21) (stop - (64 + n * 21)) @ drop stop b"
      using items(2) unfolding sub_def
      by (metis append_take_drop_id drop_0 drop_drop le_add_diff_inverse2 add.commute)
    then have "all_zero (sub b (64 + n * 21) (stop - (64 + n * 21))) \<Longrightarrow> leaf_holds b items"
      unfolding leaf_holds_def all_zero_iff len items(4) using at items(5) by metis
    moreover have "check_body b h = Some (all_zero (sub b (64 + n * 21) (stop - (64 + n * 21))))"
      using leaf n r Some items(2,3) b by (simp add: check_body_def ncfs_sizes n_def [symmetric] access)
    ultimately show ?thesis using len by (auto simp: n_def)
  qed
qed

lemma check_body_inner:
  assumes b: "length b = 4096" and inner: "n_level h \<noteq> 0"
  shows "\<exists>ok. check_body b h = Some ok \<and>
    (ok \<longrightarrow> (\<exists>cs. length cs = unat (n_count h) \<and> inner_holds b (n_level h) cs))"
proof (cases "unat (n_count h) = 0 \<or> unat (n_count h) > 62")
  case True
  then show ?thesis using inner by (intro exI [of _ False]) (simp add: check_body_def ncfs_sizes)
next
  case False
  define n where "n = unat (n_count h)"
  define cs where "cs = map (\<lambda>i. (child_key b i, child_ptr b i (n_level h))) [0..<n]"
  have n: "n \<noteq> 0" "n \<le> 62" using False by (simp_all add: n_def)
  obtain ok where ok: "check_children b [0..<n] None = Some ok"
      "ok \<longrightarrow> sorted_wrt (<) (map (child_key b) [0..<n])"
    using check_children_sound [OF b n(2), of "[0..<n]" None] by (auto simp: key_list_def)
  have wf: "ptr_wf (child_ptr b i (n_level h))" if "i < n" for i
    using child_in_block [OF that n(2)] b by (simp add: ptr_wf_def child_ptr_def)
  have "all_zero (drop (64 + n * 65) b) \<Longrightarrow> ok \<Longrightarrow> inner_holds b (n_level h) cs"
    using ok(2) n wf child_eq [OF b _ n(2) inner]
    by (auto simp: inner_holds_def cs_def comp_def child_ptr_def)
  moreover have "check_body b h = Some (ok \<and> all_zero (drop (64 + n * 65) b))"
    using inner n ok(1) b by (simp add: check_body_def ncfs_sizes n_def [symmetric] access drop_eq_sub)
  moreover have "length cs = unat (n_count h)" by (simp add: cs_def n_def)
  ultimately show ?thesis by auto
qed

lemma check_body_total: "length b = 4096 \<Longrightarrow> \<exists>ok. check_body b h = Some ok"
  using check_body_leaf [of b h] check_body_inner [of b h] by blast

lemma check_node_total: "length b < 2 ^ 64 \<Longrightarrow> check_node b p fsid owner \<noteq> None"
proof -
  assume "length b < 2 ^ 64"
  moreover obtain r where "node_header_read b = Some r" using node_header_read_total [of b] by auto
  moreover have "\<exists>ok. check_body b h = Some ok" if "r = Some h" for h
    using that node_header_read_length [of b h] check_body_total [of b h] calculation(2) by simp
  ultimately show ?thesis by (auto simp: check_node_def blake3_hash_b3 split: option.splits)
qed

lemma check_node_Inr:
  assumes "check_node b p fsid owner = Some (Inr h)" "ptr_wf p" "length b < 2 ^ 64"
  shows "length b = 4096" "b3 b = p_hash p" "n_level h = p_level p" "n_level h < MAX_LEVEL"
    "n_block h = p_block p" "n_gen h = p_gen p" "n_fsid h = fsid" "(n_owner h = 0) = (owner = 0)"
    "check_body b h = Some True"
  using assms
  by (auto simp: check_node_def blake3_hash_b3 ct_eq_iff ptr_wf_def node_header_read_length
      split: if_splits option.splits bind_splits)

lemma check_node_leaf:
  assumes "check_node b p fsid owner = Some (Inr h)" "ptr_wf p" "length b < 2 ^ 64" "n_level h = 0"
  obtains items where "length items = unat (n_count h)" "leaf_holds b items"
  using check_body_leaf [OF check_node_Inr(1) [OF assms(1-3)] assms(4)] check_node_Inr(9) [OF assms(1-3)]
  by auto

lemma check_node_inner:
  assumes "check_node b p fsid owner = Some (Inr h)" "ptr_wf p" "length b < 2 ^ 64" "n_level h \<noteq> 0"
  obtains cs where "length cs = unat (n_count h)" "inner_holds b (n_level h) cs"
  using check_body_inner [OF check_node_Inr(1) [OF assms(1-3)] assms(4)] check_node_Inr(9) [OF assms(1-3)]
  by auto

end
