(* ===== verification/Ncfs_Items.thy ===== *)
theory Ncfs_Items
  imports Ncfs_Format
begin

text \<open>
  What the NCFS format promises: the key successor, node headers and child entries, the canonical
  item formats (inodes, extents, subvolumes, directory entries), and the format's properties.  Each
  format has its bytes written out as a concatenation of fields; the encoder of
  \<^verbatim>\<open>ncfs/format.rs\<close> is shown to write them and the decoder to accept nothing else.
\<close>

lemmas tail_reads = rd16_sub rd32_sub rd64_sub hash32_sub idx_sub slice_tail

section \<open>Keys\<close>

lemma word_less_Suc:
  fixes x y :: "'a::len word"
  assumes "x \<noteq> - 1"
  shows "x < x + 1" "x < y \<Longrightarrow> x + 1 \<le> y"
proof -
  have "unat x \<noteq> 2 ^ LENGTH('a) - 1"
    using assms by (metis unat_minus_one_word_max unsigned_word_eqI)
  moreover have "unat x < 2 ^ LENGTH('a)" by simp
  ultimately have "unat x + 1 < 2 ^ LENGTH('a)" by linarith
  then have "unat (x + 1) = unat x + 1" by (simp add: unat_word_ariths)
  then show "x < x + 1" "x < y \<Longrightarrow> x + 1 \<le> y" by (simp_all add: word_less_nat_alt word_le_nat_alt)
qed

lemma checked_inc_None: "checked_inc x = None \<Longrightarrow> y \<le> x" for x :: "'a::len word"
  by (auto simp: checked_inc_def split: if_splits)

lemma checked_inc_Some:
  "checked_inc x = Some x' \<Longrightarrow> x < x'"
  "checked_inc x = Some x' \<Longrightarrow> x < y \<Longrightarrow> x' \<le> y" for x :: "'a::len word"
  using word_less_Suc by (auto simp: checked_inc_def split: if_splits)

lemma successor_Some:
  assumes "successor k = Some k'"
  shows "k < k'" "k < x \<Longrightarrow> k' \<le> x"
proof -
  show "k < k'"
    using assms
    by (cases k) (auto simp: successor_def less_key_def split: option.splits dest: checked_inc_Some(1))
  assume "k < x"
  then show "k' \<le> x"
    using assms
    by (cases k; cases x) (auto simp: successor_def less_key_def less_eq_key_def le_less [symmetric] word_gt_0
        split: option.splits dest: leD [OF checked_inc_None] checked_inc_Some(2))
qed

lemma successor_None:
  assumes "successor k = None"
  shows "x \<le> k"
  using assms
  by (cases k; cases x) (auto simp: successor_def less_eq_key_def checked_inc_def word_order.not_eq_extremum [symmetric]
      split: option.splits if_splits)

section \<open>Node headers and children\<close>

definition header_bytes :: "node_header \<Rightarrow> bytes" where
  "header_bytes h = NODE_MAGIC @ [n_level h] @ [0] @ le16 (n_count h) @ le64 (n_block h) @
     le64 (n_gen h) @ le64 (n_owner h) @ n_fsid h @ zeros 16"

lemma length_NODE_MAGIC [simp]: "length NODE_MAGIC = 4"
  by (simp add: NODE_MAGIC_def)

lemma node_header_write_bytes:
  assumes "length b = 4096" "length (n_fsid h) = 16"
  shows "node_header_write h b = Some (splice b 0 (header_bytes h))"
  using assms by (simp add: node_header_write_def header_bytes_def NODE_HEADER_def wr16_splice wr64_splice access splice_splice_adjacent)

lemma node_header_read_bytes:
  assumes "length b = 4032" "length (n_fsid h) = 16"
  shows "node_header_read (header_bytes h @ b) = Some (Some h)"
  using assms by (simp add: node_header_read_def header_bytes_def ncfs_sizes layout take_eq_sub)


lemma child_write_read:
  assumes "length b = 4096" "i < 62" "ptr_wf p" "level \<noteq> 0"
  shows "\<exists>b'. write_child b i k p = Some b' \<and> length b' = 4096 \<and> child b' i level = Some (k, p \<lparr> p_level := level - 1 \<rparr>)"
proof -
  define at where "at = 64 + i * 65"
  define e where "e = key_bytes k @ le64 (p_block p) @ le64 (p_gen p) @ p_hash p"
  have at: "at + 65 \<le> 4096" "NODE_HEADER + i * CHILD_ENTRY = at" using assms(2) by (simp_all add: at_def ncfs_sizes)
  have e: "length e = 65" using assms(3) by (simp add: e_def ptr_wf_def)
  have "write_child b i k p = Some (splice b at e)"
    using assms(1,3) at(1) unfolding write_child_def at(2)
    by (simp add: KEY_LEN_def key_write_splice wr64_splice access splice_splice_adjacent e_def ptr_wf_def)
  moreover have "child (splice b at e) i level = Some (k, p \<lparr> p_level := level - 1 \<rparr>)"
  proof -
    have sub: "sub (splice b at e) (j + at) n = sub e j n" if "j + n \<le> 65" for j n
      using that assms(1) at(1) e unfolding splice_def sub_def by (simp add: min_def)
    show ?thesis
      using assms(1,3,4) at(1) e sub [of 0 17] unfolding child_def at(2)
      by (simp add: KEY_LEN_def layout sub add.commute [of at]) (simp add: e_def layout ptr_wf_def)
  qed
  ultimately show ?thesis using assms(1) at(1) e by simp
qed

section \<open>Extents\<close>

definition extent_ok :: "extent \<Rightarrow> bool" where
  "extent_ok e \<longleftrightarrow> 0 < extent_len e \<and> unat (extent_len e) \<le> WINDOW \<and>
     (case e of
        Inline cp len data \<Rightarrow> length data \<le> INLINE_MAX \<and> (cp = NoCompression \<longrightarrow> length data = unat len)
      | Regular r \<Rightarrow> length (r_hash r) = 32 \<and> 0 < r_blocks r \<and> unat (r_blocks r) \<le> WINDOW_BLOCKS \<and>
          unat (r_stored r) \<le> unat (r_blocks r) * BLOCK \<and> (unat (r_blocks r) - 1) * BLOCK < unat (r_stored r) \<and>
          (r_compression r = NoCompression \<longrightarrow> r_stored r = r_len r))"

fun extent_bytes :: "extent \<Rightarrow> bytes" where
  "extent_bytes (Inline cp len data) = [0] @ [compression_u8 cp] @ le16 0 @ le32 len @ data"
| "extent_bytes (Regular r) = [1] @ [compression_u8 (r_compression r)] @ le16 0 @ le32 (r_len r) @
     le64 (r_block r) @ le32 (r_blocks r) @ le32 (r_stored r) @ le64 (r_birth r) @ r_hash r"

lemma compression_round_trip [simp]: "compression_from_u8 (compression_u8 c) = Some c"
  by (cases c) (simp_all add: compression_from_u8_def)

lemma compression_from_u8_Some: "compression_from_u8 v = Some c \<Longrightarrow> compression_u8 c = v"
  by (auto simp: compression_from_u8_def split: if_splits)

lemma le16_0: "le16 0 = zeros 2"
  by (simp add: le16_def zeros_def numeral_2_eq_2)

lemma region_encode_bytes:
  "length (r_hash r) = 32 \<Longrightarrow> region_encode r = Some (extent_bytes (Regular r))"
  by (simp add: region_encode_def REGION_LEN_def EXTENT_HEADER_def layout le16_0)

lemma encode_inline_bytes:
  assumes "8 + length data \<le> length out"
  shows "map_option (\<lambda>(out, n). take n out) (encode_inline cp len data out) = Some (extent_bytes (Inline cp len data))"
proof -
  have "out \<noteq> []" using assms by auto
  then have "encode_inline cp len data out = Some (splice out 0 (extent_bytes (Inline cp len data)), 8 + length data)"
    using assms by (simp add: encode_inline_def EXTENT_HEADER_def wr16_splice wr32_splice access splice_splice_adjacent)
  moreover have "length (extent_bytes (Inline cp len data)) = 8 + length data" by simp
  ultimately show ?thesis by (simp only: option.map prod.case take_splice_0)
qed

lemma extent_decode_inline:
  "extent_ok (Inline cp len data) \<Longrightarrow>
     extent_decode (extent_bytes (Inline cp len data)) = Some (Some (Inline cp len data))"
  by (auto simp: extent_decode_def EXTENT_HEADER_def layout extent_ok_def word_gt_0)

lemma extent_decode_regular:
  "extent_ok (Regular r) \<Longrightarrow> extent_decode (extent_bytes (Regular r)) = Some (Some (Regular r))"
  by (auto simp: extent_decode_def EXTENT_HEADER_def REGION_LEN_def layout extent_ok_def word_gt_0)


lemma sub_le16_0: "of_le16 (sub b i 2) = 0 \<Longrightarrow> i + 2 \<le> length b \<Longrightarrow> sub b i 2 = le16 0"
  by (metis le16_of_le16 length_sub)

lemma extent_decode_Some:
  assumes "extent_decode b = Some (Some e)"
  shows "extent_ok e \<and> b = extent_bytes e"
proof -
  have len: "8 \<le> length b"
    using assms by (simp add: extent_decode_def EXTENT_HEADER_def split: if_splits)
  then have ne: "b \<noteq> []" by auto
  note dec = assms [unfolded extent_decode_def EXTENT_HEADER_def REGION_LEN_def]
  have head: "of_le16 (sub b 2 2) = 0"
    using dec len ne by (auto simp: tail_reads split: if_splits)
  then have z: "sub b 2 2 = le16 0" using len by (simp add: sub_le16_0)
  show ?thesis
  proof (cases e)
    case (Inline cp l data)
    then have "compression_u8 cp = hd (sub b 1 1)" "hd (sub b 0 1) = 0" "l = of_le32 (sub b 4 4)" "data = drop 8 b"
        "extent_ok e"
      using dec len ne
      by (auto simp: tail_reads extent_ok_def word_gt_0 not_less split: if_splits option.splits dest!: compression_from_u8_Some)
    moreover from this have "extent_bytes e = concat (chop_from 0 [1, 1, 2, 4] b) @ drop 8 b"
      using Inline len ne z singleton_hd_sub [of 0 b] singleton_hd_sub [of 1 b]
      by simp (simp add: eval_nat_numeral)
    ultimately show ?thesis unfolding concat_chop_from by (simp add: sub_def)
  next
    case (Regular r)
    then have b: "length b = 64"
      using dec len ne by (auto simp: tail_reads split: if_splits option.splits)
    have "compression_u8 (r_compression r) = hd (sub b 1 1)" "hd (sub b 0 1) = 1" "extent_ok e"
        "r_len r = of_le32 (sub b 4 4)" "r_block r = of_le64 (sub b 8 8)" "r_blocks r = of_le32 (sub b 16 4)"
        "r_stored r = of_le32 (sub b 20 4)" "r_birth r = of_le64 (sub b 24 8)" "r_hash r = sub b 32 32"
      using dec b ne Regular
      by (auto simp: tail_reads slice_sub extent_ok_def word_gt_0 not_less Let_def
          split: if_splits option.splits dest!: compression_from_u8_Some)
    moreover from this have "extent_bytes e = concat (chop_from 0 [1, 1, 2, 4, 8, 4, 4, 8, 32] b)"
      using Regular b ne z singleton_hd_sub [of 0 b] singleton_hd_sub [of 1 b]
      by simp (simp add: eval_nat_numeral)
    moreover have "concat (chop_from 0 [1, 1, 2, 4, 8, 4, 4, 8, 32] b) = b"
      using b by (intro eq_concat_fields) simp
    ultimately show ?thesis by simp
  qed
qed

lemma extent_decode_total: "extent_decode b \<noteq> None"
proof (cases "b = []")
  case False
  then show ?thesis
    by (simp add: extent_decode_def EXTENT_HEADER_def REGION_LEN_def tail_reads Let_def split: option.splits)
qed (simp add: extent_decode_def EXTENT_HEADER_def)


section \<open>Subvolume items\<close>

definition root_ok :: "root_item \<Rightarrow> bool" where
  "root_ok r \<longleftrightarrow> ptr_wf (ri_root r) \<and> p_level (ri_root r) < MAX_LEVEL \<and> ROOT_INO < next_ino r \<and>
     name_len r \<noteq> 0 \<and> length (ri_name r) = NAME_MAX \<and> all_zero (drop (unat (name_len r)) (ri_name r))"

definition root_bytes_of :: "root_item \<Rightarrow> bytes" where
  "root_bytes_of r = ptr_bytes (ri_root r) @ zeros 7 @ le64 (ri_generation r) @ le64 (ri_created r) @
     le64 (ri_flags r) @ le64 (ri_parent r) @ le64 (next_ino r) @ zeros 8 @ [name_len r] @
     take (unat (name_len r)) (ri_name r)"

lemma unat_u8_le: "unat (x :: u8) \<le> 255"
  using unsigned_less [where 'b = 8 and 'a = nat, of x] by simp

lemma root_encode_bytes:
  assumes "ptr_wf (ri_root r)" "length (ri_name r) = NAME_MAX" "105 + unat (name_len r) \<le> length out"
  shows "map_option (\<lambda>(out, n). take n out) (root_encode r out) = Some (root_bytes_of r)"
proof -
  define n where "n = unat (name_len r)"
  have n: "n \<le> 255" unfolding n_def by (rule unat_u8_le)
  have "fill_slice out 0 105 0 = Some (zeros 105 @ drop 105 out)"
    using assms(3) by (simp add: fill_slice_splice splice_def)
  then have "root_encode r out = Some (root_bytes_of r @ drop (105 + n) out, 105 + n)"
    using assms n
    by (simp add: root_encode_def ROOT_FIXED_def NAME_MAX_def n_def [symmetric] layout Let_def root_bytes_of_def)
      (simp add: splice_def sub_def add.commute)
  moreover have "length (root_bytes_of r) = 105 + n"
    using assms n by (simp add: root_bytes_of_def NAME_MAX_def n_def [symmetric])
  ultimately show ?thesis by simp
qed


lemma root_decode_bytes:
  assumes "root_ok r"
  shows "root_decode (root_bytes_of r) = Some (Some r)"
proof -
  define n where "n = unat (name_len r)"
  have n: "n \<le> 255" "n \<noteq> 0" "word_of_nat n = name_len r"
    using unat_u8_le [of "name_len r"] assms by (simp_all add: n_def root_ok_def unat_eq_0)
  have "take n (ri_name r) @ drop n (zeros 255) = ri_name r"
  proof -
    have "drop n (ri_name r) = zeros (255 - n)"
      using assms by (simp add: root_ok_def n_def NAME_MAX_def all_zero_iff)
    then show ?thesis using append_take_drop_id [of n "ri_name r"] by (simp add: zeros_def)
  qed
  then have name: "copy_slice (zeros 255) 0 n (take n (ri_name r)) = Some (ri_name r)"
    using n assms by (simp add: copy_slice_def root_ok_def NAME_MAX_def)
  have drop: "drop 105 (root_bytes_of r) = take n (ri_name r)"
    using assms by (simp add: root_bytes_of_def root_ok_def n_def)
  have "length (root_bytes_of r) = 105 + n"
    using assms n(1) by (simp add: root_bytes_of_def root_ok_def NAME_MAX_def n_def [symmetric])
  moreover have "sub (root_bytes_of r) 49 7 = zeros 7" "sub (root_bytes_of r) 96 8 = zeros 8"
      "sub (root_bytes_of r) 104 (Suc 0) = [name_len r]" "sub (root_bytes_of r) 0 49 = ptr_bytes (ri_root r)"
      "sub (root_bytes_of r) 56 8 = le64 (ri_generation r)" "sub (root_bytes_of r) 64 8 = le64 (ri_created r)"
      "sub (root_bytes_of r) 72 8 = le64 (ri_flags r)" "sub (root_bytes_of r) 80 8 = le64 (ri_parent r)"
      "sub (root_bytes_of r) 88 8 = le64 (next_ino r)"
    using assms by (simp_all add: root_bytes_of_def root_ok_def layout)
  ultimately show ?thesis
    using assms n
    by (auto simp: root_decode_def ROOT_FIXED_def NAME_MAX_def rd64_sub ptr_read_sub idx_sub slice_sub drop name
        root_ok_def Let_def n_def [symmetric])
qed

lemma root_decode_Some:
  assumes "root_decode b = Some (Some r)"
  shows "root_ok r \<and> b = root_bytes_of r"
proof -
  define n where "n = unat (hd (sub b 104 (Suc 0)))"
  have len: "105 \<le> length b"
    using assms by (simp add: root_decode_def ROOT_FIXED_def split: if_splits)
  have n: "length b = 105 + n" "n \<noteq> 0" "n \<le> 255" "word_of_nat n = hd (sub b 104 (Suc 0))"
    using assms len unat_u8_le [of "hd (sub b 104 (Suc 0))"]
    by (auto simp: root_decode_def ROOT_FIXED_def idx_sub slice_sub n_def Let_def split: if_splits)
  have name: "copy_slice (zeros 255) 0 n (drop 105 b) = Some (drop 105 b @ zeros (255 - n))"
    using n by (simp add: copy_slice_def zeros_def)
  have z: "sub b 49 7 = zeros 7" "sub b 96 8 = zeros 8"
    using assms len by (auto simp: root_decode_def ROOT_FIXED_def idx_sub slice_sub Let_def all_zero_iff split: if_splits)
  have r: "r = \<lparr> ri_root = of_ptr_bytes (sub b 0 49), ri_generation = of_le64 (sub b 56 8),
      ri_created = of_le64 (sub b 64 8), ri_flags = of_le64 (sub b 72 8), ri_parent = of_le64 (sub b 80 8),
      next_ino = of_le64 (sub b 88 8), name_len = hd (sub b 104 (Suc 0)), ri_name = drop 105 b @ zeros (255 - n) \<rparr>"
      "p_level (ri_root r) < MAX_LEVEL" "ROOT_INO < next_ino r"
    using assms len n z name
    by (auto simp: root_decode_def ROOT_FIXED_def NAME_MAX_def idx_sub slice_sub rd64_sub ptr_read_sub Let_def
        n_def [symmetric] not_le split: if_splits)
  have "hd (sub b 104 (Suc 0)) \<noteq> 0" using n(2) n_def by auto
  then have "root_ok r" using r n by (simp add: root_ok_def NAME_MAX_def n_def [symmetric])
  moreover have "root_bytes_of r = concat (chop_from 0 [49, 7, 8, 8, 8, 8, 8, 8, 1, n] b)"
    using n z unfolding r(1) root_bytes_of_def
    by (simp add: n_def [symmetric] singleton_hd_sub drop_eq_sub [of n])
  moreover have "concat (chop_from 0 [49, 7, 8, 8, 8, 8, 8, 8, 1, n] b) = b"
    using n by (intro eq_concat_fields) simp
  ultimately show ?thesis by simp
qed

lemma root_decode_total: "root_decode b \<noteq> None"
proof (cases "length b < 105")
  case False
  then have len: "105 \<le> length b" by simp
  define n where "n = unat (hd (sub b 104 (Suc 0)))"
  have "n \<le> 255" unfolding n_def by (rule unat_u8_le)
  then have "length b = 105 + n \<Longrightarrow> \<exists>nm. copy_slice (zeros 255) 0 n (drop 105 b) = Some nm"
    by (simp add: copy_slice_def)
  then show ?thesis using len
    by (auto simp: root_decode_def ROOT_FIXED_def NAME_MAX_def idx_sub slice_sub rd64_sub ptr_read_sub Let_def
        n_def [symmetric])
qed (simp add: root_decode_def ROOT_FIXED_def)


section \<open>Directory items\<close>

definition dirent_bytes :: "dirent \<Rightarrow> bytes" where
  "dirent_bytes d = le64 (d_child d) @ le64 (d_seq d) @ [d_dtype d] @ [word_of_nat (length (d_name d))] @ d_name d"

lemma push_dirent_bytes: "push_dirent out d = Some (out @ dirent_bytes d)"
  by (simp add: push_dirent_def DIRENT_FIXED_def layout dirent_bytes_def)

lemma valid_name_length: "valid_name name \<Longrightarrow> 0 < length name \<and> length name \<le> 255"
  by (simp add: valid_name_def NAME_MAX_def)

declare dirents_from.simps [simp del]

lemma sub_shift: "at = length pre \<Longrightarrow> sub (pre @ b) (at + i) n = sub b i n"
  by (simp add: sub_def)

lemma dirents_from_step:
  assumes "valid_name (d_name d)"
  shows "dirents_from (pre @ dirent_bytes d @ post) (length pre) = do {
    ds \<leftarrow> dirents_from (pre @ dirent_bytes d @ post) (length pre + length (dirent_bytes d));
    Some (Some d # ds) }"
proof -
  define n where "n = length (d_name d)"
  have n: "n \<le> 255" "0 < n" using valid_name_length [OF assms] by (simp_all add: n_def)
  then have u: "unat (word_of_nat n :: u8) = n" by (simp add: unat_of_nat)
  have len: "length (dirent_bytes d) = 18 + n" by (simp add: dirent_bytes_def n_def)
  have subs: "sub (dirent_bytes d @ post) 0 8 = le64 (d_child d)" "sub (dirent_bytes d @ post) 8 8 = le64 (d_seq d)"
      "sub (dirent_bytes d @ post) 16 (Suc 0) = [d_dtype d]" "sub (dirent_bytes d @ post) 17 (Suc 0) = [word_of_nat n]"
      "sub (dirent_bytes d @ post) 18 n = d_name d"
    by (simp_all add: dirent_bytes_def n_def layout)
  have reads: "idx (pre @ dirent_bytes d @ post) (length pre + 17) = Some (word_of_nat n)"
      "rd64 (pre @ dirent_bytes d @ post) (length pre) = Some (d_child d)"
      "rd64 (pre @ dirent_bytes d @ post) (length pre + 8) = Some (d_seq d)"
      "idx (pre @ dirent_bytes d @ post) (length pre + 16) = Some (d_dtype d)"
      "slice (pre @ dirent_bytes d @ post) (length pre + 18) (length pre + 18 + n) = Some (d_name d)"
    using len subs sub_shift [OF refl, of pre "dirent_bytes d @ post" 0]
    by (simp_all add: idx_sub rd64_sub slice_sub sub_shift)
  have eta: "\<lparr> d_child = d_child d, d_seq = d_seq d, d_dtype = d_dtype d, d_name = d_name d \<rparr> = d"
    by (cases d) simp
  show ?thesis
    using assms n len
    by (subst dirents_from.simps) (simp add: eta DIRENT_FIXED_def reads u Let_def add.assoc [symmetric])
qed

lemma dirents_from_bytes:
  "list_all (\<lambda>d. valid_name (d_name d)) ds \<Longrightarrow>
    dirents_from (pre @ concat (map dirent_bytes ds)) (length pre) = Some (map Some ds)"
proof (induction ds arbitrary: pre)
  case Nil
  then show ?case by (simp add: dirents_from.simps)
next
  case (Cons d ds)
  with Cons.IH [of "pre @ dirent_bytes d"] show ?case
    by (simp add: dirents_from_step)
qed

lemma dirents_from_Some:
  "dirents_from b at = Some (map Some ds) \<Longrightarrow> at \<le> length b \<Longrightarrow>
    list_all (\<lambda>d. valid_name (d_name d)) ds \<and> drop at b = concat (map dirent_bytes ds)"
proof (induction "length b - at" arbitrary: at ds rule: less_induct)
  case less
  show ?case
  proof (cases "at = length b")
    case True
    then show ?thesis using less.prems by (simp add: dirents_from.simps)
  next
    case False
    define n where "n = unat (hd (sub b (at + 17) (Suc 0)))"
    define d where "d = \<lparr> d_child = of_le64 (sub b at 8), d_seq = of_le64 (sub b (at + 8) 8),
      d_dtype = hd (sub b (at + 16) (Suc 0)), d_name = sub b (at + 18) n \<rparr>"
    have len: "at + 18 \<le> length b"
      using False less.prems(1) by (subst (asm) dirents_from.simps) (auto simp: DIRENT_FIXED_def split: if_splits)
    have fits: "at + 18 + n \<le> length b"
      using False less.prems(1) len
      by (subst (asm) dirents_from.simps) (auto simp: DIRENT_FIXED_def idx_sub n_def Let_def split: if_splits)
    obtain ds' where ds': "ds = d # ds'" "valid_name (d_name d)" "dirents_from b (at + 18 + n) = Some (map Some ds')"
      using False less.prems(1) len fits
      by (subst (asm) dirents_from.simps)
        (auto simp: DIRENT_FIXED_def idx_sub rd64_sub slice_sub n_def [symmetric] d_def Let_def split: if_splits bind_splits)
    have "list_all (\<lambda>d. valid_name (d_name d)) ds' \<and> drop (at + 18 + n) b = concat (map dirent_bytes ds')"
      using fits ds'(3) by (intro less.hyps) simp_all
    moreover have "drop at b = dirent_bytes d @ drop (at + 18 + n) b"
    proof -
      have "[word_of_nat n] = sub b (at + 17) (Suc 0)" "[hd (sub b (at + 16) (Suc 0))] = sub b (at + 16) (Suc 0)"
        using len singleton_hd_sub [of "at + 17" b] singleton_hd_sub [of "at + 16" b] by (simp_all add: n_def)
      moreover have "length (sub b (at + 18) n) = n" using fits by simp
      ultimately have "concat (chop_from at [8, 8, 1, 1, n] b) = dirent_bytes d"
        using len by (simp only: dirent_bytes_def d_def dirent.simps) (simp add: add.commute [of at])
      then have "take (18 + n) (drop at b) = dirent_bytes d" unfolding concat_chop_from sub_def by simp
      then show ?thesis using append_take_drop_id [of "18 + n" "drop at b"] by (simp add: ac_simps)
    qed
    ultimately show ?thesis using ds' by simp
  qed
qed


lemma dirents_from_total: "at \<le> length b \<Longrightarrow> dirents_from b at \<noteq> None"
proof (induction "length b - at" arbitrary: at rule: less_induct)
  case less
  define n where "n = unat (hd (sub b (at + 17) (Suc 0)))"
  have "at + 18 + n \<le> length b \<Longrightarrow> \<exists>ds. dirents_from b (at + 18 + n) = Some ds"
    using less.hyps [of "at + 18 + n"] by auto
  then show ?case
    by (subst dirents_from.simps)
      (auto simp: DIRENT_FIXED_def idx_sub rd64_sub slice_sub n_def [symmetric] Let_def)
qed

text \<open>A directory item built record by record.\<close>

primrec push_dirents :: "bytes \<Rightarrow> dirent list \<Rightarrow> bytes option" where
  "push_dirents out [] = Some out"
| "push_dirents out (d # ds) = do { out \<leftarrow> push_dirent out d; push_dirents out ds }"

lemma push_dirents_bytes: "push_dirents out ds = Some (out @ concat (map dirent_bytes ds))"
  by (induction ds arbitrary: out) (simp_all add: push_dirent_bytes)

lemma dirents_iff:
  "dirents b = Some (map Some ds) \<longleftrightarrow>
     list_all (\<lambda>d. valid_name (d_name d)) ds \<and> push_dirents [] ds = Some b"
  using dirents_from_Some [of b 0 ds] dirents_from_bytes [of ds "[]"]
  by (auto simp: dirents_def push_dirents_bytes)

definition dirindex_bytes :: "u64 \<Rightarrow> u8 \<Rightarrow> bytes \<Rightarrow> bytes" where
  "dirindex_bytes ch dt name = le64 ch @ [dt] @ [word_of_nat (length name)] @ name"

lemma encode_dirindex_bytes: "encode_dirindex ch dt name = Some (dirindex_bytes ch dt name)"
  by (simp add: encode_dirindex_def dirindex_bytes_def layout)

lemma dirindex_decode_bytes:
  assumes "valid_name name"
  shows "dirindex (dirindex_bytes ch dt name) = Some (Some (ch, dt, name))"
proof -
  have "length name \<le> 255" using valid_name_length [OF assms] by simp
  then have "unat (word_of_nat (length name) :: u8) = length name" by (simp add: unat_of_nat)
  with assms show ?thesis by (simp add: dirindex_def dirindex_bytes_def layout)
qed

lemma dirindex_Some:
  assumes "dirindex b = Some (Some (ch, dt, name))"
  shows "valid_name name \<and> b = dirindex_bytes ch dt name"
proof -
  have len: "10 \<le> length b" using assms by (simp add: dirindex_def split: if_splits)
  then have "valid_name name" "name = drop 10 b" "ch = of_le64 (sub b 0 8)" "dt = hd (sub b 8 (Suc 0))"
      "length b = 10 + unat (hd (sub b 9 (Suc 0)))"
    using assms by (auto simp: dirindex_def tail_reads slice_def split: if_splits)
  moreover from this have "word_of_nat (length name) = hd (sub b 9 (Suc 0))" by simp
  ultimately have "valid_name name" "dirindex_bytes ch dt name = concat (chop_from 0 [8, 1, 1] b) @ drop 10 b"
    using len singleton_hd_sub [of 8 b] singleton_hd_sub [of 9 b] by (simp_all add: dirindex_bytes_def)
  then show ?thesis unfolding concat_chop_from by (simp add: sub_def)
qed

lemma dirindex_total: "dirindex b \<noteq> None"
  by (simp add: dirindex_def rd64_sub idx_sub slice_def)

section \<open>Properties\<close>

text \<open>
  C20: The superblock decoder never panics, whatever it is given, and accepts exactly the blocks the
  encoder writes for superblocks that pass its checks (known incompatible features, a root inside
  the volume, a sane level, signature area and subvolume ids), returning that very superblock; a
  superblock written with an unknown incompatible feature is refused as unsupported.
\<close>

theorem superblock_canonical:
  "sb_decode b \<noteq> None \<and>
   (sb_decode b = Some (Inr s) \<longleftrightarrow> sb_wf s \<and> sb_ok s \<and> sb_encode s = Some b) \<and>
   (sb_wf s \<and> incompat s AND NOT INCOMPAT_KNOWN \<noteq> 0 \<and> sb_encode s = Some b \<longrightarrow>
      sb_decode b = Some (Inl Unsupported))"
  using sb_decode_total [of b] sb_decode_Inr [of b s] sb_decode_bytes [of s]
  by (auto simp: sb_encode_bytes sb_ok_def)


text \<open>A superblock to try the format on.\<close>

definition demo_sb :: superblock where
  "demo_sb = \<lparr> incompat = 1, ro_compat = 0, compat = 0, sb_flags = 0, sb_fsid = replicate 16 7,
     label = replicate 64 0, sb_generation = 9, total_blocks = 1024, sb_created = 1, committed = 2,
     root_tree = \<lparr> p_block = 40, p_gen = 9, p_hash = replicate 32 1, p_level = 0 \<rparr>,
     next_subvol = 2, default_subvol = 1, used_blocks = 3, sig_blocks = 0 \<rparr>"

lemma demo_sb_ok: "sb_wf demo_sb" "sb_ok demo_sb"
  by (simp_all add: demo_sb_def sb_wf_def sb_ok_def ptr_wf_def INCOMPAT_KNOWN_def INCOMPAT_LZ4_def INCOMPAT_ZSTD_def
        MIN_BLOCKS_def FIRST_FREE_def SIG_FIRST_def SIG_BLOCKS_def MAX_LEVEL_def)

theorem superblock_canonical_witness:
  "\<exists>b. sb_encode demo_sb = Some b \<and> sb_decode b = Some (Inr demo_sb)"
  using superblock_canonical [of "sb_bytes demo_sb" demo_sb] demo_sb_ok by (simp add: sb_encode_bytes)

text \<open>
  C21: Checking a node never panics, and a node that passes it is the block its pointer names, with
  the pointer's BLAKE3, generation and level, of the same volume and class of tree.  A leaf is its
  header, the item headers, zeros, and the items' data packed from the end in item order (nothing
  overlaps, nothing is hidden), its keys strictly increasing and every item readable without a
  panic; an internal node has between 1 and 62 children one level down, again with strictly
  increasing keys and zeros after them.
\<close>

theorem checked_node_sound:
  assumes "length b < 2 ^ 64" "ptr_wf p"
  shows "check_node b p fsid owner \<noteq> None \<and>
    (check_node b p fsid owner = Some (Inr h) \<longrightarrow>
      length b = BLOCK \<and> blake3_hash b = Some (p_hash p) \<and> n_block h = p_block p \<and> n_gen h = p_gen p \<and>
      n_level h = p_level p \<and> n_level h < MAX_LEVEL \<and> n_fsid h = fsid \<and> (n_owner h = 0 \<longleftrightarrow> owner = 0) \<and>
      (if n_level h = 0
       then \<exists>items. length items = unat (n_count h) \<and> leaf_holds b items
       else \<exists>cs. length cs = unat (n_count h) \<and> inner_holds b (n_level h) cs))"
  using check_node_total [OF assms(1), of p fsid owner] check_node_Inr [OF _ assms(2,1), of fsid owner h]
    check_node_leaf [OF _ assms(2,1), of fsid owner h] check_node_inner [OF _ assms(2,1), of fsid owner h]
    blake3_hash_b3 [OF assms(1)]
  by (auto simp: BLOCK_def)


text \<open>A leaf of one item.\<close>

definition demo_header :: node_header where
  "demo_header = \<lparr> n_level = 0, n_count = 1, n_block = 40, n_gen = 9, n_owner = 1, n_fsid = replicate 16 7 \<rparr>"

definition demo_leaf :: bytes where
  "demo_leaf = header_bytes demo_header @ key_bytes (Key 1 1 0) @ le16 4091 @ le16 5 @ zeros 4006 @ [1, 2, 3, 4, 5]"

definition demo_ptr :: ptr where
  "demo_ptr = \<lparr> p_block = 40, p_gen = 9, p_hash = b3 demo_leaf, p_level = 0 \<rparr>"

lemma length_header_bytes [simp]: "length (n_fsid h) = 16 \<Longrightarrow> length (header_bytes h) = 64"
  by (simp add: header_bytes_def)

lemma demo_leaf_checks:
  "length demo_leaf = 4096" "check_node demo_leaf demo_ptr (replicate 16 7) 1 = Some (Inr demo_header)"
proof -
  have fs: "length (n_fsid demo_header) = 16" by (simp add: demo_header_def)
  show len: "length demo_leaf = 4096" by (simp add: demo_leaf_def fs)
  have hd: "node_header_read demo_leaf = Some (Some demo_header)"
    unfolding demo_leaf_def by (rule node_header_read_bytes) (simp_all add: fs)
  have "sub demo_leaf 64 17 = key_bytes (Key 1 1 0)" "sub demo_leaf 81 2 = le16 4091" "sub demo_leaf 83 2 = le16 5"
      "sub demo_leaf 85 4006 = zeros 4006"
    by (simp_all add: demo_leaf_def fs layout)
  then have "check_body demo_leaf demo_header = Some True"
    using len by (simp add: check_body_def demo_header_def ncfs_sizes layout not_above_def)
  then show "check_node demo_leaf demo_ptr (replicate 16 7) 1 = Some (Inr demo_header)"
    using len hd by (simp add: check_node_def hash_short demo_ptr_def ct_eq_iff)
      (simp add: demo_header_def MAX_LEVEL_def)
qed

theorem checked_node_sound_witness:
  "\<exists>items. length items = 1 \<and> leaf_holds demo_leaf items"
  using checked_node_sound [of demo_leaf demo_ptr "replicate 16 7" 1 demo_header] demo_leaf_checks
  by (simp add: ptr_wf_def demo_ptr_def demo_header_def)

text \<open>
  C22: The item formats are canonical: no decoder panics on any bytes, and each accepts exactly the
  bytes its encoder writes, for well-formed values (an extent's lengths and block count consistent,
  a subvolume with a name and a root below the level limit, valid names in directories), and
  returns the value that was written.
\<close>

theorem item_formats_canonical:
  "inode_decode b \<noteq> None \<and> extent_decode b \<noteq> None \<and> root_decode b \<noteq> None \<and> dirents b \<noteq> None \<and> dirindex b \<noteq> None \<and>
   (inode_decode b = Some (Some i) \<longleftrightarrow> inode_encode i = Some b) \<and>
   (extent_decode b = Some (Some (Regular r)) \<longleftrightarrow> extent_ok (Regular r) \<and> region_encode r = Some b) \<and>
   (extent_decode b = Some (Some (Inline cp len data)) \<longleftrightarrow> extent_ok (Inline cp len data) \<and>
      (\<forall>out. 8 + length data \<le> length out \<longrightarrow>
         map_option (\<lambda>(out, n). take n out) (encode_inline cp len data out) = Some b)) \<and>
   (root_decode b = Some (Some ri) \<longleftrightarrow> root_ok ri \<and>
      (\<forall>out. 105 + unat (name_len ri) \<le> length out \<longrightarrow>
         map_option (\<lambda>(out, n). take n out) (root_encode ri out) = Some b)) \<and>
   (dirents b = Some (map Some ds) \<longleftrightarrow>
      list_all (\<lambda>d. valid_name (d_name d)) ds \<and> push_dirents [] ds = Some b) \<and>
   (dirindex b = Some (Some (ch, dt, name)) \<longleftrightarrow> valid_name name \<and> encode_dirindex ch dt name = Some b)"
proof (intro conjI)
  show "dirents b \<noteq> None" unfolding dirents_def by (rule dirents_from_total) simp
  show "inode_decode b = Some (Some i) \<longleftrightarrow> inode_encode i = Some b"
    using inode_decode_Some inode_decode_bytes by (auto simp: inode_encode_bytes)
  show "extent_decode b = Some (Some (Regular r)) \<longleftrightarrow> extent_ok (Regular r) \<and> region_encode r = Some b"
  proof -
    have "extent_ok (Regular r) \<Longrightarrow> region_encode r = Some (extent_bytes (Regular r))"
      by (rule region_encode_bytes) (simp add: extent_ok_def)
    then show ?thesis
      using extent_decode_Some [of b "Regular r"] extent_decode_regular [of r] by (auto simp del: extent_bytes.simps)
  qed
  show "extent_decode b = Some (Some (Inline cp len data)) \<longleftrightarrow> extent_ok (Inline cp len data) \<and>
      (\<forall>out. 8 + length data \<le> length out \<longrightarrow>
         map_option (\<lambda>(out, n). take n out) (encode_inline cp len data out) = Some b)" (is "?d \<longleftrightarrow> ?ok \<and> ?enc")
  proof
    assume ?d
    then show "?ok \<and> ?enc" using extent_decode_Some encode_inline_bytes by metis
  next
    assume *: "?ok \<and> ?enc"
    then have "Some b = Some (extent_bytes (Inline cp len data))"
      using encode_inline_bytes [of data "zeros (8 + length data)" cp len] by (metis length_zeros order_refl)
    with * show ?d using extent_decode_inline by auto
  qed
  show "root_decode b = Some (Some ri) \<longleftrightarrow> root_ok ri \<and>
      (\<forall>out. 105 + unat (name_len ri) \<le> length out \<longrightarrow>
         map_option (\<lambda>(out, n). take n out) (root_encode ri out) = Some b)" (is "?d \<longleftrightarrow> ?ok \<and> ?enc")
  proof -
    have enc: "?ok \<Longrightarrow> 105 + unat (name_len ri) \<le> length out \<Longrightarrow>
        map_option (\<lambda>(out, n). take n out) (root_encode ri out) = Some (root_bytes_of ri)" for out
      by (rule root_encode_bytes) (simp_all add: root_ok_def)
    have "?ok \<Longrightarrow> ?enc \<Longrightarrow> b = root_bytes_of ri"
      using enc [of "zeros (105 + unat (name_len ri))"] by (metis length_zeros order_refl option.inject)
    then show ?thesis using root_decode_Some [of b ri] root_decode_bytes [of ri] enc by blast
  qed
  show "dirindex b = Some (Some (ch, dt, name)) \<longleftrightarrow> valid_name name \<and> encode_dirindex ch dt name = Some b"
    using dirindex_Some dirindex_decode_bytes by (auto simp: encode_dirindex_bytes)
qed (simp_all only: inode_decode_total extent_decode_total root_decode_total dirindex_total dirents_iff not_False_eq_True)

theorem item_formats_canonical_witness:
  "dirents (dirent_bytes \<lparr> d_child = 7, d_seq = 2, d_dtype = 8, d_name = [0x61] \<rparr>)
     = Some [Some \<lparr> d_child = 7, d_seq = 2, d_dtype = 8, d_name = [0x61] \<rparr>]"
  using item_formats_canonical [where b = "dirent_bytes \<lparr> d_child = 7, d_seq = 2, d_dtype = 8, d_name = [0x61] \<rparr>"
      and ds = "[\<lparr> d_child = 7, d_seq = 2, d_dtype = 8, d_name = [0x61] \<rparr>]"]
  by (simp add: push_dirents_bytes valid_name_def NAME_MAX_def)

end
