(* ===== verification/Ncfs_Read.thy ===== *)
theory Ncfs_Read
  imports Ncfs_Items
begin

text \<open>
  Reading an NCFS volume, \<^verbatim>\<open>src/crates/nanochrono-core/src/ncfs/read.rs\<close>: devices, choosing the
  superblock, searching a tree, ranges and exact lookups, and the operations of an open volume.  A
  device is what it answers: its size and the bytes or the error of each read.  Functions return
  \<open>None\<close> for a panic, \<open>Some (Inl e)\<close> for an error and \<open>Some (Inr x)\<close> for a result; a search
  returns the leaf it leaves in the caller's block buffer.  The ZSTD decoder is a parameter:
  \<open>zd stored out\<close> is an error, or the count and the buffer it leaves.
\<close>

section \<open>Results\<close>

type_synonym 'a res = "(ncfs_error + 'a) option"

text \<open>The \<^verbatim>\<open>?\<close> operator.\<close>

definition rbind :: "'a res \<Rightarrow> ('a \<Rightarrow> 'b res) \<Rightarrow> 'b res" where
  "rbind m f = (case m of None \<Rightarrow> None | Some (Inl e) \<Rightarrow> Some (Inl e) | Some (Inr x) \<Rightarrow> f x)"

definition ok_or :: "'a option option \<Rightarrow> ncfs_error \<Rightarrow> 'a res" where
  "ok_or m e = map_option (\<lambda>x. case x of None \<Rightarrow> Inl e | Some y \<Rightarrow> Inr y) m"

lemma rbind_simps [simp]:
  "rbind None f = None" "rbind (Some (Inl e)) f = Some (Inl e)" "rbind (Some (Inr x)) f = f x"
  by (simp_all add: rbind_def)

lemma ok_or_simps [simp]:
  "ok_or None e = None" "ok_or (Some None) e = Some (Inl e)" "ok_or (Some (Some x)) e = Some (Inr x)"
  by (simp_all add: ok_or_def)

lemma rbind_cong [fundef_cong]:
  "m = m' \<Longrightarrow> (\<And>x. m' = Some (Inr x) \<Longrightarrow> f x = g x) \<Longrightarrow> rbind m f = rbind m' g"
  by (auto simp: rbind_def split: option.splits sum.splits)

lemma rbind_eq_Inr: "rbind m f = Some (Inr y) \<longleftrightarrow> (\<exists>x. m = Some (Inr x) \<and> f x = Some (Inr y))"
  by (auto simp: rbind_def split: option.splits sum.splits)

lemma rbind_not_None: "m \<noteq> None \<Longrightarrow> (\<And>x. m = Some (Inr x) \<Longrightarrow> f x \<noteq> None) \<Longrightarrow> rbind m f \<noteq> None"
  by (auto simp: rbind_def split: option.splits sum.splits)

section \<open>Devices\<close>

record block_dev =
  dev_blocks :: u64
  dev_read :: "u64 \<Rightarrow> nat \<Rightarrow> ncfs_error + bytes"

definition slice_dev_read :: "bytes \<Rightarrow> u64 \<Rightarrow> nat \<Rightarrow> ncfs_error + bytes" where
  "slice_dev_read data block n =
     (case checked_mul64 (unat block) BLOCK of
        None \<Rightarrow> Inl Io
      | Some start \<Rightarrow> (case slice data start (start + n) of None \<Rightarrow> Inl Io | Some bs \<Rightarrow> Inr bs))"

definition slice_dev :: "bytes \<Rightarrow> block_dev" where
  "slice_dev data = \<lparr> dev_blocks = word_of_nat (length data div BLOCK), dev_read = slice_dev_read data \<rparr>"

definition SUPER :: "u64 list" where "SUPER = [1, 2]"

fun read_slots :: "block_dev \<Rightarrow> u64 list \<Rightarrow> superblock option \<Rightarrow> superblock option option" where
  "read_slots dev [] best = Some best"
| "read_slots dev (slot # slots) best =
     (case dev_read dev slot BLOCK of
        Inl _ \<Rightarrow> read_slots dev slots best
      | Inr buf \<Rightarrow> (case sb_decode buf of
            None \<Rightarrow> None
          | Some (Inl _) \<Rightarrow> read_slots dev slots best
          | Some (Inr sb) \<Rightarrow>
              read_slots dev slots
                (if total_blocks sb \<le> dev_blocks dev
                    \<and> (case best of None \<Rightarrow> True | Some b \<Rightarrow> sb_generation sb > sb_generation b)
                 then Some sb else best)))"

definition read_superblock :: "block_dev \<Rightarrow> superblock res" where
  "read_superblock dev = ok_or (read_slots dev SUPER None) NoSuperblock"

definition probe :: "block_dev \<Rightarrow> superblock option" where
  "probe dev = (case read_superblock dev of Some (Inr sb) \<Rightarrow> Some sb | _ \<Rightarrow> None)"

section \<open>Searching a tree\<close>

definition read_node :: "block_dev \<Rightarrow> superblock \<Rightarrow> ptr \<Rightarrow> u64 \<Rightarrow> (node_header \<times> bytes) res" where
  "read_node dev sb p owner =
     (if p_block p < FIRST_FREE \<or> p_block p \<ge> total_blocks sb then Some (Inl (Corrupt (p_block p)))
      else case dev_read dev (p_block p) BLOCK of
        Inl e \<Rightarrow> Some (Inl e)
      | Inr buf \<Rightarrow> rbind (check_node buf p (sb_fsid sb) owner) (\<lambda>h. Some (Inr (h, buf))))"

record cursor =
  cur_index :: nat
  cur_count :: nat
  cur_next :: "key option"

text \<open>The first of a leaf's items \<open>is\<close> whose key is at least \<open>key\<close>.\<close>

fun first_at_least :: "bytes \<Rightarrow> nat list \<Rightarrow> key \<Rightarrow> nat \<Rightarrow> nat option" where
  "first_at_least buf [] key n = Some n"
| "first_at_least buf (i # is) key n = do {
     (k, _) \<leftarrow> leaf_item buf i;
     if k \<ge> key then Some i else first_at_least buf is key n }"

fun child_keys :: "bytes \<Rightarrow> u8 \<Rightarrow> nat list \<Rightarrow> key list option" where
  "child_keys buf level [] = Some []"
| "child_keys buf level (i # is) = do {
     (k, _) \<leftarrow> child buf i level;
     ks \<leftarrow> child_keys buf level is;
     Some (k # ks) }"

text \<open>The child to descend into, and the least key known to lie beyond it.\<close>

definition descend :: "bytes \<Rightarrow> node_header \<Rightarrow> key \<Rightarrow> key option \<Rightarrow> (ptr \<times> key option) option" where
  "descend buf h key nxt = do {
     let n = unat (n_count h);
     ks \<leftarrow> child_keys buf (n_level h) [0..<n];
     let i = child_index ks key;
     nxt \<leftarrow> (if i + 1 < n
             then do {
               (k, _) \<leftarrow> child buf (i + 1) (n_level h);
               Some (Some (case nxt of None \<Rightarrow> k | Some cur \<Rightarrow> min cur k)) }
             else Some nxt);
     (_, p) \<leftarrow> child buf i (n_level h);
     Some (p, nxt) }"

lemma child_level: "child b i level = Some (k, p) \<Longrightarrow> p_level p = level - 1 \<and> level \<noteq> 0"
  by (auto simp: child_def Let_def split: bind_splits if_splits)

lemma descend_level:
  assumes "descend buf h key nxt = Some (p, nxt')"
  shows "unat (p_level p) < unat (n_level h)"
proof -
  have "p_level p = n_level h - 1" "n_level h \<noteq> 0"
    using assms by (auto simp: descend_def Let_def split: bind_splits if_splits dest: child_level)
  then show ?thesis by (simp add: measure_unat)
qed

lemma read_node_level: "read_node dev sb p owner = Some (Inr (h, buf)) \<Longrightarrow> n_level h = p_level p"
  by (auto simp: read_node_def check_node_def rbind_eq_Inr split: if_splits sum.splits option.splits bind_splits)

function seek_from :: "block_dev \<Rightarrow> superblock \<Rightarrow> u64 \<Rightarrow> key \<Rightarrow> ptr \<Rightarrow> key option \<Rightarrow> (cursor \<times> bytes) res" where
  "seek_from dev sb owner key p nxt =
     rbind (read_node dev sb p owner) (\<lambda>(h, buf).
       if n_level h = 0
       then map_option (\<lambda>i. Inr (\<lparr> cur_index = i, cur_count = unat (n_count h), cur_next = nxt \<rparr>, buf))
              (first_at_least buf [0..<unat (n_count h)] key (unat (n_count h)))
       else case descend buf h key nxt of
         None \<Rightarrow> None
       | Some (q, nxt) \<Rightarrow>
           if p_level q + 1 \<noteq> n_level h then Some (Inl (Corrupt (p_block p)))
           else seek_from dev sb owner key q nxt)"
  by pat_completeness auto
termination
  by (relation "measure (\<lambda>(_, _, _, _, p, _). unat (p_level p))")
    (auto simp: read_node_level [symmetric] descend_level)

definition seek :: "block_dev \<Rightarrow> superblock \<Rightarrow> ptr \<Rightarrow> u64 \<Rightarrow> key \<Rightarrow> (cursor \<times> bytes) res" where
  "seek dev sb root owner key = seek_from dev sb owner key root None"

section \<open>Ranges and lookups\<close>

text \<open>
  A visitor takes an item and its own state, and says whether to go on (or fails, or panics).  The loop over
  the items of a leaf ends the range (\<open>Some r\<close>: its result) or falls through (\<open>None\<close>).
\<close>

type_synonym 's visitor = "key \<Rightarrow> bytes \<Rightarrow> 's \<Rightarrow> ((ncfs_error + bool) \<times> 's) option"

fun visit_items :: "bytes \<Rightarrow> nat list \<Rightarrow> key \<Rightarrow> 's visitor \<Rightarrow> 's \<Rightarrow> ((ncfs_error + unit) option \<times> 's) option" where
  "visit_items buf [] stop f s = Some (None, s)"
| "visit_items buf (i # is) stop f s = do {
     (k, v) \<leftarrow> leaf_item buf i;
     if k \<ge> stop then Some (Some (Inr ()), s)
     else case f k v s of
       None \<Rightarrow> None
     | Some (Inl e, s) \<Rightarrow> Some (Some (Inl e), s)
     | Some (Inr False, s) \<Rightarrow> Some (Some (Inr ()), s)
     | Some (Inr True, s) \<Rightarrow> visit_items buf is stop f s }"

definition key_nat :: "key \<Rightarrow> nat" where
  "key_nat k = (unat (obj k) * 2 ^ 8 + unat (kind k)) * 2 ^ 64 + unat (off k)"

lemma key_nat_less: "a < b \<Longrightarrow> key_nat a < key_nat b"
proof -
  have *: "x * m + y < x' * m + y'" if "x < x'" "y < m" for x x' y y' m :: nat
  proof -
    have "x * m + y < (x + 1) * m" using that by simp
    also have "\<dots> \<le> x' * m" using that by (intro mult_le_mono1) simp
    finally show ?thesis by simp
  qed
  have k: "unat (kind a) < 2 ^ 8" using unsigned_less [where 'b = 8 and 'a = nat, of "kind a"] by simp
  assume "a < b"
  then consider "obj a < obj b" | "obj a = obj b" "kind a < kind b" | "obj a = obj b" "kind a = kind b" "off a < off b"
    by (auto simp: less_key_def)
  then show ?thesis
    unfolding key_nat_def
  proof cases
    case 1
    then show "(unat (obj a) * 2 ^ 8 + unat (kind a)) * 2 ^ 64 + unat (off a)
        < (unat (obj b) * 2 ^ 8 + unat (kind b)) * 2 ^ 64 + unat (off b)"
      using k unat_u64_less by (intro * [of _ _ _ "2 ^ 64"] * [of _ _ _ "2 ^ 8"]) (simp_all add: word_less_nat_alt)
  next
    case 2
    then show "(unat (obj a) * 2 ^ 8 + unat (kind a)) * 2 ^ 64 + unat (off a)
        < (unat (obj b) * 2 ^ 8 + unat (kind b)) * 2 ^ 64 + unat (off b)"
      using unat_u64_less by (intro * [of _ _ _ "2 ^ 64"]) (simp_all add: word_less_nat_alt)
  next
    case 3
    then show "(unat (obj a) * 2 ^ 8 + unat (kind a)) * 2 ^ 64 + unat (off a)
        < (unat (obj b) * 2 ^ 8 + unat (kind b)) * 2 ^ 64 + unat (off b)"
      by (simp add: word_less_nat_alt)
  qed
qed

definition key_max :: key where
  "key_max = Key (- 1) (- 1) (- 1)"

lemma key_le_max: "k \<le> key_max"
  using word_order.extremum_unique [of "obj k"] word_order.extremum_unique [of "kind k"]
  by (auto simp: key_max_def less_eq_key_def word_order.not_eq_extremum)

lemma key_nat_le: "a \<le> b \<Longrightarrow> key_nat a \<le> key_nat b"
  using key_nat_less [of a b] by (auto simp: le_less)

function range_from :: "block_dev \<Rightarrow> superblock \<Rightarrow> ptr \<Rightarrow> u64 \<Rightarrow> key \<Rightarrow> key \<Rightarrow> 's visitor \<Rightarrow> 's \<Rightarrow>
    ((ncfs_error + unit) \<times> 's) option" where
  "range_from dev sb root owner from stop f s =
     (case seek dev sb root owner from of
        None \<Rightarrow> None
      | Some (Inl e) \<Rightarrow> Some (Inl e, s)
      | Some (Inr (c, buf)) \<Rightarrow>
          (case visit_items buf [cur_index c..<cur_count c] stop f s of
             None \<Rightarrow> None
           | Some (Some r, s) \<Rightarrow> Some (r, s)
           | Some (None, s) \<Rightarrow>
               (case cur_next c of
                  None \<Rightarrow> Some (Inr (), s)
                | Some n \<Rightarrow>
                    if n > from \<and> n < stop then range_from dev sb root owner n stop f s
                    else if n \<le> from then Some (Inl (Corrupt (p_block root)), s)
                    else Some (Inr (), s))))"
  by pat_completeness auto
termination
  by (relation "measure (\<lambda>(_, _, _, _, from, _). key_nat key_max - key_nat from)")
    (auto intro!: diff_less_mono2 key_nat_less intro: less_le_trans [OF _ key_le_max])

definition ncfs_range :: "block_dev \<Rightarrow> superblock \<Rightarrow> ptr \<Rightarrow> u64 \<Rightarrow> key \<Rightarrow> key \<Rightarrow> 's visitor \<Rightarrow> 's \<Rightarrow>
    ((ncfs_error + unit) \<times> 's) option" where
  "ncfs_range dev sb root owner start stop f s = range_from dev sb root owner start stop f s"

text \<open>\<open>room\<close> is the length of the buffer the item is copied into.\<close>

definition ncfs_get :: "block_dev \<Rightarrow> superblock \<Rightarrow> ptr \<Rightarrow> u64 \<Rightarrow> key \<Rightarrow> nat \<Rightarrow> bytes option res" where
  "ncfs_get dev sb root owner key room =
     rbind (seek dev sb root owner key) (\<lambda>(c, buf).
       if cur_index c = cur_count c then Some (Inr None)
       else case leaf_item buf (cur_index c) of
         None \<Rightarrow> None
       | Some (k, v) \<Rightarrow>
           if k \<noteq> key then Some (Inr None)
           else if length v > room then Some (Inl (Corrupt (p_block root)))
           else Some (Inr (Some v)))"


section \<open>Volumes\<close>

definition MAX_ITEM :: nat where "MAX_ITEM = BLOCK - NODE_HEADER - ITEM_HEADER"

record volume =
  v_dev :: block_dev
  v_sb :: superblock
  v_subvol_id :: u64
  v_subvol :: root_item

abbreviation v_root :: "volume \<Rightarrow> ptr" where
  "v_root v \<equiv> ri_root (v_subvol v)"

definition vol_open :: "block_dev \<Rightarrow> volume res" where
  "vol_open dev =
     rbind (read_superblock dev) (\<lambda>sb.
     rbind (ncfs_get dev sb (root_tree sb) 0 (Key (default_subvol sb) KIND_ROOT 0) MAX_ITEM) (\<lambda>item.
     rbind (ok_or (Some item) (Corrupt (p_block (root_tree sb)))) (\<lambda>b.
     rbind (ok_or (root_decode b) (Corrupt (p_block (root_tree sb)))) (\<lambda>subvol.
       Some (Inr \<lparr> v_dev = dev, v_sb = sb, v_subvol_id = default_subvol sb, v_subvol = subvol \<rparr>)))))"

text \<open>The caller's closure gets an id, a subvolume and its own state.\<close>

definition subvol_visitor :: "superblock \<Rightarrow> (u64 \<Rightarrow> root_item \<Rightarrow> 's \<Rightarrow> (bool \<times> 's) option) \<Rightarrow> 's visitor" where
  "subvol_visitor sb f k v s =
     (if kind k \<noteq> KIND_ROOT then Some (Inr True, s)
      else case root_decode v of
        None \<Rightarrow> None
      | Some None \<Rightarrow> Some (Inl (Corrupt (p_block (root_tree sb))), s)
      | Some (Some r) \<Rightarrow> map_option (\<lambda>(go, s). (Inr go, s)) (f (obj k) r s))"

definition subvols :: "volume \<Rightarrow> (u64 \<Rightarrow> root_item \<Rightarrow> 's \<Rightarrow> (bool \<times> 's) option) \<Rightarrow> 's \<Rightarrow>
    ((ncfs_error + unit) \<times> 's) option" where
  "subvols vol f s = ncfs_range (v_dev vol) (v_sb vol) (root_tree (v_sb vol)) 0
     (Key 0 KIND_ROOT 0) key_max (subvol_visitor (v_sb vol) f) s"

definition open_subvol :: "volume \<Rightarrow> bytes \<Rightarrow> volume res" where
  "open_subvol vol name =
     (case subvols vol
        (\<lambda>i r found. do { nm \<leftarrow> root_name r; Some (if nm = name then (False, Some (i, r)) else (True, found)) }) None of
        None \<Rightarrow> None
      | Some (Inl e, _) \<Rightarrow> Some (Inl e)
      | Some (Inr (), None) \<Rightarrow> Some (Inl NotFound)
      | Some (Inr (), Some (i, r)) \<Rightarrow> Some (Inr (vol \<lparr> v_subvol_id := i, v_subvol := r \<rparr>)))"

definition get_item :: "volume \<Rightarrow> key \<Rightarrow> nat \<Rightarrow> bytes option res" where
  "get_item vol key room = ncfs_get (v_dev vol) (v_sb vol) (v_root vol) (v_subvol_id vol) key room"

definition vol_inode :: "volume \<Rightarrow> u64 \<Rightarrow> inode res" where
  "vol_inode vol ino =
     (case get_item vol (Key ino KIND_INODE 0) INODE_LEN of
        None \<Rightarrow> None
      | Some (Inr (Some b)) \<Rightarrow>
          if length b = INODE_LEN then ok_or (inode_decode b) (Corrupt (p_block (v_root vol)))
          else Some (Inl (Corrupt (p_block (v_root vol))))
      | Some (Inr None) \<Rightarrow> Some (Inl NotFound)
      | Some (Inl (Corrupt _)) \<Rightarrow> Some (Inl (Corrupt (p_block (v_root vol))))
      | Some (Inl e) \<Rightarrow> Some (Inl e))"

fun find_dirent :: "dirent option list \<Rightarrow> bytes \<Rightarrow> u64 \<Rightarrow> ncfs_error + (u64 \<times> u8) option" where
  "find_dirent [] name root = Inr None"
| "find_dirent (None # ds) name root = Inl (Corrupt root)"
| "find_dirent (Some d # ds) name root =
     (if d_name d = name then Inr (Some (d_child d, d_dtype d)) else find_dirent ds name root)"

definition lookup :: "volume \<Rightarrow> u64 \<Rightarrow> bytes \<Rightarrow> (u64 \<times> u8) option res" where
  "lookup vol dir name =
     (if \<not> valid_name name then Some (Inl InvalidName)
      else case name_hash name of None \<Rightarrow> None
      | Some nh \<Rightarrow>
        let key = Key dir KIND_DIRENT nh in
        rbind (seek (v_dev vol) (v_sb vol) (v_root vol) (v_subvol_id vol) key) (\<lambda>(c, buf).
          if cur_index c = cur_count c then Some (Inr None)
          else case leaf_item buf (cur_index c) of
            None \<Rightarrow> None
          | Some (k, v) \<Rightarrow>
              if k \<noteq> key then Some (Inr None)
              else map_option (\<lambda>ds. find_dirent ds name (p_block (v_root vol))) (dirents v)))"

text \<open>
  The cookie after an entry is its sequence number plus one; the addition wraps as in the shipped
  builds (overflow checks would panic instead).
\<close>

definition read_dir :: "volume \<Rightarrow> u64 \<Rightarrow> u64 \<Rightarrow> (u64 \<Rightarrow> u8 \<Rightarrow> bytes \<Rightarrow> u64 \<Rightarrow> 's \<Rightarrow> bool \<times> 's) \<Rightarrow> 's \<Rightarrow>
    ((ncfs_error + unit) \<times> 's) option" where
  "read_dir vol dir cookie f s =
     ncfs_range (v_dev vol) (v_sb vol) (v_root vol) (v_subvol_id vol)
       (Key dir KIND_DIRINDEX cookie) (Key dir (KIND_DIRINDEX + 1) 0)
       (\<lambda>k v s. case dirindex v of
            None \<Rightarrow> None
          | Some None \<Rightarrow> Some (Inl (Corrupt (p_block (v_root vol))), s)
          | Some (Some (ch, dt, name)) \<Rightarrow> (case f ch dt name (off k + 1) s of (go, s) \<Rightarrow> Some (Inr go, s)))
       s"

section \<open>File contents\<close>

type_synonym zstd_decoder = "bytes \<Rightarrow> nat \<Rightarrow> zstd_error + bytes"

text \<open>The bytes the stored form decodes to, in a buffer that is \<open>out\<close> before.\<close>

definition decode_extent :: "zstd_decoder \<Rightarrow> compression \<Rightarrow> bytes \<Rightarrow> bytes \<Rightarrow> ncfs_error + bytes" where
  "decode_extent zd cp stored out =
     (case cp of
        NoCompression \<Rightarrow> if length stored \<noteq> length out then Inl (Corrupt 0) else Inr stored
      | Lz4 \<Rightarrow> (case decompress_exact stored out of Inl e \<Rightarrow> Inl (Lz4Error e) | Inr bs \<Rightarrow> Inr bs)
      | Zstd \<Rightarrow> (case zd stored (length out) of
            Inl e \<Rightarrow> Inl (ZstdError e)
          | Inr bs \<Rightarrow> if length bs = length out then Inr bs else Inl (ZstdError ZShort)))"

text \<open>
  The decoded window the reader keeps: its \<open>WINDOW\<close> bytes and what they hold (subvolume, inode,
  window start, length).  The other buffers of \<^verbatim>\<open>Scratch\<close> never carry anything from one call to
  the next, and neither do the bytes a failed decode leaves in the window, which is then no longer
  marked as holding anything.
\<close>

record scratch =
  sc_window :: bytes
  cached :: "(u64 \<times> u64 \<times> u64 \<times> nat) option"

definition scratch_new :: scratch where
  "scratch_new = \<lparr> sc_window = zeros WINDOW, cached = None \<rparr>"

text \<open>A regular extent's blocks lie in the volume's data area.\<close>

definition region_in_volume :: "superblock \<Rightarrow> region \<Rightarrow> bool" where
  "region_in_volume sb r \<longleftrightarrow> FIRST_FREE \<le> r_block r \<and>
     unat (r_block r) + unat (r_blocks r) \<le> u64_max \<and>
     unat (r_block r) + unat (r_blocks r) \<le> unat (total_blocks sb)"

text \<open>The stored bytes of a regular extent, read and checked against their BLAKE3.\<close>

definition region_stored :: "volume \<Rightarrow> region \<Rightarrow> bytes res" where
  "region_stored vol r =
     (if \<not> region_in_volume (v_sb vol) r then Some (Inl (Corrupt (r_block r)))
      else case dev_read (v_dev vol) (r_block r) (unat (r_blocks r) * BLOCK) of
        Inl e \<Rightarrow> Some (Inl e)
      | Inr bs \<Rightarrow> do {
          stored \<leftarrow> slice bs 0 (unat (r_stored r));
          h \<leftarrow> blake3_hash stored;
          Some (if ct_eq h (r_hash r) then Inr stored else Inl (Checksum (r_block r))) })"

definition load_extent :: "zstd_decoder \<Rightarrow> volume \<Rightarrow> bytes \<Rightarrow> bytes \<Rightarrow> bytes res" where
  "load_extent zd vol v win =
     rbind (ok_or (extent_decode v) (Corrupt (p_block (v_root vol)))) (\<lambda>e.
       case e of
         Inline cp len data \<Rightarrow> do {
           out \<leftarrow> slice win 0 (unat len);
           Some (decode_extent zd cp data out) }
       | Regular r \<Rightarrow> rbind (region_stored vol r) (\<lambda>stored. do {
           out \<leftarrow> slice win 0 (unat (r_len r));
           Some (decode_extent zd (r_compression r) stored out) }))"

text \<open>The item of a window, if there is one.\<close>

definition extent_item :: "volume \<Rightarrow> u64 \<Rightarrow> u64 \<Rightarrow> bytes option res" where
  "extent_item vol ino w =
     (let key = Key ino KIND_EXTENT w in
      rbind (seek (v_dev vol) (v_sb vol) (v_root vol) (v_subvol_id vol) key) (\<lambda>(c, buf).
        if cur_index c = cur_count c then Some (Inr None)
        else case leaf_item buf (cur_index c) of
          None \<Rightarrow> None
        | Some (k, v) \<Rightarrow> Some (Inr (if k \<noteq> key then None else Some v))))"

definition cache_hit :: "volume \<Rightarrow> u64 \<Rightarrow> u64 \<Rightarrow> scratch \<Rightarrow> nat option" where
  "cache_hit vol ino w s =
     (case cached s of
        None \<Rightarrow> None
      | Some (sv, i, ww, len) \<Rightarrow> if sv = v_subvol_id vol \<and> i = ino \<and> ww = w then Some len else None)"

definition window :: "zstd_decoder \<Rightarrow> volume \<Rightarrow> u64 \<Rightarrow> u64 \<Rightarrow> scratch \<Rightarrow> ((ncfs_error + nat) \<times> scratch) option" where
  "window zd vol ino w s =
     (case cache_hit vol ino w s of
        Some len \<Rightarrow> Some (Inr len, s)
      | None \<Rightarrow>
        let s = s \<lparr> cached := None \<rparr> in
        case extent_item vol ino w of
          None \<Rightarrow> None
        | Some (Inl e) \<Rightarrow> Some (Inl e, s)
        | Some (Inr None) \<Rightarrow> Some (Inr 0, s)
        | Some (Inr (Some v)) \<Rightarrow>
            (case load_extent zd vol v (sc_window s) of
               None \<Rightarrow> None
             | Some (Inl e) \<Rightarrow> Some (Inl e, s)
             | Some (Inr bs) \<Rightarrow> Some (Inr (length bs),
                 s \<lparr> sc_window := bs @ drop (length bs) (sc_window s),
                     cached := Some (v_subvol_id vol, ino, w, length bs) \<rparr>)))"

text \<open>The loop of \<^verbatim>\<open>read\<close> from \<open>pos\<close> to \<open>stop\<close>; \<open>acc\<close> is what the output holds so far.\<close>

function read_loop :: "zstd_decoder \<Rightarrow> volume \<Rightarrow> u64 \<Rightarrow> nat \<Rightarrow> nat \<Rightarrow> bytes \<Rightarrow> scratch \<Rightarrow>
    ((ncfs_error + bytes) \<times> scratch) option" where
  "read_loop zd vol ino stop pos acc s =
     (if stop \<le> pos then Some (Inr acc, s)
      else
        let w = pos - pos mod WINDOW;
            in_w = pos - w;
            k = min (stop - pos) (WINDOW - in_w)
        in case window zd vol ino (word_of_nat w) s of
          None \<Rightarrow> None
        | Some (Inl e, s) \<Rightarrow> Some (Inl e, s)
        | Some (Inr have, s) \<Rightarrow>
            let lo = min in_w have;
                hi = min (in_w + k) have
            in (case slice (sc_window s) lo hi of
                  None \<Rightarrow> None
                | Some bs \<Rightarrow> read_loop zd vol ino stop (pos + k) (acc @ bs @ zeros (k - (hi - lo))) s))"
  by pat_completeness auto
termination
proof (relation "measure (\<lambda>(_, _, _, stop, pos, _). stop - pos)")
  fix pos stop w in_w k :: nat
  assume "\<not> stop \<le> pos" "w = pos - pos mod WINDOW" "in_w = pos - w" "k = min (stop - pos) (WINDOW - in_w)"
  moreover have "pos mod WINDOW < WINDOW" by (simp add: WINDOW_def)
  ultimately have "0 < k" by (simp add: diff_diff_cancel mod_less_eq_dividend)
  with \<open>\<not> stop \<le> pos\<close> have "stop - (pos + k) < stop - pos" by simp
  then show "((zd, vol, ino, stop, pos + k, acc', s'), zd, vol, ino, stop, pos, acc, s)
      \<in> measure (\<lambda>(_, _, _, stop, pos, _). stop - pos)" for zd vol ino acc s acc' s' by simp
qed simp

definition vol_read :: "zstd_decoder \<Rightarrow> volume \<Rightarrow> u64 \<Rightarrow> inode \<Rightarrow> u64 \<Rightarrow> nat \<Rightarrow> scratch \<Rightarrow>
    ((ncfs_error + bytes) \<times> scratch) option" where
  "vol_read zd vol ino inode offset room s =
     (if offset \<ge> isize inode then Some (Inr [], s)
      else read_loop zd vol ino (min (unat (isize inode)) (sat_add64 (unat offset) room)) (unat offset) [] s)"

definition read_link :: "zstd_decoder \<Rightarrow> volume \<Rightarrow> u64 \<Rightarrow> inode \<Rightarrow> nat \<Rightarrow> scratch \<Rightarrow>
    ((ncfs_error + bytes) \<times> scratch) option" where
  "read_link zd vol ino inode room s =
     (if \<not> is_symlink inode then Some (Inl NotASymlink, s)
      else if isize inode = 0 \<or> unat (isize inode) > room then Some (Inl (Corrupt (p_block (v_root vol))), s)
      else vol_read zd vol ino inode 0 room s)"

definition contiguous :: "volume \<Rightarrow> u64 \<Rightarrow> inode \<Rightarrow> (u64 \<times> nat) option res" where
  "contiguous vol ino inode =
     (if isize inode = 0 \<or> unat (isize inode) > WINDOW then Some (Inr None)
      else rbind (extent_item vol ino 0) (\<lambda>item.
        case item of None \<Rightarrow> Some (Inr None)
        | Some v \<Rightarrow> rbind (ok_or (extent_decode v) (Corrupt (p_block (v_root vol)))) (\<lambda>e.
            case e of
              Inline _ _ _ \<Rightarrow> Some (Inr None)
            | Regular r \<Rightarrow>
                if r_compression r = NoCompression \<and> ucast (r_len r) = isize inode
                then rbind (region_stored vol r) (\<lambda>_. Some (Inr (Some (r_block r, unat (r_len r)))))
                else Some (Inr None))))"

section \<open>Paths\<close>

definition DT_LNK :: u8 where "DT_LNK = 10"
definition DT_DIR :: u8 where "DT_DIR = 4"

definition slash :: u8 where "slash = 0x2F"

text \<open>
  One component of the walk, on the part of the path still to go (the end of the 4096-byte stack,
  so that it begins at \<open>4096 - length path\<close>): the walk ends with a result, or goes on.
\<close>

datatype walk_next = Ends "ncfs_error + u64" | On bytes u64 nat

definition walk_child :: "zstd_decoder \<Rightarrow> volume \<Rightarrow> bool \<Rightarrow> bytes \<Rightarrow> u64 \<Rightarrow> nat \<Rightarrow> u64 \<Rightarrow> u8 \<Rightarrow> scratch \<Rightarrow>
    (walk_next \<times> scratch) option" where
  "walk_child zd vol follow_last rest dir hops ch dt s =
     (let is_last = list_all (\<lambda>c. c = slash) rest in
      if dt = DT_LNK \<and> (\<not> is_last \<or> follow_last) then
        if hops + 1 > 16 then Some (Ends (Inl Loop), s)
        else
          (case vol_inode vol ch of
             None \<Rightarrow> None
           | Some (Inl e) \<Rightarrow> Some (Ends (Inl e), s)
           | Some (Inr i) \<Rightarrow>
               (case read_link zd vol ch i 1024 s of
                  None \<Rightarrow> None
                | Some (Inl e, s) \<Rightarrow> Some (Ends (Inl e), s)
                | Some (Inr link, s) \<Rightarrow>
                    if length link + 1 > 4096 - length rest then Some (Ends (Inl InvalidName), s)
                    else Some (On (link @ slash # rest)
                      (if idx link 0 = Some slash then ROOT_INO else dir) (hops + 1), s)))
      else if \<not> is_last \<and> dt \<noteq> DT_DIR then Some (Ends (Inl NotADirectory), s)
      else Some (On rest ch hops, s))"

definition walk_step :: "zstd_decoder \<Rightarrow> volume \<Rightarrow> bool \<Rightarrow> bytes \<Rightarrow> u64 \<Rightarrow> nat \<Rightarrow> scratch \<Rightarrow>
    (walk_next \<times> scratch) option" where
  "walk_step zd vol follow_last path dir hops s =
     (let path = dropWhile (\<lambda>c. c = slash) path;
          name = takeWhile (\<lambda>c. c \<noteq> slash) path;
          rest = dropWhile (\<lambda>c. c \<noteq> slash) path
      in if path = [] then Some (Ends (Inr dir), s)
      else if length name > NAME_MAX then Some (Ends (Inl InvalidName), s)
      else if name = [0x2E] then Some (On rest dir hops, s)
      else if name = [0x2E, 0x2E] then
        (case vol_inode vol dir of
           None \<Rightarrow> None
         | Some (Inl e) \<Rightarrow> Some (Ends (Inl e), s)
         | Some (Inr i) \<Rightarrow> Some (On rest (i_parent i) hops, s))
      else
        (case lookup vol dir name of
           None \<Rightarrow> None
         | Some (Inl e) \<Rightarrow> Some (Ends (Inl e), s)
         | Some (Inr None) \<Rightarrow> Some (Ends (Inl NotFound), s)
         | Some (Inr (Some (ch, dt))) \<Rightarrow> walk_child zd vol follow_last rest dir hops ch dt s))"

lemma walk_step_decreases:
  assumes "walk_step zd vol follow_last path dir hops s = Some (On path' dir' hops', s')"
  shows "hops < hops' \<and> hops' \<le> 16 \<or> hops' = hops \<and> length path' < length path"
proof -
  define p where "p = dropWhile (\<lambda>c. c = slash) path"
  define rest where "rest = dropWhile (\<lambda>c. c \<noteq> slash) p"
  have "p \<noteq> []" using assms unfolding walk_step_def Let_def p_def [symmetric] by (auto split: if_splits)
  then have "hd p \<noteq> slash" using hd_dropWhile [of "\<lambda>c. c = slash" path] by (simp add: p_def)
  with \<open>p \<noteq> []\<close> have "length rest < length p"
    using length_dropWhile_le [of _ "tl p"] by (cases p) (auto simp: rest_def less_Suc_eq_le)
  moreover have "length p \<le> length path" by (simp add: p_def length_dropWhile_le)
  ultimately show ?thesis
    using assms unfolding walk_step_def Let_def p_def [symmetric] rest_def [symmetric]
    by (auto simp: walk_child_def Let_def split: if_splits option.splits sum.splits)
qed

function walk :: "zstd_decoder \<Rightarrow> volume \<Rightarrow> bool \<Rightarrow> bytes \<Rightarrow> u64 \<Rightarrow> nat \<Rightarrow> scratch \<Rightarrow>
    ((ncfs_error + u64) \<times> scratch) option" where
  "walk zd vol follow_last path dir hops s =
     (case walk_step zd vol follow_last path dir hops s of
        None \<Rightarrow> None
      | Some (Ends r, s) \<Rightarrow> Some (r, s)
      | Some (On path dir hops, s) \<Rightarrow> walk zd vol follow_last path dir hops s)"
  by pat_completeness auto
termination
  by (relation "measures [\<lambda>(_, _, _, _, _, hops, _). 16 - hops, \<lambda>(_, _, _, path, _). length path]")
    (auto dest!: walk_step_decreases)

definition walk_path :: "zstd_decoder \<Rightarrow> volume \<Rightarrow> bytes \<Rightarrow> scratch \<Rightarrow> bool \<Rightarrow> ((ncfs_error + u64) \<times> scratch) option" where
  "walk_path zd vol path s follow_last =
     (if length path > 4096 then Some (Inl InvalidName, s) else walk zd vol follow_last path ROOT_INO 0 s)"

definition resolve :: "zstd_decoder \<Rightarrow> volume \<Rightarrow> bytes \<Rightarrow> scratch \<Rightarrow> ((ncfs_error + u64) \<times> scratch) option" where
  "resolve zd vol path s = walk_path zd vol path s False"

definition resolve_follow :: "zstd_decoder \<Rightarrow> volume \<Rightarrow> bytes \<Rightarrow> scratch \<Rightarrow> ((ncfs_error + u64) \<times> scratch) option" where
  "resolve_follow zd vol path s = walk_path zd vol path s True"

end
