(* ===== verification/Ncfs_Tree.thy ===== *)
theory Ncfs_Tree
  imports Ncfs_Read
begin

text \<open>
  Searching NCFS trees.  The interface is a block device whose successful reads fill the buffer
  (\<^verbatim>\<open>BlockDev\<close>), interpreted on a volume in memory (\<^verbatim>\<open>SliceDev\<close>).  A tree that checks holds an
  ordered list of items (\<open>tree\<close>); searching, exact lookups and ranges are shown to be searching,
  lookup and filtering of that list, and never to panic on any device at all.
\<close>

section \<open>Devices\<close>

text \<open>What the reader relies on of a device: a successful read fills the caller's buffer.\<close>

locale block_device =
  fixes dev :: block_dev
  assumes read_fills: "dev_read dev block n = Inr bs \<Longrightarrow> length bs = n"
begin

lemma read_node_Inr:
  assumes "read_node dev sb p owner = Some (Inr (h, buf))"
  shows "length buf = 4096" "check_node buf p (sb_fsid sb) owner = Some (Inr h)"
  using assms read_fills [of "p_block p" BLOCK]
  by (auto simp: read_node_def rbind_eq_Inr BLOCK_def split: if_splits sum.splits)

lemma read_node_total: "read_node dev sb p owner \<noteq> None"
proof (cases "dev_read dev (p_block p) BLOCK")
  case (Inr buf)
  then have "length buf < 2 ^ 64" using read_fills [OF Inr] by (simp add: BLOCK_def)
  from check_node_total [OF this, of p "sb_fsid sb" owner] Inr show ?thesis
    by (simp add: read_node_def rbind_not_None del: not_None_eq)
qed (simp add: read_node_def)

lemma read_node_holds:
  assumes "read_node dev sb p owner = Some (Inr (h, buf))" "ptr_wf p"
  shows "if n_level h = 0 then \<exists>items. length items = unat (n_count h) \<and> leaf_holds buf items
    else \<exists>cs. length cs = unat (n_count h) \<and> inner_holds buf (n_level h) cs"
proof -
  note r = read_node_Inr [OF assms(1)]
  have "length buf < 2 ^ 64" using r(1) by simp
  then show ?thesis
    using check_node_leaf [OF r(2) assms(2)] check_node_inner [OF r(2) assms(2)] by auto
qed

end

lemma slice_dev_fills: "slice_dev_read data block n = Inr bs \<Longrightarrow> length bs = n"
  by (auto simp: slice_dev_read_def slice_def split: option.splits if_splits)

interpretation memory: block_device "slice_dev data" for data
  by unfold_locales (auto simp: slice_dev_def dest: slice_dev_fills)

section \<open>Choosing a child\<close>

lemma child_index_loop_eq:
  "child_index_loop i xs k pick =
     (let n = length (takeWhile (\<lambda>x. x \<le> k) xs) in if n = 0 then pick else i + n - 1)"
  by (induction xs arbitrary: i pick) (auto simp: Let_def)

lemma child_index_eq: "child_index ks k = length (takeWhile (\<lambda>x. x \<le> k) ks) - 1"
  by (simp add: child_index_def child_index_loop_eq Let_def)

lemma child_index_bounds:
  fixes ks :: "key list" and k :: key
  assumes "sorted_wrt (<) ks" "ks \<noteq> []"
  defines "i \<equiv> child_index ks k"
  shows "i < length ks" "0 < i \<Longrightarrow> ks ! i \<le> k" "i + 1 < length ks \<Longrightarrow> k < ks ! (i + 1)"
proof -
  define n where "n = length (takeWhile (\<lambda>x. x \<le> k) ks)"
  have n: "n \<le> length ks" by (simp add: n_def length_takeWhile_le)
  have i: "i = n - 1" by (simp add: i_def child_index_eq n_def)
  show "i < length ks" using n assms(2) by (cases ks) (auto simp: i)
  show "ks ! i \<le> k" if "0 < i"
  proof -
    have "i < n" using that by (simp add: i)
    then have "takeWhile (\<lambda>x. x \<le> k) ks ! i \<in> set (takeWhile (\<lambda>x. x \<le> k) ks)" by (simp add: n_def)
    with \<open>i < n\<close> show ?thesis by (metis n_def set_takeWhileD takeWhile_nth)
  qed
  show "k < ks ! (i + 1)" if "i + 1 < length ks"
  proof (cases "n = 0")
    case False
    then have "i + 1 = n" by (simp add: i)
    then show ?thesis using nth_length_takeWhile [of "\<lambda>x. x \<le> k" ks] that by (simp add: n_def)
  next
    case True
    then have "k < ks ! 0" using nth_length_takeWhile [of "\<lambda>x. x \<le> k" ks] assms(2) by (simp add: n_def)
    also have "ks ! 0 < ks ! (i + 1)" using sorted_wrt_nth_less [OF assms(1), of 0 "i + 1"] that by simp
    finally show ?thesis .
  qed
qed

lemma child_keys_eq:
  "\<forall>i \<in> set is. i < length cs \<and> child buf i level = Some (cs ! i) \<Longrightarrow>
     child_keys buf level is = Some (map (\<lambda>i. fst (cs ! i)) is)"
  by (induction "is") (auto split: prod.splits)

lemma map_fst_nth: "map (\<lambda>i. fst (cs ! i)) [0..<length cs] = map fst cs"
  by (rule nth_equalityI) simp_all

definition next_bound :: "key option \<Rightarrow> key option \<Rightarrow> key option" where
  "next_bound a b = (case a of None \<Rightarrow> b | Some x \<Rightarrow> Some (case b of None \<Rightarrow> x | Some y \<Rightarrow> min x y))"

lemma next_bound_assoc: "next_bound (next_bound a b) c = next_bound a (next_bound b c)"
  by (auto simp: next_bound_def min.assoc split: option.splits)

lemma next_bound_None [simp]: "next_bound None b = b" "next_bound a None = a"
  by (auto simp: next_bound_def split: option.splits)

lemma descend_eq:
  fixes key :: key
  assumes "inner_holds buf (n_level h) cs" "length cs = unat (n_count h)"
  defines "i \<equiv> child_index (map fst cs) key"
  shows "i < length cs"
    "descend buf h key nxt = Some (snd (cs ! i),
       next_bound nxt (if i + 1 < length cs then Some (fst (cs ! (i + 1))) else None))"
proof -
  have cs: "sorted_wrt (<) (map fst cs)" "cs \<noteq> []" "\<forall>i < length cs. child buf i (n_level h) = Some (cs ! i)"
    using assms(1) by (simp_all add: inner_holds_def)
  then show i: "i < length cs" using child_index_bounds(1) [of "map fst cs" key] by (simp add: i_def)
  have "child_keys buf (n_level h) [0..<length cs] = Some (map fst cs)"
    using child_keys_eq [of "[0..<length cs]" cs buf "n_level h"] cs(3) by (simp add: map_fst_nth)
  then show "descend buf h key nxt = Some (snd (cs ! i),
       next_bound nxt (if i + 1 < length cs then Some (fst (cs ! (i + 1))) else None))"
    using cs(3) i unfolding descend_def assms(2) [symmetric] Let_def
    by (auto simp: i_def [symmetric] next_bound_def split: prod.splits option.splits)
qed

lemma first_at_least_eq:
  "\<forall>i < length items. leaf_item buf i = Some (items ! i) \<Longrightarrow> i \<le> length items \<Longrightarrow>
     first_at_least buf [i..<length items] key (length items) =
       Some (i + length (takeWhile (\<lambda>(k, _). k < key) (drop i items)))"
proof (induction "length items - i" arbitrary: i)
  case (Suc n)
  then have i: "i < length items" by simp
  then have "[i..<length items] = i # [Suc i..<length items]" "drop i items = items ! i # drop (Suc i) items"
    by (simp_all add: upt_conv_Cons Cons_nth_drop_Suc)
  moreover have "n = length items - Suc i" using Suc.hyps(2) by simp
  ultimately show ?case using Suc.hyps(1) [of "Suc i"] Suc.prems i by (auto split: prod.splits)
qed simp


section \<open>Trees\<close>

text \<open>
  What a tree holds: \<open>tree dev sb owner p items\<close> when every node under \<open>p\<close> can be read and checks,
  and the leaves hold \<open>items\<close> in order, the items of a child between its own key (the first child
  excepted) and the next child's.
\<close>

definition separated :: "key list \<Rightarrow> (key \<times> bytes) list list \<Rightarrow> bool" where
  "separated ks parts \<longleftrightarrow> (\<forall>i < length parts. \<forall>(k, v) \<in> set (parts ! i).
     (0 < i \<longrightarrow> ks ! i \<le> k) \<and> (i + 1 < length parts \<longrightarrow> k < ks ! (i + 1)))"

lemma separatedD:
  assumes "separated ks parts" "x \<in> set (parts ! i)" "i < length parts"
  shows "0 < i \<Longrightarrow> ks ! i \<le> fst x" "i + 1 < length parts \<Longrightarrow> fst x < ks ! (i + 1)"
  using assms unfolding separated_def by (auto simp: case_prod_beta)

inductive tree :: "block_dev \<Rightarrow> superblock \<Rightarrow> u64 \<Rightarrow> ptr \<Rightarrow> (key \<times> bytes) list \<Rightarrow> bool" for dev sb owner where
  tree_leaf: "read_node dev sb p owner = Some (Inr (h, buf)) \<Longrightarrow> n_level h = 0 \<Longrightarrow>
    leaf_holds buf items \<Longrightarrow> length items = unat (n_count h) \<Longrightarrow> tree dev sb owner p items"
| tree_node: "read_node dev sb p owner = Some (Inr (h, buf)) \<Longrightarrow> n_level h \<noteq> 0 \<Longrightarrow>
    inner_holds buf (n_level h) cs \<Longrightarrow> length cs = unat (n_count h) \<Longrightarrow> length parts = length cs \<Longrightarrow>
    (\<And>i. i < length cs \<Longrightarrow> tree dev sb owner (snd (cs ! i)) (parts ! i)) \<Longrightarrow>
    separated (map fst cs) parts \<Longrightarrow> tree dev sb owner p (concat parts)"

lemma sorted_concat:
  assumes "\<And>i. i < length parts \<Longrightarrow> sorted_wrt (<) (map fst (parts ! i))"
    and sep: "separated ks parts" and "sorted_wrt (<) ks" "length ks = length parts"
  shows "sorted_wrt (<) (map fst (concat parts :: (key \<times> bytes) list))"
proof -
  have "sorted_wrt (\<lambda>xs ys. \<forall>x \<in> set xs. \<forall>y \<in> set ys. fst x < fst y) parts"
    unfolding sorted_wrt_iff_nth_less
  proof (intro allI impI ballI)
    fix i j x y
    assume ij: "i < j" "j < length parts" and x: "x \<in> set (parts ! i)" and y: "y \<in> set (parts ! j)"
    have "fst x < ks ! (i + 1)" using separatedD(2) [OF sep x] ij by simp
    also have "ks ! (i + 1) \<le> ks ! j"
      using sorted_wrt_nth_less [OF assms(3), of "i + 1" j] ij assms(4) by (cases "i + 1 = j") auto
    also have "ks ! j \<le> fst y" using separatedD(1) [OF sep y] ij by simp
    finally show "fst x < fst y" .
  qed
  moreover have "\<forall>part \<in> set parts. sorted_wrt (\<lambda>x y. fst x < fst y) part"
    using assms(1) by (auto simp: in_set_conv_nth sorted_wrt_map)
  ultimately have "sorted_wrt (\<lambda>x y. fst x < fst y) (concat parts)"
    by (induction parts) (auto simp: sorted_wrt_append)
  then show ?thesis by (simp add: sorted_wrt_map)
qed

lemma tree_sorted: "tree dev sb owner p items \<Longrightarrow> sorted_wrt (<) (map fst items)"
proof (induction rule: tree.induct)
  case (tree_leaf p h buf items)
  then show ?case by (simp add: leaf_holds_def)
next
  case (tree_node p h buf cs parts)
  then show ?case by (intro sorted_concat [where ks = "map fst cs"]) (auto simp: inner_holds_def)
qed

text \<open>Where a search for \<open>key\<close> lands among \<open>items\<close>: in the leaf \<open>leaf\<close>, with \<open>bound\<close> known to lie beyond it.\<close>

definition lands :: "(key \<times> bytes) list \<Rightarrow> key \<Rightarrow> (key \<times> bytes) list \<Rightarrow> (key \<times> bytes) list \<Rightarrow> (key \<times> bytes) list
    \<Rightarrow> key option \<Rightarrow> bool" where
  "lands items key pre leaf post bound \<longleftrightarrow> items = pre @ leaf @ post \<and> (\<forall>x \<in> set pre. fst x < key) \<and>
     (case bound of None \<Rightarrow> post = []
      | Some b \<Rightarrow> key < b \<and> (\<forall>x \<in> set leaf. fst x < b) \<and> (\<forall>x \<in> set post. b \<le> fst x))"

lemma lands_child:
  assumes "lands (parts ! i) key pre leaf post b" "i < length parts" "length ks = length parts"
    and sep: "separated ks parts" and ks: "sorted_wrt (<) ks"
    and i: "0 < i \<Longrightarrow> ks ! i \<le> key" "i + 1 < length ks \<Longrightarrow> key < ks ! (i + 1)"
  shows "lands (concat parts) key (concat (take i parts) @ pre) leaf (post @ concat (drop (i + 1) parts))
    (next_bound (if i + 1 < length ks then Some (ks ! (i + 1)) else None) b)"
proof -
  have part: "parts ! i = pre @ leaf @ post" "\<forall>x \<in> set pre. fst x < key"
    using assms(1) by (simp_all add: lands_def)
  have mono: "j \<le> j' \<Longrightarrow> j' < length ks \<Longrightarrow> ks ! j \<le> ks ! j'" for j j'
    using sorted_wrt_nth_less [OF ks, of j j'] by (cases "j = j'") auto
  have items: "concat parts = (concat (take i parts) @ pre) @ leaf @ (post @ concat (drop (i + 1) parts))"
    using arg_cong [OF id_take_nth_drop [OF assms(2)], of concat] part(1) by simp
  have before: "fst x < key" if xin: "x \<in> set (concat (take i parts))" for x
  proof -
    obtain j where j: "j < i" "x \<in> set (parts ! j)"
      using xin assms(2) by (auto simp: in_set_conv_nth [of _ "take i parts"])
    then have "fst x < ks ! (j + 1)" using separatedD(2) [OF sep j(2)] assms(2) by simp
    also have "\<dots> \<le> ks ! i" using j(1) assms(2,3) by (intro mono) auto
    also have "\<dots> \<le> key" using i(1) j(1) by simp
    finally show ?thesis .
  qed
  have after: "i + 1 < length ks \<and> ks ! (i + 1) \<le> fst x" if xin: "x \<in> set (concat (drop (i + 1) parts))" for x
  proof -
    obtain part where part: "part \<in> set (drop (i + 1) parts)" "x \<in> set part" using xin by auto
    then obtain j where "j < length (drop (i + 1) parts)" "part = drop (i + 1) parts ! j"
      by (metis in_set_conv_nth)
    then have j: "i + 1 + j < length parts" "x \<in> set (parts ! (i + 1 + j))" using part(2) by simp_all
    then have "ks ! (i + 1 + j) \<le> fst x" using separatedD(1) [OF sep j(2)] by simp
    moreover have "ks ! (i + 1) \<le> ks ! (i + 1 + j)" using j(1) assms(3) by (intro mono) auto
    ultimately show ?thesis using j(1) assms(3) by auto
  qed
  have here: "fst x < ks ! (i + 1)" if "x \<in> set (parts ! i)" "i + 1 < length ks" for x
    using separatedD(2) [OF sep that(1)] that(2) assms(2,3) by simp
  define t q where "t = concat (take i parts)" and "q = concat (drop (i + 1) parts)"
  have tq: "concat parts = (t @ pre) @ leaf @ (post @ q)" "\<forall>x \<in> set t. fst x < key"
      "\<forall>x \<in> set q. i + 1 < length ks \<and> ks ! (i + 1) \<le> fst x"
    using items before after unfolding t_def q_def by simp_all
  have leaf: "i + 1 < length ks \<Longrightarrow> \<forall>x \<in> set leaf. fst x < ks ! (i + 1)" using here part(1) by simp
  have "lands (concat parts) key (t @ pre) leaf (post @ q)
      (next_bound (if i + 1 < length ks then Some (ks ! (i + 1)) else None) b)"
  proof (cases "i + 1 < length ks")
    case True
    with assms(1) tq leaf i(2) part(2) show ?thesis
      by (cases b) (auto simp: lands_def next_bound_def min_le_iff_disj)
  next
    case False
    then have "q = []" using tq(3) by (cases q) auto
    with False show ?thesis using assms(1) tq(1,2) part by (cases b) (auto simp: lands_def)
  qed
  then show ?thesis by (simp only: t_def q_def)
qed

declare seek_from.simps [simp del] range_from.simps [simp del] read_loop.simps [simp del] walk.simps [simp del]

text \<open>A search of a tree finds where \<open>key\<close> belongs.\<close>

definition sought :: "(cursor \<times> bytes) res \<Rightarrow> key option \<Rightarrow> (key \<times> bytes) list \<Rightarrow> key \<Rightarrow> bool" where
  "sought r nxt items key \<longleftrightarrow> (\<exists>buf pre leaf post bound.
     r = Some (Inr (\<lparr> cur_index = length (takeWhile (\<lambda>(k, _). k < key) leaf), cur_count = length leaf,
           cur_next = next_bound nxt bound \<rparr>, buf)) \<and>
     leaf_holds buf leaf \<and> lands items key pre leaf post bound)"

lemma seek_from_sought: "tree dev sb owner p items \<Longrightarrow> sought (seek_from dev sb owner key p nxt) nxt items key"
proof (induction arbitrary: nxt rule: tree.induct)
  case (tree_leaf p h buf items)
  then have "first_at_least buf [0..<length items] key (length items) =
      Some (length (takeWhile (\<lambda>(k, _). k < key) items))"
    using first_at_least_eq [of items buf 0 key] by (simp add: leaf_holds_def)
  then have "seek_from dev sb owner key p nxt = Some (Inr (\<lparr> cur_index = length (takeWhile (\<lambda>(k, _). k < key) items),
      cur_count = length items, cur_next = next_bound nxt None \<rparr>, buf))"
    using tree_leaf by (simp add: seek_from.simps [of dev sb owner key p nxt])
  moreover have "lands items key [] items [] None" by (simp add: lands_def)
  ultimately show ?case using tree_leaf.hyps(3) unfolding sought_def by blast
next
  case (tree_node p h buf cs parts)
  define i where "i = child_index (map fst cs) key"
  define b where "b = (if i + 1 < length cs then Some (fst (cs ! (i + 1))) else None)"
  have cs: "sorted_wrt (<) (map fst cs)" "cs \<noteq> []" "\<forall>(k, p) \<in> set cs. p_level p = n_level h - 1 \<and> ptr_wf p"
    using tree_node.hyps(3) by (simp_all add: inner_holds_def)
  note d = descend_eq(1) [OF tree_node.hyps(3,4), of key, folded i_def]
    descend_eq(2) [OF tree_node.hyps(3,4), of key nxt, folded i_def, folded b_def]
  have "p_level (snd (cs ! i)) = n_level h - 1" using cs(3) d(1) nth_mem by fastforce
  then have step: "seek_from dev sb owner key p nxt = seek_from dev sb owner key (snd (cs ! i)) (next_bound nxt b)"
    using tree_node.hyps(1,2) d(2) by (simp add: seek_from.simps [of dev sb owner key p nxt])
  from tree_node.IH [OF d(1), of "next_bound nxt b"] obtain buf pre leaf post bound where r:
    "seek_from dev sb owner key (snd (cs ! i)) (next_bound nxt b) =
       Some (Inr (\<lparr> cur_index = length (takeWhile (\<lambda>(k, _). k < key) leaf), cur_count = length leaf,
         cur_next = next_bound (next_bound nxt b) bound \<rparr>, buf))"
    "leaf_holds buf leaf" "lands (parts ! i) key pre leaf post bound" unfolding sought_def by blast
  have "lands (concat parts) key (concat (take i parts) @ pre) leaf (post @ concat (drop (i + 1) parts))
      (next_bound (if i + 1 < length (map fst cs) then Some (map fst cs ! (i + 1)) else None) bound)"
    using r(3) d(1) tree_node.hyps(5,7) cs child_index_bounds [of "map fst cs" key]
    by (intro lands_child) (simp_all add: i_def)
  then have "lands (concat parts) key (concat (take i parts) @ pre) leaf (post @ concat (drop (i + 1) parts))
      (next_bound b bound)" by (simp add: b_def cong: if_cong)
  with r(1,2) show ?case unfolding sought_def step next_bound_assoc by blast
qed

lemma seek_sought: "tree dev sb owner p items \<Longrightarrow> sought (seek dev sb p owner key) None items key"
  unfolding seek_def by (rule seek_from_sought)

lemma sorted_split_at:
  assumes "sorted_wrt (<) (map fst (xs :: (key \<times> bytes) list))"
  shows "\<forall>x \<in> set (takeWhile (\<lambda>(k, _). k < key) xs). fst x < key"
    "\<forall>x \<in> set (dropWhile (\<lambda>(k, _). k < key) xs). key \<le> fst x"
proof -
  show "\<forall>x \<in> set (takeWhile (\<lambda>(k, _). k < key) xs). fst x < key"
    by (auto dest: set_takeWhileD)
  show "\<forall>x \<in> set (dropWhile (\<lambda>(k, _). k < key) xs). key \<le> fst x"
    using assms by (induction xs) (auto simp: not_less)
qed

lemma map_of_sorted_None: "\<forall>x \<in> set xs. fst x \<noteq> k \<Longrightarrow> map_of xs k = None"
  by (auto simp: map_of_eq_None_iff)

text \<open>The item a search stops at is the tree's item with that key, if there is one.\<close>

lemma seek_item:
  assumes "tree dev sb owner root items"
  obtains c buf where "seek dev sb root owner key = Some (Inr (c, buf))"
    "if cur_index c = cur_count c then map_of items key = None
     else \<exists>k v. leaf_item buf (cur_index c) = Some (k, v) \<and> map_of items key = (if k = key then Some v else None)"
proof -
  obtain buf pre leaf post bound where r:
    "seek dev sb root owner key = Some (Inr (\<lparr> cur_index = length (takeWhile (\<lambda>(k, _). k < key) leaf),
       cur_count = length leaf, cur_next = next_bound None bound \<rparr>, buf))"
    "leaf_holds buf leaf" "lands items key pre leaf post bound"
    using seek_sought [OF assms, of key] unfolding sought_def by blast
  define lo where "lo = takeWhile (\<lambda>(k, _). k < key) leaf"
  define hi where "hi = dropWhile (\<lambda>(k, _). k < key) leaf"
  have leaf: "leaf = lo @ hi" by (simp add: lo_def hi_def)
  have sorted: "sorted_wrt (<) (map fst leaf)" using r(2) by (simp add: leaf_holds_def)
  note split = sorted_split_at [OF sorted, of key, folded lo_def hi_def]
  have post: "\<forall>x \<in> set post. fst x \<noteq> key" and pre: "\<forall>x \<in> set pre. fst x \<noteq> key"
    using r(3) by (auto simp: lands_def split: option.splits)
  have "map_of pre key = None" "map_of lo key = None" "map_of post key = None"
    using pre post split(1) by (auto intro!: map_of_sorted_None)
  then have look: "map_of items key = map_of hi key"
    using r(3) by (simp add: lands_def leaf map_add_def split: option.splits)
  show thesis
  proof (cases hi)
    case Nil
    then have "length leaf = length lo" using leaf by simp
    then show thesis using that [OF r(1)] look Nil by (simp add: lo_def [symmetric])
  next
    case (Cons x hi')
    then have item: "leaf_item buf (length lo) = Some x" "length lo \<noteq> length leaf"
      using r(2) leaf by (simp_all add: leaf_holds_def)
    have "\<forall>y \<in> set hi'. fst x < fst y" using sorted leaf Cons by (auto simp: sorted_wrt_append)
    then have "fst x \<noteq> key \<Longrightarrow> map_of hi' key = None"
      using split(2) Cons by (intro map_of_sorted_None) fastforce
    then show thesis using that [OF r(1)] item look Cons by (cases x) (auto simp: lo_def [symmetric])
  qed
qed

text \<open>An exact lookup is a lookup in the tree's items.\<close>

lemma ncfs_get_map_of:
  assumes "tree dev sb owner root items"
  shows "ncfs_get dev sb root owner key room = Some (case map_of items key of
      None \<Rightarrow> Inr None
    | Some v \<Rightarrow> if length v > room then Inl (Corrupt (p_block root)) else Inr (Some v))"
  using assms by (rule seek_item [of _ _ _ _ _ key]) (auto simp: ncfs_get_def split: if_splits)

section \<open>Ranges\<close>

text \<open>A visitor run over a list of items: \<open>None\<close> when it came to the end of the list.\<close>

fun run_visitor :: "'s visitor \<Rightarrow> (key \<times> bytes) list \<Rightarrow> 's \<Rightarrow> ((ncfs_error + unit) option \<times> 's) option" where
  "run_visitor f [] s = Some (None, s)"
| "run_visitor f ((k, v) # xs) s =
     (case f k v s of
        None \<Rightarrow> None
      | Some (Inl e, s) \<Rightarrow> Some (Some (Inl e), s)
      | Some (Inr False, s) \<Rightarrow> Some (Some (Inr ()), s)
      | Some (Inr True, s) \<Rightarrow> run_visitor f xs s)"

definition visited :: "((ncfs_error + unit) option \<times> 's) option \<Rightarrow> ((ncfs_error + unit) \<times> 's) option" where
  "visited r = map_option (\<lambda>(r, s). (case r of None \<Rightarrow> Inr () | Some r \<Rightarrow> r, s)) r"

lemma run_visitor_append:
  "run_visitor f (xs @ ys) s =
     (case run_visitor f xs s of Some (None, s') \<Rightarrow> run_visitor f ys s' | r \<Rightarrow> r)"
  by (induction f xs s rule: run_visitor.induct)
    (auto split: option.splits sum.splits bool.splits prod.splits)

lemma visit_items_run:
  assumes "\<forall>i < length items. leaf_item buf i = Some (items ! i)" "sorted_wrt (<) (map fst items)" "i \<le> length items"
  shows "visit_items buf [i..<length items] stop f s =
    (case run_visitor f (takeWhile (\<lambda>(k, _). k < stop) (drop i items)) s of
       Some (None, s') \<Rightarrow>
         if \<forall>x \<in> set (drop i items). fst x < stop then Some (None, s') else Some (Some (Inr ()), s')
     | r \<Rightarrow> r)"
  using assms(3)
proof (induction "length items - i" arbitrary: i s)
  case (Suc n)
  then have i: "i < length items" by simp
  obtain k v where kv: "items ! i = (k, v)" by (cases "items ! i")
  have split: "[i..<length items] = i # [Suc i..<length items]" "drop i items = (k, v) # drop (Suc i) items"
    using i kv by (simp_all add: upt_conv_Cons Cons_nth_drop_Suc [symmetric])
  have IH: "visit_items buf [Suc i..<length items] stop f s' =
    (case run_visitor f (takeWhile (\<lambda>(k, _). k < stop) (drop (Suc i) items)) s' of
       Some (None, s') \<Rightarrow>
         if \<forall>x \<in> set (drop (Suc i) items). fst x < stop then Some (None, s') else Some (Some (Inr ()), s')
     | r \<Rightarrow> r)" for s'
    using Suc by (intro Suc.hyps(1)) simp_all
  show ?case
    using assms(1) i kv
    by (cases "k < stop") (auto simp: split IH not_less split: option.splits sum.splits bool.splits prod.splits)
qed simp

text \<open>The part of the items in a range.\<close>

definition in_range :: "key \<Rightarrow> key \<Rightarrow> (key \<times> bytes) list \<Rightarrow> (key \<times> bytes) list" where
  "in_range start stop items = filter (\<lambda>(k, _). start \<le> k \<and> k < stop) items"

lemma in_range_append: "in_range a b (xs @ ys) = in_range a b xs @ in_range a b ys"
  by (simp add: in_range_def)

lemma in_range_Nil: "\<forall>x \<in> set xs. fst x < a \<or> b \<le> fst x \<Longrightarrow> in_range a b xs = []"
  by (auto simp: in_range_def filter_empty_conv)

lemma in_range_sorted:
  assumes "sorted_wrt (<) (map fst xs)"
  shows "in_range a b xs = takeWhile (\<lambda>(k, _). k < b) (dropWhile (\<lambda>(k, _). k < a) xs)"
  using assms
proof (induction xs)
  case (Cons x xs)
  obtain k v where x: "x = (k, v)" by (cases x)
  have gt: "\<forall>y \<in> set xs. k < fst y" using Cons.prems by (simp add: x)
  show ?case
  proof (cases "k < a")
    case True
    then show ?thesis using Cons by (auto simp: in_range_def x)
  next
    case False
    have "dropWhile (\<lambda>(k, _). k < a) xs = xs"
      using gt False by (cases xs) (auto simp: not_less)
    moreover have "\<not> k < b \<Longrightarrow> in_range a b xs = []"
      using gt by (intro in_range_Nil) fastforce
    ultimately show ?thesis using Cons False by (auto simp: in_range_def x)
  qed
qed (simp add: in_range_def)

lemma range_from_run:
  assumes "tree dev sb owner root items"
  shows "range_from dev sb root owner from stop f s = visited (run_visitor f (in_range from stop items) s)"
proof (induction "key_nat key_max - key_nat from" arbitrary: "from" s rule: less_induct)
  case less
  obtain buf pre leaf post bound where r:
    "seek dev sb root owner from = Some (Inr (\<lparr> cur_index = length (takeWhile (\<lambda>(k, _). k < from) leaf),
       cur_count = length leaf, cur_next = bound \<rparr>, buf))"
    "leaf_holds buf leaf" "lands items from pre leaf post bound"
    using seek_sought [OF assms, of "from"] unfolding sought_def by auto
  define hi where "hi = dropWhile (\<lambda>(k, _). k < from) leaf"
  have sorted: "sorted_wrt (<) (map fst leaf)" and holds: "\<forall>i < length leaf. leaf_item buf i = Some (leaf ! i)"
    using r(2) by (simp_all add: leaf_holds_def)
  have hi: "drop (length (takeWhile (\<lambda>(k, _). k < from) leaf)) leaf = hi" by (simp add: hi_def dropWhile_eq_drop)
  have here: "in_range from stop leaf = takeWhile (\<lambda>(k, _). k < stop) hi"
    unfolding hi_def by (rule in_range_sorted [OF sorted])
  have pre: "in_range from stop pre = []" using r(3) by (intro in_range_Nil) (auto simp: lands_def)
  have all: "in_range from stop items = takeWhile (\<lambda>(k, _). k < stop) hi @ in_range from stop post"
    using r(3) pre here by (simp add: lands_def in_range_append)
  have visit: "visit_items buf [length (takeWhile (\<lambda>(k, _). k < from) leaf)..<length leaf] stop f s =
    (case run_visitor f (takeWhile (\<lambda>(k, _). k < stop) hi) s of
       Some (None, s') \<Rightarrow> if \<forall>x \<in> set hi. fst x < stop then Some (None, s') else Some (Some (Inr ()), s')
     | r \<Rightarrow> r)"
    using visit_items_run [OF holds sorted length_takeWhile_le, of "\<lambda>(k, _). k < from" stop f s]
    unfolding hi .
  have go: "range_from dev sb root owner from stop f s =
    (case visit_items buf [length (takeWhile (\<lambda>(k, _). k < from) leaf)..<length leaf] stop f s of
       None \<Rightarrow> None
     | Some (Some r, s) \<Rightarrow> Some (r, s)
     | Some (None, s) \<Rightarrow>
         (case bound of
            None \<Rightarrow> Some (Inr (), s)
          | Some n \<Rightarrow>
              if n > from \<and> n < stop then range_from dev sb root owner n stop f s
              else if n \<le> from then Some (Inl (Corrupt (p_block root)), s)
              else Some (Inr (), s)))"
    by (subst range_from.simps) (simp add: r(1) split: option.split)
  show ?case
  proof (cases "\<exists>s'. run_visitor f (takeWhile (\<lambda>(k, _). k < stop) hi) s = Some (None, s')")
    case False
    then show ?thesis
      unfolding go visit all run_visitor_append visited_def
      by (auto split: option.splits prod.splits)
  next
    case True
    then obtain s' where s': "run_visitor f (takeWhile (\<lambda>(k, _). k < stop) hi) s = Some (None, s')" by blast
    then have rest: "visited (run_visitor f (in_range from stop items) s)
        = visited (run_visitor f (in_range from stop post) s')"
      by (simp add: all run_visitor_append)
    show ?thesis
    proof (cases "\<forall>x \<in> set hi. fst x < stop")
      case False
      then obtain x where x: "x \<in> set leaf" "stop \<le> fst x" using set_dropWhileD unfolding hi_def by fastforce
      have "stop \<le> fst y" if y: "y \<in> set post" for y
      proof -
        obtain b where "bound = Some b" "fst x < b" "b \<le> fst y"
          using r(3) x(1) y by (auto simp: lands_def split: option.splits)
        with x(2) show ?thesis by simp
      qed
      then have "in_range from stop post = []" by (intro in_range_Nil) simp
      then show ?thesis using False s' unfolding go visit rest by (auto simp: visited_def)
    next
      case True
      then have step: "range_from dev sb root owner from stop f s = (case bound of
            None \<Rightarrow> Some (Inr (), s')
          | Some n \<Rightarrow>
              if n > from \<and> n < stop then range_from dev sb root owner n stop f s'
              else if n \<le> from then Some (Inl (Corrupt (p_block root)), s')
              else Some (Inr (), s'))"
        unfolding go visit s' by simp
      show ?thesis
      proof (cases bound)
        case None
        then have "in_range from stop post = []" using r(3) by (simp add: lands_def in_range_def)
        then show ?thesis using None unfolding step rest by (simp add: visited_def)
      next
        case (Some b)
        then have b: "from < b" "\<forall>x \<in> set leaf. fst x < b" "\<forall>x \<in> set post. b \<le> fst x" "\<forall>x \<in> set pre. fst x < from"
            "items = pre @ leaf @ post"
          using r(3) by (simp_all add: lands_def)
        show ?thesis
        proof (cases "b < stop")
          case False
          then have "in_range from stop post = []" using b(3) by (intro in_range_Nil) fastforce
          then show ?thesis using Some False b(1) unfolding step rest by (simp add: visited_def)
        next
          case True
          have "in_range b stop pre = []" "in_range b stop leaf = []"
            using b(1,2,4) by (auto intro!: in_range_Nil dest: less_trans)
          moreover have "in_range b stop post = in_range from stop post"
            unfolding in_range_def using b(1,3) by (intro filter_cong) (auto dest: less_le_trans)
          ultimately have "in_range b stop items = in_range from stop post" by (simp add: b(5) in_range_append)
          moreover have "key_nat key_max - key_nat b < key_nat key_max - key_nat from"
            using b(1) key_nat_less [OF b(1)] key_nat_less [OF less_le_trans [OF b(1) key_le_max]] by simp
          ultimately show ?thesis using less.hyps [of b s'] Some True b(1) unfolding step rest by simp
        qed
      qed
    qed
  qed
qed


section \<open>Nothing panics\<close>

text \<open>What a search returns whatever the device answers: a leaf and a position in it.\<close>

definition seek_safe :: "(cursor \<times> bytes) res \<Rightarrow> bool" where
  "seek_safe r \<longleftrightarrow> (case r of None \<Rightarrow> False | Some (Inl e) \<Rightarrow> True
     | Some (Inr (c, buf)) \<Rightarrow> \<exists>leaf. leaf_holds buf leaf \<and> cur_count c = length leaf \<and> cur_index c \<le> length leaf)"

lemma seek_safe_item:
  assumes "seek_safe r" "r = Some (Inr (c, buf))" "cur_index c \<noteq> cur_count c"
  shows "\<exists>k v. leaf_item buf (cur_index c) = Some (k, v)"
  using assms by (auto simp: seek_safe_def leaf_holds_def)

context block_device
begin

lemma seek_from_safe: "ptr_wf p \<Longrightarrow> seek_safe (seek_from dev sb owner key p nxt)"
proof (induction "unat (p_level p)" arbitrary: p nxt rule: less_induct)
  case less
  show ?case
  proof (cases "\<exists>h buf. read_node dev sb p owner = Some (Inr (h, buf))")
    case False
    then obtain e where "read_node dev sb p owner = Some (Inl e)"
      using read_node_total [of sb p owner] by (metis not_None_eq old.sum.exhaust surj_pair)
    then show ?thesis by (simp add: seek_from.simps [of dev sb owner key p nxt] seek_safe_def)
  next
    case True
    then obtain h buf where node: "read_node dev sb p owner = Some (Inr (h, buf))" by blast
    note holds = read_node_holds [OF node less.prems]
    show ?thesis
    proof (cases "n_level h = 0")
      case True
      with holds obtain items where items: "length items = unat (n_count h)" "leaf_holds buf items" by auto
      then have "first_at_least buf [0..<unat (n_count h)] key (unat (n_count h)) =
          Some (length (takeWhile (\<lambda>(k, _). k < key) items))"
        using first_at_least_eq [of items buf 0 key] by (simp add: leaf_holds_def)
      then have "seek_from dev sb owner key p nxt = Some (Inr (\<lparr>
          cur_index = length (takeWhile (\<lambda>(k, _). k < key) items), cur_count = length items, cur_next = nxt \<rparr>, buf))"
        using node True items(1) by (simp add: seek_from.simps [of dev sb owner key p nxt])
      then show ?thesis using items(2) by (auto simp: seek_safe_def length_takeWhile_le)
    next
      case False
      with holds obtain cs where cs: "length cs = unat (n_count h)" "inner_holds buf (n_level h) cs" by auto
      define i where "i = child_index (map fst cs) key"
      obtain nxt' where d: "i < length cs" "descend buf h key nxt = Some (snd (cs ! i), nxt')"
        using descend_eq [OF cs(2,1), where key = key] by (auto simp: i_def)
      have "ptr_wf (snd (cs ! i))" using cs(2) d(1) nth_mem by (fastforce simp: inner_holds_def)
      moreover have "unat (p_level (snd (cs ! i))) < unat (p_level p)"
        using descend_level [OF d(2)] read_node_level [OF node] by simp
      ultimately have "seek_safe (seek_from dev sb owner key (snd (cs ! i)) nxt')" by (rule less.hyps [rotated])
      then show ?thesis
        using node False d(2) by (simp add: seek_from.simps [of dev sb owner key p nxt] seek_safe_def)
    qed
  qed
qed

lemma seek_is_safe: "ptr_wf p \<Longrightarrow> seek_safe (seek dev sb p owner key)"
  unfolding seek_def by (rule seek_from_safe)

lemma seek_cases:
  assumes "ptr_wf p"
  obtains (error) e where "seek dev sb p owner key = Some (Inl e)"
    | (found) c buf where "seek dev sb p owner key = Some (Inr (c, buf))"
      "cur_index c \<noteq> cur_count c \<Longrightarrow> \<exists>k v. leaf_item buf (cur_index c) = Some (k, v)"
  using seek_is_safe [OF assms, of sb owner key] seek_safe_item [OF seek_is_safe [OF assms], of sb owner key]
  by (auto simp: seek_safe_def split: option.splits sum.splits prod.splits)

lemma ncfs_get_total: "ptr_wf p \<Longrightarrow> ncfs_get dev sb p owner key room \<noteq> None"
  by (cases rule: seek_cases [of p sb owner key]) (auto simp: ncfs_get_def)

lemma visit_items_total:
  assumes "\<forall>i \<in> set is. \<exists>k v. leaf_item buf i = Some (k, v)" "\<And>k v s. f k v s \<noteq> None"
  shows "visit_items buf is stop f s \<noteq> None"
  using assms(1)
proof (induction "is" arbitrary: s)
  case (Cons i "is")
  then obtain k v where "leaf_item buf i = Some (k, v)" by auto
  moreover obtain r s' where "f k v s = Some (r, s')" using assms(2) [of k v s] by auto
  ultimately show ?case using Cons by (auto split: sum.splits bool.splits)
qed simp

lemma range_from_total:
  assumes "ptr_wf root" "\<And>k v s. f k v s \<noteq> None"
  shows "range_from dev sb root owner from stop f s \<noteq> None"
proof (induction "key_nat key_max - key_nat from" arbitrary: "from" s rule: less_induct)
  case less
  have safe: "seek_safe (seek dev sb root owner from)" by (rule seek_is_safe [OF assms(1)])
  show ?case
  proof (cases "\<exists>c buf. seek dev sb root owner from = Some (Inr (c, buf))")
    case False
    then show ?thesis using safe
      by (subst range_from.simps) (auto simp: seek_safe_def split: option.splits sum.splits)
  next
    case True
    then obtain c buf where s: "seek dev sb root owner from = Some (Inr (c, buf))" by blast
    then obtain leaf where "leaf_holds buf leaf" "cur_count c = length leaf" using safe by (auto simp: seek_safe_def)
    then have "\<forall>i \<in> set [cur_index c..<cur_count c]. \<exists>k v. leaf_item buf i = Some (k, v)"
      by (auto simp: leaf_holds_def)
    from visit_items_total [of _ buf f, OF this assms(2)] obtain r s' where
      v: "visit_items buf [cur_index c..<cur_count c] stop f s = Some (r, s')" by fastforce
    have "range_from dev sb root owner n stop f s' \<noteq> None" if "n > from" for n
      using that key_nat_less [OF that] key_nat_less [OF less_le_trans [OF that key_le_max]]
      by (intro less.hyps) simp
    then show ?thesis
      using s v by (subst range_from.simps) (auto split: option.splits)
  qed
qed

end

end
