(* ===== verification/Ncfs_Volume.thy ===== *)
theory Ncfs_Volume
  imports Ncfs_Tree
begin

text \<open>
  An open NCFS volume: which superblock is used, that file reads return the file (the cache and the
  buffers never show), and that no operation of \<^verbatim>\<open>ncfs/read.rs\<close> panics or runs forever on any
  device.  Ends with the properties of the reader and their witnesses on a small volume.
\<close>

section \<open>Choosing the superblock\<close>

text \<open>The superblock a slot offers: one that decodes and fits the device.\<close>

definition slot_sb :: "block_dev \<Rightarrow> u64 \<Rightarrow> superblock option" where
  "slot_sb dev slot =
     (case dev_read dev slot BLOCK of
        Inl _ \<Rightarrow> None
      | Inr buf \<Rightarrow> (case sb_decode buf of
            Some (Inr sb) \<Rightarrow> if total_blocks sb \<le> dev_blocks dev then Some sb else None
          | _ \<Rightarrow> None))"

definition newer :: "superblock option \<Rightarrow> superblock option \<Rightarrow> superblock option" where
  "newer best new = (case new of None \<Rightarrow> best
     | Some sb \<Rightarrow> (case best of None \<Rightarrow> Some sb
         | Some b \<Rightarrow> if sb_generation sb > sb_generation b then Some sb else Some b))"

lemma read_slots_newer: "read_slots dev slots best = Some (fold (\<lambda>slot best. newer best (slot_sb dev slot)) slots best)"
proof (induction slots arbitrary: best)
  case (Cons slot slots)
  show ?case
  proof (cases "dev_read dev slot BLOCK")
    case (Inl e)
    then show ?thesis using Cons by (simp add: slot_sb_def newer_def)
  next
    case (Inr buf)
    obtain r where "sb_decode buf = Some r" using sb_decode_total [of buf] by auto
    with Inr Cons show ?thesis by (auto simp: slot_sb_def newer_def split: sum.splits option.splits)
  qed
qed simp

lemma read_superblock_newer:
  "read_superblock dev = Some (case newer (slot_sb dev 1) (slot_sb dev 2) of None \<Rightarrow> Inl NoSuperblock | Some sb \<Rightarrow> Inr sb)"
  by (auto simp: read_superblock_def SUPER_def read_slots_newer ok_or_def newer_def split: option.splits)

lemma slot_sb_wf: "slot_sb dev slot = Some sb \<Longrightarrow> sb_wf sb \<and> sb_ok sb"
  by (auto simp: slot_sb_def split: sum.splits option.splits if_splits dest: sb_decode_Inr(1,2))

lemma read_superblock_wf: "read_superblock dev = Some (Inr sb) \<Longrightarrow> sb_wf sb \<and> sb_ok sb"
  by (auto simp: read_superblock_newer newer_def split: option.splits if_splits dest: slot_sb_wf)

section \<open>Decoding extents\<close>

lemma decode_extent_any_buffer:
  "length o1 = length o2 \<Longrightarrow> decode_extent zd cp stored o1 = decode_extent zd cp stored o2"
  using decompress_exact_any_buffer [of o1 o2 stored] by (cases cp) (simp_all add: decode_extent_def split: sum.splits)

lemma decompress_exact_length: "decompress_exact stored out = Inr bs \<Longrightarrow> length bs = length out"
  using decompress_loop_frame [of 0 out stored 0] by (auto simp: decompress_exact_def decompress_def split: sum.splits if_splits)

lemma decode_extent_length: "decode_extent zd cp stored out = Inr bs \<Longrightarrow> length bs = length out"
  by (cases cp) (auto simp: decode_extent_def split: if_splits sum.splits dest: decompress_exact_length)

lemma load_extent_any_buffer:
  assumes "length w1 = length w2"
  shows "load_extent zd vol v w1 = load_extent zd vol v w2"
proof -
  have inl: "slice w1 0 n \<bind> (\<lambda>out. Some (decode_extent zd cp data out)) =
      slice w2 0 n \<bind> (\<lambda>out. Some (decode_extent zd cp data out))" for n cp data
    using assms decode_extent_any_buffer [of "take n w1" "take n w2"] by (simp add: slice_def)
  show ?thesis unfolding load_extent_def inl ..
qed


section \<open>Volumes\<close>

definition vol_ok :: "volume \<Rightarrow> bool" where
  "vol_ok vol \<longleftrightarrow> block_device (v_dev vol) \<and> ptr_wf (root_tree (v_sb vol)) \<and> ptr_wf (v_root vol)"

definition scratch_ok :: "scratch \<Rightarrow> bool" where
  "scratch_ok s \<longleftrightarrow> length (sc_window s) = WINDOW \<and> (case cached s of None \<Rightarrow> True | Some (_, _, _, len) \<Rightarrow> len \<le> WINDOW)"

text \<open>What a volume's operations answer: no panic.\<close>

lemma ok_or_not_None: "m \<noteq> None \<Longrightarrow> ok_or m e \<noteq> None"
  by (auto simp: ok_or_def)

lemma ok_or_Inr: "ok_or m e = Some (Inr x) \<longleftrightarrow> m = Some (Some x)"
  by (auto simp: ok_or_def split: option.splits)

lemma vol_okD:
  assumes "vol_ok vol"
  shows "block_device (v_dev vol)" "ptr_wf (root_tree (v_sb vol))" "ptr_wf (v_root vol)"
  using assms by (simp_all add: vol_ok_def)

lemma extent_item_total:
  assumes "vol_ok vol"
  shows "extent_item vol ino w \<noteq> None"
  by (cases rule: block_device.seek_cases [OF vol_okD(1,3) [OF assms], of "v_sb vol" "v_subvol_id vol" "Key ino KIND_EXTENT w"])
    (auto simp: extent_item_def Let_def)

lemma vol_inode_total:
  assumes "vol_ok vol"
  shows "vol_inode vol ino \<noteq> None"
proof -
  obtain r where "get_item vol (Key ino KIND_INODE 0) INODE_LEN = Some r"
    using block_device.ncfs_get_total [OF vol_okD(1,3) [OF assms]] unfolding get_item_def by blast
  moreover have "\<exists>y. ok_or (inode_decode b) e = Some y" for b e
    using ok_or_not_None [OF inode_decode_total, of b e] by auto
  ultimately show ?thesis
    by (auto simp: vol_inode_def split: sum.splits option.splits ncfs_error.splits)
qed

lemma name_hash_total: "length name < 2 ^ 64 \<Longrightarrow> name_hash name \<noteq> None"
proof -
  assume "length name < 2 ^ 64"
  moreover obtain h where "new_derive_key name_context = Some (hasher_with h DERIVE_KEY_MATERIAL)"
    using hash_tree [of name_context IV DERIVE_KEY_CONTEXT 0 B3_KEY_LEN]
    by (auto simp: new_derive_key_def name_context_def)
  ultimately show ?thesis
    using hash_tree [of name h DERIVE_KEY_MATERIAL 0 8] by (auto simp: name_hash_def)
qed

lemma lookup_total:
  assumes "vol_ok vol"
  shows "lookup vol dir name \<noteq> None"
proof (cases "valid_name name")
  case True
  then have "length name < 2 ^ 64" using valid_name_length [OF True] by simp
  then obtain nh where nh: "name_hash name = Some nh" using name_hash_total by blast
  have ds: "\<exists>ds. dirents v = Some ds" for v
    using dirents_from_total [of 0 v] unfolding dirents_def by auto
  show ?thesis
    using True nh ds
    by (cases rule: block_device.seek_cases [OF vol_okD(1,3) [OF assms], of "v_sb vol" "v_subvol_id vol" "Key dir KIND_DIRENT nh"])
      (auto simp: lookup_def Let_def)
qed (simp add: lookup_def)

lemma region_stored_total:
  assumes "block_device (v_dev vol)" "extent_ok (Regular r)"
  shows "region_stored vol r \<noteq> None"
proof -
  have st: "unat (r_stored r) \<le> unat (r_blocks r) * BLOCK" using assms(2) by (simp add: extent_ok_def)
  have "unat (r_stored r) < 2 ^ 32" using unsigned_less [where 'b = 32 and 'a = nat, of "r_stored r"] by simp
  then have short: "length (take (unat (r_stored r)) bs) < 2 ^ 64" for bs :: bytes by simp
  show ?thesis
    using st block_device.read_fills [OF assms(1), of "r_block r" "unat (r_blocks r) * BLOCK"]
    by (auto simp: region_stored_def slice_def blake3_hash_b3 [OF short] split: sum.splits)
qed

text \<open>A window's bytes, decoded from its item without any cache: \<open>[]\<close> for a hole.\<close>

definition fresh_window :: "zstd_decoder \<Rightarrow> volume \<Rightarrow> u64 \<Rightarrow> u64 \<Rightarrow> bytes res" where
  "fresh_window zd vol ino w = rbind (extent_item vol ino w) (\<lambda>item.
     case item of None \<Rightarrow> Some (Inr []) | Some v \<Rightarrow> load_extent zd vol v (zeros WINDOW))"

lemma load_extent_total:
  assumes "vol_ok vol" "length win = WINDOW"
  shows "load_extent zd vol v win \<noteq> None"
    "load_extent zd vol v win = Some (Inr bs) \<Longrightarrow> length bs \<le> WINDOW"
proof -
  obtain r where r: "extent_decode v = Some r" using extent_decode_total [of v] by auto
  have ok: "r = Some e \<Longrightarrow> extent_ok e" for e using extent_decode_Some r by blast
  have len: "r = Some e \<Longrightarrow> unat (extent_len e) \<le> WINDOW" for e using ok by (simp add: extent_ok_def)
  have reg: "\<exists>x. region_stored vol q = Some x" if "r = Some (Regular q)" for q
    using region_stored_total [OF vol_okD(1) [OF assms(1)] ok [OF that]] by auto
  show "load_extent zd vol v win \<noteq> None"
  proof (cases r)
    case None
    then show ?thesis by (simp add: load_extent_def r)
  next
    case (Some e)
    show ?thesis
    proof (cases e)
      case (Inline cp l data)
      then show ?thesis using len [OF Some] assms(2) Some by (simp add: load_extent_def r slice_def)
    next
      case (Regular q)
      then obtain x where "region_stored vol q = Some x" using reg Some by blast
      then show ?thesis using Regular len [OF Some] assms(2) Some
        by (cases x) (simp_all add: load_extent_def r slice_def)
    qed
  qed
  show "length bs \<le> WINDOW" if load: "load_extent zd vol v win = Some (Inr bs)"
  proof -
    obtain e where e: "r = Some e" using load by (cases r) (auto simp: load_extent_def r)
    show ?thesis
    proof (cases e)
      case (Inline cp l data)
      then show ?thesis using load assms(2)
        by (auto simp: load_extent_def r e slice_def split: if_splits dest!: decode_extent_length)
    next
      case (Regular q)
      then show ?thesis using load assms(2)
        by (auto simp: load_extent_def r e slice_def rbind_eq_Inr split: if_splits dest!: decode_extent_length)
    qed
  qed
qed

lemma fresh_window_total:
  assumes "vol_ok vol"
  shows "fresh_window zd vol ino w \<noteq> None" "fresh_window zd vol ino w = Some (Inr bs) \<Longrightarrow> length bs \<le> WINDOW"
proof -
  show "fresh_window zd vol ino w \<noteq> None"
    unfolding fresh_window_def
    by (rule rbind_not_None [OF extent_item_total [OF assms]])
      (simp add: load_extent_total(1) [OF assms] split: option.splits del: not_None_eq)
  show "length bs \<le> WINDOW" if "fresh_window zd vol ino w = Some (Inr bs)"
    using that load_extent_total(2) [OF assms, of "zeros WINDOW"]
    by (auto simp: fresh_window_def rbind_eq_Inr split: option.splits)
qed


section \<open>Reading files\<close>

text \<open>The cache holds what decoding afresh would give.\<close>

definition scratch_valid :: "zstd_decoder \<Rightarrow> volume \<Rightarrow> scratch \<Rightarrow> bool" where
  "scratch_valid zd vol s \<longleftrightarrow> scratch_ok s \<and>
     (\<forall>ino w len. cached s = Some (v_subvol_id vol, ino, w, len) \<longrightarrow>
        fresh_window zd vol ino w = Some (Inr (take len (sc_window s))))"

lemma scratch_new_valid: "scratch_valid zd vol scratch_new"
  by (simp add: scratch_valid_def scratch_ok_def scratch_new_def)

lemma scratch_valid_empty: "scratch_valid zd vol s \<Longrightarrow> scratch_valid zd vol (s \<lparr> cached := None \<rparr>)"
  by (simp add: scratch_valid_def scratch_ok_def)

lemma window_fresh:
  assumes "vol_ok vol" "scratch_valid zd vol s"
  shows "\<exists>s'. scratch_valid zd vol s' \<and> (case fresh_window zd vol ino w of
      None \<Rightarrow> False
    | Some (Inl e) \<Rightarrow> window zd vol ino w s = Some (Inl e, s')
    | Some (Inr bs) \<Rightarrow> window zd vol ino w s = Some (Inr (length bs), s') \<and>
        take (length bs) (sc_window s') = bs \<and> length bs \<le> WINDOW)"
proof (cases "cache_hit vol ino w s")
  case (Some len)
  then have c: "cached s = Some (v_subvol_id vol, ino, w, len)"
    by (auto simp: cache_hit_def split: option.splits if_splits)
  then have f: "fresh_window zd vol ino w = Some (Inr (take len (sc_window s)))" "len \<le> WINDOW"
      "length (sc_window s) = WINDOW"
    using assms(2) by (auto simp: scratch_valid_def scratch_ok_def)
  then show ?thesis using assms(2) Some by (intro exI [of _ s]) (simp add: window_def)
next
  case None
  define s0 where "s0 = s \<lparr> cached := None \<rparr>"
  have s0: "scratch_valid zd vol s0" unfolding s0_def by (rule scratch_valid_empty [OF assms(2)])
  have w0: "sc_window s0 = sc_window s" "length (sc_window s) = WINDOW" "length (zeros WINDOW) = WINDOW"
    using assms(2) by (simp_all add: s0_def scratch_valid_def scratch_ok_def)
  obtain item where item: "extent_item vol ino w = Some item" using extent_item_total [OF assms(1)] by blast
  show ?thesis
  proof (cases "\<exists>v. item = Inr (Some v)")
    case False
    then show ?thesis using None item s0
      by (intro exI [of _ s0]) (auto simp: window_def fresh_window_def s0_def [symmetric] Let_def split: sum.splits option.splits)
  next
    case True
    then obtain v where v: "item = Inr (Some v)" by blast
    obtain r where r: "load_extent zd vol v (sc_window s) = Some r"
      using load_extent_total(1) [OF assms(1) w0(2)] by blast
    have f: "fresh_window zd vol ino w = Some r"
      using item v r load_extent_any_buffer [of "zeros WINDOW" "sc_window s"] w0 by (simp add: fresh_window_def)
    show ?thesis
    proof (cases r)
      case (Inl e)
      then show ?thesis using None item v r f s0
        by (intro exI [of _ s0]) (simp add: window_def s0_def [symmetric] w0 Let_def)
    next
      case (Inr bs)
      define s' where "s' = s0 \<lparr> sc_window := bs @ drop (length bs) (sc_window s),
        cached := Some (v_subvol_id vol, ino, w, length bs) \<rparr>"
      have len: "length bs \<le> WINDOW" using load_extent_total(2) [OF assms(1) w0(2)] r Inr by blast
      then have "scratch_valid zd vol s'"
        using f Inr w0 by (auto simp: scratch_valid_def scratch_ok_def s'_def)
      moreover have "window zd vol ino w s = Some (Inr (length bs), s')"
        using None item v r Inr w0 by (simp add: window_def s0_def [symmetric] Let_def s'_def)
      ultimately show ?thesis using f Inr len by (intro exI [of _ s']) (simp add: s'_def)
    qed
  qed
qed

text \<open>Byte \<open>pos\<close> of a file: from its window, zero past the window's bytes.\<close>

definition window_start :: "nat \<Rightarrow> nat" where
  "window_start pos = pos - pos mod WINDOW"

definition file_byte :: "zstd_decoder \<Rightarrow> volume \<Rightarrow> u64 \<Rightarrow> nat \<Rightarrow> u8" where
  "file_byte zd vol ino pos =
     (case fresh_window zd vol ino (word_of_nat (window_start pos)) of
        Some (Inr bs) \<Rightarrow> if pos mod WINDOW < length bs then bs ! (pos mod WINDOW) else 0
      | _ \<Rightarrow> 0)"

lemma window_start_same:
  "pos mod WINDOW + j < WINDOW \<Longrightarrow> window_start (pos + j) = window_start pos \<and> (pos + j) mod WINDOW = pos mod WINDOW + j"
proof -
  assume a: "pos mod WINDOW + j < WINDOW"
  have "(pos + j) mod WINDOW = (pos mod WINDOW + j) mod WINDOW" by (simp add: mod_add_left_eq)
  with a have "(pos + j) mod WINDOW = pos mod WINDOW + j" by simp
  then show ?thesis by (simp add: window_start_def)
qed

lemma read_chunk:
  assumes bs: "fresh_window zd vol ino (word_of_nat (window_start pos)) = Some (Inr bs)"
    and k: "pos mod WINDOW + k \<le> WINDOW"
    and win: "take (length bs) win = bs" "length bs \<le> length win"
  shows "slice win (min (pos mod WINDOW) (length bs)) (min (pos mod WINDOW + k) (length bs))
      = Some (sub bs (min (pos mod WINDOW) (length bs)) (min (pos mod WINDOW + k) (length bs) - min (pos mod WINDOW) (length bs)))"
    "sub bs (min (pos mod WINDOW) (length bs)) (min (pos mod WINDOW + k) (length bs) - min (pos mod WINDOW) (length bs))
      @ zeros (k - (min (pos mod WINDOW + k) (length bs) - min (pos mod WINDOW) (length bs)))
      = map (file_byte zd vol ino) [pos..<pos + k]"
proof -
  define a where "a = pos mod WINDOW"
  define lo hi where "lo = min a (length bs)" and "hi = min (a + k) (length bs)"
  have lh: "lo \<le> hi" "hi \<le> length bs" "hi - lo \<le> k" by (auto simp: lo_def hi_def)
  have "take (hi - lo) (drop lo win) = take (hi - lo) (drop lo bs)"
    using win(1) lh by (metis drop_take le_diff_conv2 min.absorb1 take_take diff_le_mono)
  then show "slice win (min (pos mod WINDOW) (length bs)) (min (pos mod WINDOW + k) (length bs))
      = Some (sub bs (min (pos mod WINDOW) (length bs)) (min (pos mod WINDOW + k) (length bs) - min (pos mod WINDOW) (length bs)))"
    using lh win(2) unfolding a_def [symmetric] lo_def [symmetric] hi_def [symmetric] by (simp add: slice_def sub_def)
  have byte: "file_byte zd vol ino (pos + j) = (if a + j < length bs then bs ! (a + j) else 0)" if "j < k" for j
    using window_start_same [of pos j] that k bs by (simp add: file_byte_def a_def)
  show "sub bs (min (pos mod WINDOW) (length bs)) (min (pos mod WINDOW + k) (length bs) - min (pos mod WINDOW) (length bs))
      @ zeros (k - (min (pos mod WINDOW + k) (length bs) - min (pos mod WINDOW) (length bs)))
      = map (file_byte zd vol ino) [pos..<pos + k]"
    unfolding a_def [symmetric] lo_def [symmetric] hi_def [symmetric]
  proof (rule nth_equalityI)
    show "length (sub bs lo (hi - lo) @ zeros (k - (hi - lo))) = length (map (file_byte zd vol ino) [pos..<pos + k])"
      using lh by simp
    fix j
    assume "j < length (sub bs lo (hi - lo) @ zeros (k - (hi - lo)))"
    then have j: "j < k" using lh by simp
    have "(sub bs lo (hi - lo) @ zeros (k - (hi - lo))) ! j = (if a + j < length bs then bs ! (a + j) else 0)"
      using j lh by (auto simp: nth_append sub_def zeros_def lo_def hi_def min_def split: if_splits)
    then show "(sub bs lo (hi - lo) @ zeros (k - (hi - lo))) ! j = map (file_byte zd vol ino) [pos..<pos + k] ! j"
      using byte [OF j] j by simp
  qed
qed


definition window_reads :: "zstd_decoder \<Rightarrow> volume \<Rightarrow> u64 \<Rightarrow> nat \<Rightarrow> bool" where
  "window_reads zd vol ino pos \<longleftrightarrow> (\<exists>bs. fresh_window zd vol ino (word_of_nat (window_start pos)) = Some (Inr bs))"

text \<open>
  The bytes from \<open>pos\<close> to \<open>stop\<close> after \<open>acc\<close>, all their windows readable, or the error of a window
  among them; the scratch buffers stay valid.
\<close>

definition reads_file :: "zstd_decoder \<Rightarrow> volume \<Rightarrow> u64 \<Rightarrow> nat \<Rightarrow> nat \<Rightarrow> bytes \<Rightarrow>
    ((ncfs_error + bytes) \<times> scratch) option \<Rightarrow> bool" where
  "reads_file zd vol ino pos stop acc r \<longleftrightarrow> (\<exists>s'. scratch_valid zd vol s' \<and>
     (((\<forall>p. pos \<le> p \<and> p < stop \<longrightarrow> window_reads zd vol ino p) \<and>
       r = Some (Inr (acc @ map (file_byte zd vol ino) [pos..<stop]), s')) \<or>
      (\<exists>e p. pos \<le> p \<and> p < stop \<and> fresh_window zd vol ino (word_of_nat (window_start p)) = Some (Inl e) \<and>
        r = Some (Inl e, s'))))"

lemma reads_file_step:
  assumes r: "reads_file zd vol ino (pos + k) stop (acc @ map (file_byte zd vol ino) [pos..<pos + k]) r"
    and ok: "\<And>p. pos \<le> p \<Longrightarrow> p < pos + k \<Longrightarrow> window_reads zd vol ino p" and k: "pos + k \<le> stop"
  shows "reads_file zd vol ino pos stop acc r"
proof -
  have m: "map (file_byte zd vol ino) [pos..<pos + k] @ map (file_byte zd vol ino) [pos + k..<stop]
      = map (file_byte zd vol ino) [pos..<stop]"
    using k upt_add_eq_append [of pos "pos + k" "stop - (pos + k)"] by (simp flip: map_append)
  from r consider (ok) s' where "scratch_valid zd vol s'" "\<forall>p. pos + k \<le> p \<and> p < stop \<longrightarrow> window_reads zd vol ino p"
      "r = Some (Inr (acc @ map (file_byte zd vol ino) [pos..<stop]), s')"
    | (error) s' e p where "scratch_valid zd vol s'" "pos + k \<le> p" "p < stop"
      "fresh_window zd vol ino (word_of_nat (window_start p)) = Some (Inl e)" "r = Some (Inl e, s')"
    unfolding reads_file_def append_assoc m by blast
  then show ?thesis
  proof cases
    case (ok s')
    then have "\<forall>p. pos \<le> p \<and> p < stop \<longrightarrow> window_reads zd vol ino p" using assms(2) not_le by blast
    with ok show ?thesis unfolding reads_file_def by blast
  next
    case (error s' e p)
    then have "pos \<le> p" by simp
    with error show ?thesis unfolding reads_file_def by blast
  qed
qed

lemma read_loop_file:
  assumes "vol_ok vol" "scratch_valid zd vol s"
  shows "reads_file zd vol ino pos stop acc (read_loop zd vol ino stop pos acc s)"
  using assms(2)
proof (induction "stop - pos" arbitrary: pos acc s rule: less_induct)
  case less
  show ?case
  proof (cases "stop \<le> pos")
    case True
    then show ?thesis using less.prems by (subst read_loop.simps) (auto simp: reads_file_def)
  next
    case False
    define a where "a = pos mod WINDOW"
    define k where "k = min (stop - pos) (WINDOW - a)"
    have a: "a < WINDOW" by (simp add: a_def WINDOW_def)
    then have k: "0 < k" "k \<le> stop - pos" "a + k \<le> WINDOW" using False by (auto simp: k_def)
    have in_w: "pos - window_start pos = a" by (simp add: window_start_def a_def)
    have step: "read_loop zd vol ino stop pos acc s =
      (case window zd vol ino (word_of_nat (window_start pos)) s of
          None \<Rightarrow> None
        | Some (Inl e, s) \<Rightarrow> Some (Inl e, s)
        | Some (Inr have, s) \<Rightarrow>
            (case slice (sc_window s) (min a have) (min (a + k) have) of
               None \<Rightarrow> None
             | Some bs \<Rightarrow> read_loop zd vol ino stop (pos + k) (acc @ bs @ zeros (k - (min (a + k) have - min a have))) s))"
      using False
      by (subst read_loop.simps, unfold Let_def window_start_def [symmetric] in_w k_def [symmetric]) simp
    obtain s1 where s1: "scratch_valid zd vol s1" "case fresh_window zd vol ino (word_of_nat (window_start pos)) of
        None \<Rightarrow> False
      | Some (Inl e) \<Rightarrow> window zd vol ino (word_of_nat (window_start pos)) s = Some (Inl e, s1)
      | Some (Inr bs) \<Rightarrow> window zd vol ino (word_of_nat (window_start pos)) s = Some (Inr (length bs), s1) \<and>
          take (length bs) (sc_window s1) = bs \<and> length bs \<le> WINDOW"
      using window_fresh [OF assms(1) less.prems] by blast
    show ?thesis
    proof (cases "fresh_window zd vol ino (word_of_nat (window_start pos))")
      case None
      then show ?thesis using s1(2) by simp
    next
      case (Some r)
      show ?thesis
      proof (cases r)
        case (Inl e)
        with Some s1 have "read_loop zd vol ino stop pos acc s = Some (Inl e, s1)" by (simp add: step)
        moreover have "pos < stop" using False by simp
        ultimately show ?thesis using Some Inl s1(1) unfolding reads_file_def by blast
      next
        case (Inr bs)
        then have w: "window zd vol ino (word_of_nat (window_start pos)) s = Some (Inr (length bs), s1)"
            "take (length bs) (sc_window s1) = bs" "length bs \<le> length (sc_window s1)"
          using s1 Some by (simp_all add: scratch_valid_def scratch_ok_def)
        note chunk = read_chunk [OF Some [unfolded Inr] k(3) [unfolded a_def] w(2,3), folded a_def]
        have "read_loop zd vol ino stop pos acc s
            = read_loop zd vol ino stop (pos + k) (acc @ map (file_byte zd vol ino) [pos..<pos + k]) s1"
          unfolding step w(1) chunk(2) [symmetric] by (simp add: chunk(1))
        moreover have "stop - (pos + k) < stop - pos" using k by simp
        moreover have "window_reads zd vol ino p" if "pos \<le> p" "p < pos + k" for p
          using window_start_same [of pos "p - pos"] that k(3) Some Inr by (simp add: a_def window_reads_def)
        moreover have "pos + k \<le> stop" using False k(2) by simp
        ultimately show ?thesis using less.hyps [OF _ s1(1)] reads_file_step by metis
      qed
    qed
  qed
qed

lemma extent_item_map_of:
  assumes "tree (v_dev vol) (v_sb vol) (v_subvol_id vol) (v_root vol) items"
  shows "extent_item vol ino w = Some (Inr (map_of items (Key ino KIND_EXTENT w)))"
  using assms by (rule seek_item [of _ _ _ _ _ "Key ino KIND_EXTENT w"]) (auto simp: extent_item_def Let_def split: if_splits)


section \<open>Every operation returns\<close>

text \<open>An operation that keeps the scratch buffers valid and does not panic.\<close>

definition returns :: "zstd_decoder \<Rightarrow> volume \<Rightarrow> ('a \<times> scratch) option \<Rightarrow> bool" where
  "returns zd vol r \<longleftrightarrow> (\<exists>x s. r = Some (x, s) \<and> scratch_valid zd vol s)"

lemma returns_Some [simp]: "returns zd vol (Some (x, s)) \<longleftrightarrow> scratch_valid zd vol s"
  by (simp add: returns_def)

lemma vol_read_returns:
  assumes "vol_ok vol" "scratch_valid zd vol s"
  shows "returns zd vol (vol_read zd vol ino i offset room s)"
  using read_loop_file [OF assms, of ino "unat offset" "min (unat (isize i)) (sat_add64 (unat offset) room)" "[]"] assms(2)
  by (auto simp: vol_read_def returns_def reads_file_def)

lemma read_link_returns:
  "vol_ok vol \<Longrightarrow> scratch_valid zd vol s \<Longrightarrow> returns zd vol (read_link zd vol ino i room s)"
  by (simp add: read_link_def vol_read_returns)

lemma walk_child_returns:
  assumes "vol_ok vol" "scratch_valid zd vol s"
  shows "returns zd vol (walk_child zd vol follow rest dir hops ch dt s)"
proof -
  obtain r where r: "vol_inode vol ch = Some r" using vol_inode_total [OF assms(1)] by blast
  have link: "\<exists>x s'. read_link zd vol ch i 1024 s = Some (x, s') \<and> scratch_valid zd vol s'" for i
    using read_link_returns [OF assms] by (simp add: returns_def)
  show ?thesis
  proof (cases r)
    case (Inl e)
    then show ?thesis using r assms(2) by (simp add: walk_child_def Let_def)
  next
    case (Inr i)
    obtain x s' where "read_link zd vol ch i 1024 s = Some (x, s')" "scratch_valid zd vol s'" using link by blast
    then show ?thesis using r Inr assms(2) by (cases x) (simp_all add: walk_child_def Let_def)
  qed
qed

lemma walk_step_returns:
  assumes "vol_ok vol" "scratch_valid zd vol s"
  shows "returns zd vol (walk_step zd vol follow path dir hops s)"
proof -
  obtain i where i: "vol_inode vol dir = Some i" using vol_inode_total [OF assms(1)] by blast
  obtain l where l: "lookup vol dir (takeWhile (\<lambda>c. c \<noteq> slash) (dropWhile (\<lambda>c. c = slash) path)) = Some l"
    using lookup_total [OF assms(1)] by blast
  show ?thesis
    using i l assms(2) walk_child_returns [OF assms]
    by (auto simp: walk_step_def Let_def split: sum.splits option.splits)
qed

lemma walk_returns:
  "vol_ok vol \<Longrightarrow> scratch_valid zd vol s \<Longrightarrow> returns zd vol (walk zd vol follow path dir hops s)"
proof (induction zd vol follow path dir hops s rule: walk.induct)
  case (1 zd vol follow path dir hops s)
  obtain n s' where n: "walk_step zd vol follow path dir hops s = Some (n, s')" "scratch_valid zd vol s'"
    using walk_step_returns [OF "1.prems", of follow path dir hops] by (auto simp: returns_def)
  then show ?case
    using "1.IH" [OF n(1) refl] "1.prems"(1)
    by (cases n) (simp_all add: walk.simps [of zd vol follow path dir hops s])
qed

lemma walk_path_returns:
  "vol_ok vol \<Longrightarrow> scratch_valid zd vol s \<Longrightarrow> returns zd vol (walk_path zd vol path s follow)"
  by (simp add: walk_path_def walk_returns)

lemma contiguous_total:
  assumes "vol_ok vol"
  shows "contiguous vol ino i \<noteq> None"
proof -
  obtain item where item: "extent_item vol ino 0 = Some item" using extent_item_total [OF assms] by blast
  consider (error) e where "item = Inl e" | (hole) "item = Inr None" | (item) v where "item = Inr (Some v)"
    by (metis old.sum.exhaust option.exhaust)
  then show ?thesis
  proof cases
    case error
    then show ?thesis using item by (simp add: contiguous_def)
  next
    case hole
    then show ?thesis using item by (simp add: contiguous_def)
  next
    case v: (item v)
    obtain e where e: "extent_decode v = Some e" using extent_decode_total [of v] by auto
    have "rbind (region_stored vol r) (\<lambda>_. Some (Inr (Some (r_block r, unat (r_len r))))) \<noteq> None"
      if "e = Some (Regular r)" for r
      using region_stored_total [OF vol_okD(1) [OF assms]] extent_decode_Some [of v "Regular r"] e that
      by (intro rbind_not_None) simp_all
    then show ?thesis
      using item v e by (cases e) (auto simp: contiguous_def split: extent.splits)
  qed
qed

lemma subvols_total:
  assumes "vol_ok vol" "\<And>i r s. root_ok r \<Longrightarrow> f i r s \<noteq> None"
  shows "subvols vol f s \<noteq> None"
proof -
  have "subvol_visitor (v_sb vol) f k v s \<noteq> None" for k v s
    using root_decode_total [of v] root_decode_Some [of v] assms(2)
    by (auto simp: subvol_visitor_def split: option.splits) blast
  then show ?thesis
    unfolding subvols_def ncfs_range_def
    by (rule block_device.range_from_total [OF vol_okD(1,2) [OF assms(1)]])
qed

lemma open_subvol_total:
  assumes "vol_ok vol"
  shows "open_subvol vol name \<noteq> None"
proof -
  define f where "f = (\<lambda>(i :: u64) r found. do { nm \<leftarrow> root_name r;
    Some (if nm = name then (False, Some (i, r)) else (True, found)) })"
  have "f i r found \<noteq> None" if "root_ok r" for i r found
    using that unat_u8_le [of "name_len r"] by (simp add: f_def root_ok_def root_name_def slice_def NAME_MAX_def)
  then have "subvols vol f None \<noteq> None" by (rule subvols_total [OF assms])
  then obtain r found where "subvols vol f None = Some (r, found)" by fast
  then show ?thesis unfolding open_subvol_def f_def [symmetric]
    by (cases r; cases found) (simp_all split: prod.splits unit.splits)
qed

lemma read_dir_total:
  assumes "vol_ok vol"
  shows "read_dir vol dir cookie f s \<noteq> None"
  unfolding read_dir_def ncfs_range_def
  using dirindex_total
  by (intro block_device.range_from_total [OF vol_okD(1,3) [OF assms]])
    (auto split: option.splits prod.splits)

lemma vol_open_total:
  assumes "block_device dev"
  shows "vol_open dev \<noteq> None"
  unfolding vol_open_def
  using block_device.ncfs_get_total [OF assms] read_superblock_wf [of dev] root_decode_total
  by (intro rbind_not_None) (auto simp: read_superblock_newer ok_or_not_None sb_wf_def)

lemma vol_open_ok:
  assumes "block_device dev" "vol_open dev = Some (Inr vol)"
  shows "vol_ok vol \<and> v_dev vol = dev"
  using assms read_superblock_wf [of dev]
  by (auto simp: vol_open_def rbind_eq_Inr ok_or_Inr vol_ok_def sb_wf_def root_ok_def dest!: root_decode_Some)


section \<open>A volume to try\<close>

text \<open>A device whose block 40 is the leaf of one item, and a volume on it.\<close>

definition demo_dev :: block_dev where
  "demo_dev = \<lparr> dev_blocks = 1024,
     dev_read = \<lambda>b n. if b = 40 \<and> n = 4096 then Inr demo_leaf else Inl Io \<rparr>"

definition demo_vol :: volume where
  "demo_vol = \<lparr> v_dev = demo_dev, v_sb = demo_sb, v_subvol_id = 1,
     v_subvol = \<lparr> ri_root = demo_ptr, ri_generation = 9, ri_created = 0, ri_flags = 0, ri_parent = 0,
       next_ino = 2, name_len = 1, ri_name = 0x61 # zeros 254 \<rparr> \<rparr>"

definition demo_items :: "(key \<times> bytes) list" where
  "demo_items = [(Key 1 1 0, [1, 2, 3, 4, 5])]"

lemma demo_dev_device: "block_device demo_dev"
  by unfold_locales (auto simp: demo_dev_def demo_leaf_checks(1) split: if_splits)

lemma demo_leaf_holds: "leaf_holds demo_leaf demo_items"
proof -
  have fs: "length (n_fsid demo_header) = 16" by (simp add: demo_header_def)
  have "sub demo_leaf 64 17 = key_bytes (Key 1 1 0)" "sub demo_leaf 81 2 = le16 4091" "sub demo_leaf 83 2 = le16 5"
      "sub demo_leaf 4091 5 = [1, 2, 3, 4, 5]"
    by (simp_all add: demo_leaf_def fs layout)
  then have "leaf_item demo_leaf 0 = Some (Key 1 1 0, [1, 2, 3, 4, 5])"
    using demo_leaf_checks(1) by (simp add: leaf_item_def ncfs_sizes layout)
  moreover have "demo_leaf = sub demo_leaf 0 85 @ zeros 4006 @ [1, 2, 3, 4, 5]"
    by (simp add: demo_leaf_def fs sub_append_cover) (simp add: sub_def zeros_def)
  ultimately show ?thesis unfolding leaf_holds_def demo_items_def by auto
qed

lemma demo_tree: "tree demo_dev demo_sb 1 demo_ptr demo_items"
proof (rule tree_leaf)
  have p: "p_block demo_ptr = 40" "sb_fsid demo_sb = replicate 16 7" "total_blocks demo_sb = 1024"
    by (simp_all add: demo_ptr_def demo_sb_def)
  have r: "dev_read demo_dev 40 BLOCK = Inr demo_leaf" by (simp add: demo_dev_def BLOCK_def)
  show "leaf_holds demo_leaf demo_items" by (rule demo_leaf_holds)
  show "read_node demo_dev demo_sb demo_ptr 1 = Some (Inr (demo_header, demo_leaf))"
    unfolding read_node_def p using demo_leaf_checks(2)
    by (simp add: r FIRST_FREE_def SIG_FIRST_def SIG_BLOCKS_def)
qed (simp_all add: demo_header_def demo_items_def)

lemma demo_vol_ok: "vol_ok demo_vol"
  by (simp add: vol_ok_def demo_vol_def demo_dev_device ptr_wf_def demo_ptr_def demo_sb_def)

definition demo_zd :: zstd_decoder where
  "demo_zd stored n = Inl ZTruncated"

definition demo_inode :: inode where
  "demo_inode = \<lparr> mode = 0x81A4, uid = 0, gid = 0, nlink = 1, isize = 3, atime = 0, mtime = 0, ctime = 0, btime = 0,
     i_flags = 0, i_generation = 9, i_parent = 0, next_index = 0, rdev = 0, disk_bytes = 0 \<rparr>"

text \<open>A device whose first slot holds a superblock, the second torn.\<close>

definition torn_dev :: block_dev where
  "torn_dev = \<lparr> dev_blocks = 1024,
     dev_read = \<lambda>b n. if b = 1 then Inr (sb_bytes demo_sb) else Inr (replicate n 0xA5) \<rparr>"

section \<open>Properties\<close>

text \<open>
  C23: Opening a volume uses, of the two superblock slots, the valid one (read, decoded, fitting the
  device) of higher generation, the first on a tie; it fails only when neither slot is valid, so
  that a commit torn while one slot was being written leaves the other, the previous commit, in
  use.  Choosing never panics.
\<close>

theorem newest_superblock_wins:
  "(read_superblock dev = Some (Inl NoSuperblock) \<longleftrightarrow> slot_sb dev 1 = None \<and> slot_sb dev 2 = None) \<and>
   (read_superblock dev = Some (Inr sb) \<longleftrightarrow>
      (slot_sb dev 1 = Some sb \<and> (\<forall>b. slot_sb dev 2 = Some b \<longrightarrow> sb_generation b \<le> sb_generation sb)) \<or>
      (slot_sb dev 2 = Some sb \<and> (\<forall>a. slot_sb dev 1 = Some a \<longrightarrow> sb_generation a < sb_generation sb))) \<and>
   (\<exists>r. read_superblock dev = Some r)"
  by (auto simp: read_superblock_newer newer_def split: option.splits)

theorem newest_superblock_wins_witness:
  "read_superblock torn_dev = Some (Inr demo_sb)"
proof -
  have ok: "sb_wf demo_sb" "sb_ok demo_sb" by (rule demo_sb_ok)+
  have "slot_sb torn_dev 1 = Some demo_sb"
    using ok sb_decode_bytes [OF ok(1)] by (simp add: slot_sb_def torn_dev_def sb_ok_def) (simp add: demo_sb_def)
  moreover have "slot_sb torn_dev 2 = None"
  proof -
    have "hd (take 8 (replicate 4096 0xA5)) \<noteq> hd MAGIC" by (simp add: MAGIC_def)
    then have "take 8 (replicate 4096 0xA5) \<noteq> MAGIC" by metis
    then show ?thesis by (simp add: slot_sb_def torn_dev_def sb_decode_def BLOCK_def del: take_replicate)
  qed
  ultimately show ?thesis using newest_superblock_wins [of torn_dev demo_sb] by simp
qed

text \<open>
  C24: In a tree whose nodes read and check, an exact lookup returns precisely what the ordered list
  of the tree's items holds under the key: the item (or an error when the caller's buffer is too
  small for it), or nothing.
\<close>

theorem lookup_refines_map:
  assumes "tree dev sb owner root items"
  shows "ncfs_get dev sb root owner key room = Some (case map_of items key of
      None \<Rightarrow> Inr None
    | Some v \<Rightarrow> if length v > room then Inl (Corrupt (p_block root)) else Inr (Some v))"
  using assms by (rule ncfs_get_map_of)

theorem lookup_refines_map_witness:
  "ncfs_get demo_dev demo_sb demo_ptr 1 (Key 1 1 0) 112 = Some (Inr (Some [1, 2, 3, 4, 5])) \<and>
   ncfs_get demo_dev demo_sb demo_ptr 1 (Key 1 2 0) 112 = Some (Inr None)"
  using lookup_refines_map [OF demo_tree, of "Key 1 1 0" 112] lookup_refines_map [OF demo_tree, of "Key 1 2 0" 112]
  by (simp add: demo_items_def)

text \<open>
  C25: A range over a tree calls the visitor on exactly the items with keys from the start up to the
  end, each once and in key order, until the visitor stops it or fails, and then returns; the
  guard against a next key pointing backwards never fires.
\<close>

theorem range_visits_in_order:
  assumes "tree dev sb owner root items"
  shows "ncfs_range dev sb root owner start stop f s
    = visited (run_visitor f (filter (\<lambda>(k, v). start \<le> k \<and> k < stop) items) s)"
  by (simp only: ncfs_range_def in_range_def [symmetric] range_from_run [OF assms])

theorem range_visits_in_order_witness:
  "ncfs_range demo_dev demo_sb demo_ptr 1 (Key 0 0 0) (Key 9 0 0) (\<lambda>k v n. Some (Inr True, n + length v)) 0
     = Some (Inr (), 5)"
  using range_visits_in_order [OF demo_tree, of "Key 0 0 0" "Key 9 0 0" "\<lambda>k v n. Some (Inr True, n + length v)" 0]
  by (simp add: demo_items_def visited_def less_key_def less_eq_key_def)

text \<open>
  C26: Reading a file returns exactly its bytes from the offset to the end of the file or of the
  buffer: each byte is the one at its place in its window, decoded from the window's extent item
  and checked against its BLAKE3, and zero in a hole or past the extent.  It fails only with the
  error of a window among them.  The one-window cache never changes what is returned.
\<close>

theorem read_returns_file:
  assumes "vol_ok vol" "scratch_valid zd vol s"
    and "tree (v_dev vol) (v_sb vol) (v_subvol_id vol) (v_root vol) items"
  shows "(if offset < isize i
      then reads_file zd vol ino (unat offset) (min (unat (isize i)) (sat_add64 (unat offset) room)) []
        (vol_read zd vol ino i offset room s)
      else vol_read zd vol ino i offset room s = Some (Inr [], s)) \<and>
    fresh_window zd vol ino w = (case map_of items (Key ino KIND_EXTENT w) of
        None \<Rightarrow> Some (Inr [])
      | Some v \<Rightarrow> load_extent zd vol v (zeros WINDOW))"
  using read_loop_file [OF assms(1,2)] extent_item_map_of [OF assms(3)]
  by (auto simp: vol_read_def fresh_window_def not_less)

theorem read_returns_file_witness:
  "map_option fst (vol_read demo_zd demo_vol 5 demo_inode 0 10 scratch_new) = Some (Inr [0, 0, 0])"
proof -
  have v: "v_dev demo_vol = demo_dev" "v_sb demo_vol = demo_sb" "v_subvol_id demo_vol = 1" "v_root demo_vol = demo_ptr"
    by (simp_all add: demo_vol_def)
  note r = read_returns_file [OF demo_vol_ok scratch_new_valid [of demo_zd], unfolded v, OF demo_tree, of 0 demo_inode 5 10]
  have hole: "fresh_window demo_zd demo_vol 5 w = Some (Inr [])" for w using r [of w] by (simp add: demo_items_def)
  have "reads_file demo_zd demo_vol 5 0 3 [] (vol_read demo_zd demo_vol 5 demo_inode 0 10 scratch_new)"
    using r [of 0] by (simp add: sat_add64_def u64_max_def demo_inode_def)
  then show ?thesis by (auto simp: reads_file_def hole file_byte_def upt_rec numeral_3_eq_3)
qed



end
