(* ===== verification/Qoi.thy ===== *)
theory Qoi
  imports Bytes
begin

text \<open>
  QOI pictures, \<^verbatim>\<open>nanochrono-core/src/qoi.rs\<close>: the header check, the pixel-at-a-time decoder and
  the encoder of the build script.  A pixel is its four bytes; a decoder is a record of the borrowed
  data and the decoder's fields.  A panic of the source (an index out of range, a failed assertion)
  is the outer \<open>None\<close>, so that the theorems can say there is none; \<^verbatim>\<open>width * height\<close> is computed
  in 64 bits of two 32-bit numbers, which cannot wrap, and is a \<open>nat\<close> here.

  The main results: reading the encoding of a picture gives back its pixels, all of them and in
  order; and on any bytes whatever that carry an acceptable header the decoder hands out exactly
  \<^verbatim>\<open>width * height\<close> pixels without ever leaving its data.
\<close>

type_synonym pixel = "u8 \<times> u8 \<times> u8 \<times> u8"

definition QOI_MAGIC :: bytes where
  "QOI_MAGIC = [0x71, 0x6F, 0x69, 0x66]"

definition HEADER_LEN :: nat where
  "HEADER_LEN = 14"

definition END_MARKER :: bytes where
  "END_MARKER = [0, 0, 0, 0, 0, 0, 0, 1]"

definition MAX_PIXELS :: nat where
  "MAX_PIXELS = 64 * 1024 * 1024"

definition OP_INDEX :: u8 where
  "OP_INDEX = 0x00"

definition OP_DIFF :: u8 where
  "OP_DIFF = 0x40"

definition OP_LUMA :: u8 where
  "OP_LUMA = 0x80"

definition OP_RUN :: u8 where
  "OP_RUN = 0xC0"

definition OP_RGB :: u8 where
  "OP_RGB = 0xFE"

definition OP_RGBA :: u8 where
  "OP_RGBA = 0xFF"

definition MASK_2 :: u8 where
  "MASK_2 = 0xC0"

lemmas qoi_consts = OP_INDEX_def OP_DIFF_def OP_LUMA_def OP_RUN_def OP_RGB_def OP_RGBA_def MASK_2_def
  HEADER_LEN_def END_MARKER_def

datatype qoi_error = NotQoi | BadHeader

record header =
  width :: u32
  height :: u32
  channels :: u8
  colorspace :: u8

definition pixels :: "header \<Rightarrow> nat" where
  "pixels h = unat (width h) * unat (height h)"

text \<open>\<^verbatim>\<open>u32::from_be_bytes\<close> and \<^verbatim>\<open>to_be_bytes\<close>.\<close>

definition of_be32 :: "bytes \<Rightarrow> u32" where
  "of_be32 b = of_le32 (rev b)"

definition be32 :: "u32 \<Rightarrow> bytes" where
  "be32 v = rev (le32 v)"

definition read_header :: "bytes \<Rightarrow> qoi_error + header" where
  "read_header data =
     (if length data < HEADER_LEN then Inl NotQoi
      else let h = take HEADER_LEN data in
        if take 4 h \<noteq> QOI_MAGIC then Inl NotQoi
        else
          let w = of_be32 [h ! 4, h ! 5, h ! 6, h ! 7];
              ht = of_be32 [h ! 8, h ! 9, h ! 10, h ! 11];
              hd = \<lparr> width = w, height = ht, channels = h ! 12, colorspace = h ! 13 \<rparr>
          in if w = 0 \<or> ht = 0 \<or> pixels hd > MAX_PIXELS \<or> \<not> (3 \<le> h ! 12 \<and> h ! 12 \<le> 4)
             then Inl BadHeader else Inr hd)"

definition qoi_hash :: "pixel \<Rightarrow> nat" where
  "qoi_hash p = (case p of (r, g, b, a) \<Rightarrow> (unat r * 3 + unat g * 5 + unat b * 7 + unat a * 11) mod 64)"

section \<open>The decoder\<close>

record decoder =
  q_data :: bytes
  q_pos :: nat
  q_end :: nat
  q_header :: header
  q_index :: "pixel list"
  q_previous :: pixel
  q_run :: nat
  q_remaining :: nat
  q_damaged :: bool

definition decoder_new :: "bytes \<Rightarrow> qoi_error + decoder" where
  "decoder_new data =
     (case read_header data of
        Inl e \<Rightarrow> Inl e
      | Inr h \<Rightarrow>
          let e = (if length data \<ge> HEADER_LEN + length END_MARKER
                      \<and> drop (length data - 8) data = END_MARKER
                   then length data - 8 else length data)
          in Inr \<lparr> q_data = data, q_pos = HEADER_LEN, q_end = e, q_header = h,
                   q_index = replicate 64 (0, 0, 0, 0), q_previous = (0, 0, 0, 255), q_run = 0,
                   q_remaining = pixels h, q_damaged = False \<rparr>)"

text \<open>\<^verbatim>\<open>Decoder::byte\<close>; \<^verbatim>\<open>self.data[self.pos]\<close> is a checked index.\<close>

definition qoi_byte :: "decoder \<Rightarrow> (u8 option \<times> decoder) option" where
  "qoi_byte d =
     (if q_pos d < q_end d
      then do { b \<leftarrow> idx (q_data d) (q_pos d); Some (Some b, d \<lparr> q_pos := q_pos d + 1 \<rparr>) }
      else Some (None, d))"

text \<open>The \<^verbatim>\<open>match op\<close> of \<^verbatim>\<open>next_pixel\<close>: the new pixel, or \<open>None\<close> for a truncated operation.\<close>

definition qoi_op :: "u8 \<Rightarrow> decoder \<Rightarrow> (pixel option \<times> decoder) option" where
  "qoi_op op d =
     (case q_previous d of (p0, p1, p2, p3) \<Rightarrow>
      if op = OP_RGB then do {
        (r, d) \<leftarrow> qoi_byte d;
        (g, d) \<leftarrow> qoi_byte d;
        (b, d) \<leftarrow> qoi_byte d;
        Some (case (r, g, b) of
                (Some r, Some g, Some b) \<Rightarrow> (Some (r, g, b, p3), d)
              | _ \<Rightarrow> (None, d)) }
      else if op = OP_RGBA then do {
        (r, d) \<leftarrow> qoi_byte d;
        (g, d) \<leftarrow> qoi_byte d;
        (b, d) \<leftarrow> qoi_byte d;
        (a, d) \<leftarrow> qoi_byte d;
        Some (case (r, g, b, a) of
                (Some r, Some g, Some b, Some a) \<Rightarrow> (Some (r, g, b, a), d)
              | _ \<Rightarrow> (None, d)) }
      else if op AND MASK_2 = OP_INDEX then do {
        p \<leftarrow> idx (q_index d) (unat (op AND 0x3F));
        Some (Some p, d) }
      else if op AND MASK_2 = OP_DIFF then
        Some (Some (p0 + ((drop_bit 4 op AND 3) - 2), p1 + ((drop_bit 2 op AND 3) - 2),
                    p2 + ((op AND 3) - 2), p3), d)
      else if op AND MASK_2 = OP_LUMA then do {
        (b, d) \<leftarrow> qoi_byte d;
        Some (case b of
                Some b \<Rightarrow>
                  let dg = (op AND 0x3F) - 32;
                      dr_dg = drop_bit 4 b - 8;
                      db_dg = (b AND 0x0F) - 8
                  in (Some (p0 + (dg + dr_dg), p1 + dg, p2 + (dg + db_dg), p3), d)
              | None \<Rightarrow> (None, d)) }
      else Some (Some (p0, p1, p2, p3), d \<lparr> q_run := unat (op AND 0x3F) \<rparr>))"

definition next_pixel :: "decoder \<Rightarrow> (pixel option \<times> decoder) option" where
  "next_pixel d =
     (if q_remaining d = 0 then Some (None, d)
      else let d = d \<lparr> q_remaining := q_remaining d - 1 \<rparr> in
        if q_run d > 0 then Some (Some (q_previous d), d \<lparr> q_run := q_run d - 1 \<rparr>)
        else do {
          (op, d) \<leftarrow> qoi_byte d;
          case op of
            None \<Rightarrow> Some (Some (q_previous d), d \<lparr> q_damaged := True \<rparr>)
          | Some op \<Rightarrow> do {
              (p, d) \<leftarrow> qoi_op op d;
              case p of
                None \<Rightarrow> Some (Some (q_previous d), d \<lparr> q_damaged := True, q_pos := q_end d \<rparr>)
              | Some p \<Rightarrow> do {
                  ix \<leftarrow> set_idx (q_index d) (qoi_hash p) p;
                  Some (Some p, d \<lparr> q_index := ix, q_previous := p \<rparr>) } } })"

section \<open>The encoder\<close>

record encoder =
  e_out :: bytes
  e_index :: "pixel list"
  e_previous :: pixel
  e_run :: nat

text \<open>The bytes for a pixel that differs from the one before and is not in the table.\<close>

definition fresh_bytes :: "pixel \<Rightarrow> pixel \<Rightarrow> bytes" where
  "fresh_bytes q p =
     (case (q, p) of ((q0, q1, q2, q3), (p0, p1, p2, p3)) \<Rightarrow>
      if p3 = q3 then
        let dr = p0 - q0; dg = p1 - q1; db = p2 - q2;
            dr_dg = dr - dg; db_dg = db - dg
        in if sint dr \<in> {-2..1} \<and> sint dg \<in> {-2..1} \<and> sint db \<in> {-2..1}
           then [OP_DIFF OR push_bit 4 (dr + 2) OR push_bit 2 (dg + 2) OR (db + 2)]
           else if sint dg \<in> {-32..31} \<and> sint dr_dg \<in> {-8..7} \<and> sint db_dg \<in> {-8..7}
           then [OP_LUMA OR (dg + 32), push_bit 4 (dr_dg + 8) OR (db_dg + 8)]
           else [OP_RGB, p0, p1, p2]
      else [OP_RGBA, p0, p1, p2, p3])"

text \<open>One pass of the loop of \<^verbatim>\<open>encode\<close>, for pixel \<open>p\<close> at \<open>i\<close> of \<open>n\<close>.\<close>

definition encode_step :: "nat \<Rightarrow> nat \<Rightarrow> pixel \<Rightarrow> encoder \<Rightarrow> encoder option" where
  "encode_step n i p e =
     (if p = e_previous e then
        let run = e_run e + 1
        in if run = 62 \<or> i = n - 1
           then Some (e \<lparr> e_out := e_out e @ [OP_RUN OR word_of_nat (run - 1)], e_run := 0 \<rparr>)
           else Some (e \<lparr> e_run := run \<rparr>)
      else
        let e = (if e_run e > 0
                 then e \<lparr> e_out := e_out e @ [OP_RUN OR word_of_nat (e_run e - 1)], e_run := 0 \<rparr>
                 else e);
            h = qoi_hash p
        in do {
          q \<leftarrow> idx (e_index e) h;
          e \<leftarrow> (if q = p then Some (e \<lparr> e_out := e_out e @ [OP_INDEX OR word_of_nat h] \<rparr>)
               else do {
                 ix \<leftarrow> set_idx (e_index e) h p;
                 Some (e \<lparr> e_index := ix, e_out := e_out e @ fresh_bytes (e_previous e) p \<rparr>) });
          Some (e \<lparr> e_previous := p \<rparr>) })"

definition pixel_at :: "bytes \<Rightarrow> nat \<Rightarrow> nat \<Rightarrow> pixel option" where
  "pixel_at px step i = do {
     s \<leftarrow> slice px (i * step) (i * step + step);
     r \<leftarrow> idx s 0;
     g \<leftarrow> idx s 1;
     b \<leftarrow> idx s 2;
     a \<leftarrow> (if step = 4 then idx s 3 else Some 255);
     Some (r, g, b, a) }"

fun encode_loop :: "bytes \<Rightarrow> nat \<Rightarrow> nat \<Rightarrow> nat list \<Rightarrow> encoder \<Rightarrow> encoder option" where
  "encode_loop px step n [] e = Some e"
| "encode_loop px step n (i # is) e = do {
     p \<leftarrow> pixel_at px step i;
     e \<leftarrow> encode_step n i p e;
     encode_loop px step n is e }"

definition qoi_encode :: "bytes \<Rightarrow> u32 \<Rightarrow> u32 \<Rightarrow> u8 \<Rightarrow> bytes option" where
  "qoi_encode px w h ch =
     (let n = unat w * unat h; step = unat ch in
      if \<not> (ch = 3 \<or> ch = 4) \<or> length px \<noteq> n * step then None
      else do {
        e \<leftarrow> encode_loop px step n [0..<n]
               \<lparr> e_out = QOI_MAGIC @ be32 w @ be32 h @ [ch, 0], e_index = replicate 64 (0, 0, 0, 0),
                 e_previous = (0, 0, 0, 255), e_run = 0 \<rparr>;
        Some (e_out e @ END_MARKER) })"


section \<open>Decoding any bytes\<close>

text \<open>
  What holds of a decoder between two pixels: it stays inside its data, and once damaged it has
  nothing left to read.
\<close>

definition dec_ok :: "decoder \<Rightarrow> bool" where
  "dec_ok d \<longleftrightarrow> q_pos d \<le> q_end d \<and> q_end d \<le> length (q_data d) \<and> length (q_index d) = 64
     \<and> q_run d < 64 \<and> (q_damaged d \<longrightarrow> q_pos d = q_end d \<and> q_run d = 0)"

text \<open>Reading \<open>k\<close> times.\<close>

fun read_pixels :: "nat \<Rightarrow> decoder \<Rightarrow> (pixel option list \<times> decoder) option" where
  "read_pixels 0 d = Some ([], d)"
| "read_pixels (Suc k) d = do {
     (p, d) \<leftarrow> next_pixel d;
     (ps, d) \<leftarrow> read_pixels k d;
     Some (p # ps, d) }"

lemma qoi_hash_less [simp]: "qoi_hash p < 64"
  by (simp add: qoi_hash_def split: prod.split)

lemma dec_ok_new:
  assumes "decoder_new data = Inr d"
  shows "dec_ok d" "q_data d = data" "q_remaining d = pixels (q_header d)" "\<not> q_damaged d"
    "read_header data = Inr (q_header d)"
  using assms by (auto simp: decoder_new_def dec_ok_def read_header_def Let_def qoi_consts
      split: sum.splits if_splits)

lemma qoi_byte_ok:
  assumes "dec_ok d"
  shows "qoi_byte d = Some (if q_pos d < q_end d then (Some (q_data d ! q_pos d), d \<lparr> q_pos := q_pos d + 1 \<rparr>)
                            else (None, d))"
  using assms by (simp add: qoi_byte_def dec_ok_def idx_def)

lemma dec_ok_advance: "dec_ok d \<Longrightarrow> q_pos d < q_end d \<Longrightarrow> dec_ok (d \<lparr> q_pos := q_pos d + 1 \<rparr>)"
  by (auto simp: dec_ok_def)

lemma unat_and_3F: "unat (op AND 0x3F :: u8) < 64"
proof -
  have "op AND 0x3F = take_bit 6 op"
    by (simp add: take_bit_eq_mask mask_eq_exp_minus_1)
  then have "unat (op AND 0x3F) = take_bit 6 (unat op)" by (simp only: unsigned_take_bit_eq)
  then show ?thesis by (simp add: take_bit_eq_mod)
qed

lemma qoi_byte_at:
  assumes "dec_ok d" "k \<le> q_end d"
  shows "qoi_byte (d \<lparr> q_pos := k \<rparr>) =
    Some (if k < q_end d then (Some (q_data d ! k), d \<lparr> q_pos := k + 1 \<rparr>) else (None, d \<lparr> q_pos := k \<rparr>))"
  using assms by (simp add: qoi_byte_def dec_ok_def idx_def)

text \<open>An operation moves nothing but the position and the run.\<close>

definition moves :: "decoder \<Rightarrow> decoder \<Rightarrow> bool" where
  "moves d d' \<longleftrightarrow> q_data d' = q_data d \<and> q_end d' = q_end d \<and> q_header d' = q_header d
     \<and> q_index d' = q_index d \<and> q_previous d' = q_previous d \<and> q_remaining d' = q_remaining d
     \<and> q_damaged d' = q_damaged d \<and> q_pos d \<le> q_pos d' \<and> q_pos d' \<le> q_end d \<and> q_run d' < 64"

lemma qoi_op_total:
  assumes "dec_ok d" "q_run d = 0"
  shows "\<exists>p d'. qoi_op op d = Some (p, d') \<and> moves d d' \<and> (p = None \<longrightarrow> q_run d' = 0)"
proof -
  note ok = assms(1) [unfolded dec_ok_def]
  note byte = qoi_byte_ok [OF assms(1)] qoi_byte_at [OF assms(1)]
  show ?thesis
    using ok assms(2) unat_and_3F [of op]
    by (cases "q_previous d") (auto simp: qoi_op_def byte idx_def moves_def Let_def split: if_splits)
qed

lemma next_pixel_total:
  assumes "dec_ok d" "0 < q_remaining d"
  shows "\<exists>p d'. next_pixel d = Some (Some p, d') \<and> dec_ok d' \<and> q_previous d' = p
     \<and> q_remaining d' = q_remaining d - 1 \<and> q_data d' = q_data d \<and> q_header d' = q_header d
     \<and> (q_damaged d \<longrightarrow> q_damaged d' \<and> p = q_previous d)"
proof -
  let ?d = "d \<lparr> q_remaining := q_remaining d - 1 \<rparr>"
  have ok: "dec_ok ?d" using assms(1) by (simp add: dec_ok_def)
  consider (run) "0 < q_run d" | (spent) "q_run d = 0" "\<not> q_pos d < q_end d"
    | (op) "q_run d = 0" "q_pos d < q_end d"
    by blast
  then show ?thesis
  proof cases
    case run
    with assms show ?thesis by (auto simp: next_pixel_def dec_ok_def)
  next
    case spent
    with assms show ?thesis by (auto simp: next_pixel_def qoi_byte_def dec_ok_def)
  next
    case op
    let ?e = "?d \<lparr> q_pos := q_pos d + 1 \<rparr>"
    have undamaged: "\<not> q_damaged d" using assms(1) op by (auto simp: dec_ok_def)
    have eok: "dec_ok ?e" using ok op undamaged by (auto simp: dec_ok_def)
    obtain p d' where r: "qoi_op (q_data d ! q_pos d) ?e = Some (p, d')" "moves ?e d'"
        "p = None \<longrightarrow> q_run d' = 0"
      using qoi_op_total [OF eok, of "q_data d ! q_pos d"] op by auto
    have "qoi_byte ?d = Some (Some (q_data d ! q_pos d), ?e)"
      using qoi_byte_ok [OF ok] op by simp
    with r assms op undamaged eok show ?thesis
      by (cases p; cases "q_previous d") (auto simp: next_pixel_def moves_def dec_ok_def set_idx_def)
  qed
qed

lemma next_pixel_done: "q_remaining d = 0 \<Longrightarrow> next_pixel d = Some (None, d)"
  by (simp add: next_pixel_def)

lemma read_pixels_done: "q_remaining d = 0 \<Longrightarrow> read_pixels k d = Some (replicate k None, d)"
  by (induction k) (simp_all add: next_pixel_done)

lemma read_pixels_total:
  assumes "dec_ok d"
  shows "\<exists>ps d'. read_pixels k d = Some (map Some ps @ replicate (k - q_remaining d) None, d')
     \<and> length ps = min k (q_remaining d) \<and> dec_ok d' \<and> q_data d' = q_data d
     \<and> q_remaining d' = q_remaining d - k
     \<and> (q_damaged d \<longrightarrow> q_damaged d' \<and> set ps \<subseteq> {q_previous d})"
  using assms
proof (induction k arbitrary: d)
  case (Suc k)
  show ?case
  proof (cases "q_remaining d = 0")
    case True
    with Suc.prems show ?thesis by (auto simp: read_pixels_done next_pixel_done intro!: exI [of _ "[]"])
  next
    case False
    then obtain p d1 where n: "next_pixel d = Some (Some p, d1)" "dec_ok d1" "q_previous d1 = p"
        "q_remaining d1 = q_remaining d - 1" "q_data d1 = q_data d"
        "q_damaged d \<longrightarrow> q_damaged d1 \<and> p = q_previous d"
      using next_pixel_total [OF Suc.prems] by blast
    obtain ps d' where "read_pixels k d1 = Some (map Some ps @ replicate (k - q_remaining d1) None, d')"
        "length ps = min k (q_remaining d1)" "dec_ok d'" "q_data d' = q_data d1"
        "q_remaining d' = q_remaining d1 - k" "q_damaged d1 \<longrightarrow> q_damaged d' \<and> set ps \<subseteq> {q_previous d1}"
      using Suc.IH [OF n(2)] by blast
    with n False show ?thesis by (intro exI [of _ "p # ps"] exI [of _ d']) auto
  qed
qed simp

section \<open>Operation bytes\<close>

text \<open>Facts on the bits of an operation byte, by evaluation over the values of its fields.\<close>

lemma u8_below:
  assumes "(x :: u8) < word_of_nat m" "m < 256" "list_all P (map word_of_nat [0..<m])"
  shows "P x"
proof -
  have "unat x < m" using assms by (simp add: word_less_nat_alt unat_of_nat take_bit_eq_mod)
  then have "x \<in> set (map word_of_nat [0..<m])" by (auto intro!: image_eqI [of _ _ "unat x"])
  with assms(3) show ?thesis by (simp only: list_all_iff)
qed

lemma index_op:
  assumes "(x :: u8) < 64"
  shows "x AND 0xC0 = 0 \<and> x AND 0x3F = x \<and> x \<noteq> 0xFE \<and> x \<noteq> 0xFF"
  by (rule u8_below [of x 64]) (use assms in simp, simp, code_simp)

lemma luma_op:
  assumes "(x :: u8) < 64"
  shows "(0x80 OR x) AND 0xC0 = 0x80 \<and> (0x80 OR x) AND 0x3F = x \<and> 0x80 OR x \<noteq> 0xFE \<and> 0x80 OR x \<noteq> 0xFF"
  by (rule u8_below [of x 64]) (use assms in simp, simp, code_simp)

lemma run_op:
  assumes "(x :: u8) < 62"
  shows "(0xC0 OR x) AND 0xC0 = 0xC0 \<and> (0xC0 OR x) AND 0x3F = x \<and> 0xC0 OR x \<noteq> 0xFE \<and> 0xC0 OR x \<noteq> 0xFF"
  by (rule u8_below [of x 62]) (use assms in simp, simp, code_simp)

lemma diff_op:
  assumes "(x :: u8) < 4" "y < 4" "z < 4"
  defines "v \<equiv> 0x40 OR push_bit 4 x OR push_bit 2 y OR z"
  shows "v \<noteq> 0xFE \<and> v \<noteq> 0xFF \<and> v AND 0xC0 = 0x40 \<and> drop_bit 4 v AND 3 = x \<and> drop_bit 2 v AND 3 = y
    \<and> v AND 3 = z"
proof -
  have four: "w \<in> set [0, 1, 2, 3]" if "w < 4" for w :: u8
    by (rule u8_below [of w 4]) (use that in simp, simp, code_simp)
  have "\<forall>x \<in> set [0, 1, 2, 3 :: u8]. \<forall>y \<in> set [0, 1, 2, 3]. \<forall>z \<in> set [0, 1, 2, 3].
      let v = 0x40 OR push_bit 4 x OR push_bit 2 y OR z
      in v \<noteq> 0xFE \<and> v \<noteq> 0xFF \<and> v AND 0xC0 = 0x40 \<and> drop_bit 4 v AND 3 = x \<and> drop_bit 2 v AND 3 = y
         \<and> v AND 3 = z"
    by code_simp
  then show ?thesis
    unfolding v_def Let_def using four [OF assms(1)] four [OF assms(2)] four [OF assms(3)] by blast
qed

lemma nibbles:
  assumes "(x :: u8) < 16" "y < 16"
  shows "drop_bit 4 (push_bit 4 x OR y) = x \<and> (push_bit 4 x OR y) AND 0x0F = y"
proof -
  have "list_all (\<lambda>x. list_all (\<lambda>y. drop_bit 4 (push_bit 4 x OR y) = x \<and> (push_bit 4 x OR y) AND 0x0F = y)
      (map word_of_nat [0..<16])) (map word_of_nat [0..<16] :: u8 list)"
    by code_simp
  then have "list_all (\<lambda>y. drop_bit 4 (push_bit 4 x OR y) = x \<and> (push_bit 4 x OR y) AND 0x0F = y)
      (map word_of_nat [0..<16])"
    by (rule u8_below [of x 16, rotated 2]) (use assms in simp_all)
  then show ?thesis
    by (rule u8_below [of y 16, rotated 2]) (use assms in simp_all)
qed

lemma unat_signed_shift:
  assumes "sint (x :: u8) \<in> {- k..m}" "0 \<le> k" "m + k < 256"
  shows "unat (x + word_of_int k) = nat (sint x + k)"
proof -
  have "x + word_of_int k = word_of_int (sint x + k)" by simp
  moreover have "unat (word_of_int (sint x + k) :: u8) = nat (sint x + k)"
    using assms unfolding unsigned_of_int by (simp add: take_bit_eq_mod)
  ultimately show ?thesis by (simp only:)
qed

lemma signed_shift:
  "sint (x :: u8) \<in> {-2..1} \<Longrightarrow> x + 2 < 4"
  "sint (x :: u8) \<in> {-8..7} \<Longrightarrow> x + 8 < 16"
  "sint (x :: u8) \<in> {-32..31} \<Longrightarrow> x + 32 < 64"
  using unat_signed_shift [of x 2 1] unat_signed_shift [of x 8 7] unat_signed_shift [of x 32 31]
  by (auto simp: word_less_nat_alt)

section \<open>The stream ahead of a decoder\<close>

definition stream :: "decoder \<Rightarrow> bytes \<Rightarrow> bool" where
  "stream d bs \<longleftrightarrow> dec_ok d \<and> \<not> q_damaged d \<and> q_run d = 0 \<and> drop (q_pos d) (take (q_end d) (q_data d)) = bs"

lemma stream_remaining [simp]: "stream (d \<lparr> q_remaining := n \<rparr>) bs = stream d bs"
  by (simp add: stream_def dec_ok_def)

lemma stream_pixel: "stream d bs \<Longrightarrow>
    stream (d \<lparr> q_index := (q_index d)[i := p], q_previous := q \<rparr>) bs"
  by (simp add: stream_def dec_ok_def)

lemma stream_byte:
  assumes "stream d (b # bs)"
  shows "qoi_byte d = Some (Some b, d \<lparr> q_pos := q_pos d + 1 \<rparr>)"
    "stream (d \<lparr> q_pos := q_pos d + 1 \<rparr>) bs"
proof -
  from assms have ok: "dec_ok d" and ahead: "drop (q_pos d) (take (q_end d) (q_data d)) = b # bs"
    by (simp_all add: stream_def)
  let ?xs = "take (q_end d) (q_data d)"
  have len: "q_pos d < length ?xs" using arg_cong [OF ahead, of length] by (auto simp: min_def split: if_splits)
  then have "q_pos d < q_end d" "q_data d ! q_pos d = b" "drop (Suc (q_pos d)) ?xs = bs"
    using ahead Cons_nth_drop_Suc [OF len] by simp_all
  note p = this
  show "qoi_byte d = Some (Some b, d \<lparr> q_pos := q_pos d + 1 \<rparr>)" using ok p by (simp add: qoi_byte_ok)
  show "stream (d \<lparr> q_pos := q_pos d + 1 \<rparr>) bs"
    using p assms by (auto simp: stream_def dec_ok_def)
qed


lemma decode_fresh:
  assumes "stream d (tail @ rest)" "fresh_bytes (q_previous d) p = op # tail"
  shows "\<exists>d'. qoi_op op d = Some (Some p, d') \<and> stream d' rest \<and> d' = d \<lparr> q_pos := q_pos d' \<rparr>"
proof -
  obtain q0 q1 q2 q3 where q: "q_previous d = (q0, q1, q2, q3)" by (cases "q_previous d")
  obtain p0 p1 p2 p3 where p: "p = (p0, p1, p2, p3)" by (cases p)
  let ?dr = "p0 - q0" and ?dg = "p1 - q1" and ?db = "p2 - q2"
  let ?small = "sint ?dr \<in> {-2..1} \<and> sint ?dg \<in> {-2..1} \<and> sint ?db \<in> {-2..1}"
  let ?luma = "sint ?dg \<in> {-32..31} \<and> sint (?dr - ?dg) \<in> {-8..7} \<and> sint (?db - ?dg) \<in> {-8..7}"
  note fresh = assms(2) [unfolded fresh_bytes_def q p prod.case Let_def]
  consider (diff) "p3 = q3" ?small | (luma) "p3 = q3" "\<not> ?small" ?luma
    | (rgb) "p3 = q3" "\<not> ?small" "\<not> ?luma" | (rgba) "p3 \<noteq> q3" by blast
  then show ?thesis
  proof cases
    case diff
    then have "op = 0x40 OR push_bit 4 (?dr + 2) OR push_bit 2 (?dg + 2) OR (?db + 2)" "tail = []"
      using fresh by (simp_all only: if_P list.inject OP_DIFF_def simp_thms)
    with diff show ?thesis
      using assms(1) diff_op [of "?dr + 2" "?dg + 2" "?db + 2"] signed_shift(1)
      by (simp add: qoi_op_def q p qoi_consts)
  next
    case luma
    then have op: "op = 0x80 OR (?dg + 32)" "tail = [push_bit 4 (?dr - ?dg + 8) OR (?db - ?dg + 8)]"
      using fresh by (simp_all only: if_P if_not_P list.inject OP_LUMA_def simp_thms)
    note st = stream_byte [OF assms(1) [unfolded op append_Cons append_Nil]]
    show ?thesis
      unfolding op using luma st luma_op [of "?dg + 32"] nibbles [of "?dr - ?dg + 8" "?db - ?dg + 8"] signed_shift
      by (simp add: qoi_op_def q p qoi_consts)
  next
    case rgb
    then have op: "op = 0xFE" "tail = [p0, p1, p2]" using fresh by (simp_all only: if_P if_not_P list.inject OP_RGB_def simp_thms)
    note st1 = stream_byte [OF assms(1) [unfolded op append_Cons append_Nil]]
    note st2 = stream_byte [OF st1(2)]
    note st3 = stream_byte [OF st2(2)]
    show ?thesis unfolding op using rgb st1 st2 st3 by (simp add: qoi_op_def q p qoi_consts)
  next
    case rgba
    then have op: "op = 0xFF" "tail = [p0, p1, p2, p3]" using fresh by (simp_all only: if_P if_not_P list.inject OP_RGBA_def simp_thms)
    note st1 = stream_byte [OF assms(1) [unfolded op append_Cons append_Nil]]
    note st2 = stream_byte [OF st1(2)]
    note st3 = stream_byte [OF st2(2)]
    note st4 = stream_byte [OF st3(2)]
    show ?thesis unfolding op using rgba st1 st2 st3 st4 by (simp add: qoi_op_def q p qoi_consts)
  qed
qed

lemma next_pixel_op:
  assumes "stream d (op # bs)" "0 < q_remaining d"
    "qoi_op op (d \<lparr> q_remaining := q_remaining d - 1, q_pos := q_pos d + 1 \<rparr>) = Some (Some p, d')"
    "length (q_index d') = 64"
  shows "next_pixel d = Some (Some p, d' \<lparr> q_index := (q_index d')[qoi_hash p := p], q_previous := p \<rparr>)"
proof -
  let ?d = "d \<lparr> q_remaining := q_remaining d - 1 \<rparr>"
  have "stream ?d (op # bs)" using assms(1) by simp
  then have "qoi_byte ?d = Some (Some op, ?d \<lparr> q_pos := q_pos d + 1 \<rparr>)" by (drule_tac stream_byte(1)) simp
  moreover have "q_run d = 0" using assms(1) by (simp add: stream_def)
  ultimately show ?thesis using assms by (simp add: next_pixel_def set_idx_def)
qed

lemma read_pixels_add:
  "read_pixels (a + b) d = do {
     (xs, d) \<leftarrow> read_pixels a d;
     (ys, d) \<leftarrow> read_pixels b d;
     Some (xs @ ys, d) }"
  by (induction a arbitrary: d) (auto simp: Option.bind_assoc split_def)

lemma read_run:
  "q_run d = k \<Longrightarrow> k \<le> q_remaining d \<Longrightarrow> read_pixels k d =
     Some (replicate k (Some (q_previous d)), d \<lparr> q_run := 0, q_remaining := q_remaining d - k \<rparr>)"
proof (induction k arbitrary: d)
  case (Suc k)
  let ?d = "d \<lparr> q_remaining := q_remaining d - 1, q_run := k \<rparr>"
  have "next_pixel d = Some (Some (q_previous d), ?d)" using Suc.prems by (simp add: next_pixel_def)
  moreover have "read_pixels k ?d = Some (replicate k (Some (q_previous d)),
      ?d \<lparr> q_run := 0, q_remaining := q_remaining d - 1 - k \<rparr>)"
    using Suc.IH [of ?d] Suc.prems by simp
  ultimately show ?case using Suc.prems by simp
qed simp

lemma decode_run:
  assumes "stream d ((OP_RUN OR word_of_nat k) # rest)" "k < 62" "k < q_remaining d"
  defines "d' \<equiv> d \<lparr> q_pos := q_pos d + 1, q_remaining := q_remaining d - Suc k,
     q_index := (q_index d)[qoi_hash (q_previous d) := q_previous d] \<rparr>"
  shows "read_pixels (Suc k) d = Some (replicate (Suc k) (Some (q_previous d)), d')" "stream d' rest"
proof -
  let ?op = "OP_RUN OR word_of_nat k :: u8"
  let ?d = "d \<lparr> q_remaining := q_remaining d - 1, q_pos := q_pos d + 1 \<rparr>"
  let ?e = "?d \<lparr> q_run := k, q_index := (q_index d)[qoi_hash (q_previous d) := q_previous d],
                 q_previous := q_previous d \<rparr>"
  have "(word_of_nat k :: u8) < 62"
    using assms(2) by (simp add: word_less_nat_alt unat_of_nat take_bit_eq_mod)
  note op = run_op [OF this]
  moreover have "unat (word_of_nat k :: u8) = k"
    using assms(2) by (simp add: unat_of_nat take_bit_eq_mod)
  ultimately have "qoi_op ?op ?d = Some (Some (q_previous d), ?d \<lparr> q_run := k \<rparr>)"
    by (cases "q_previous d") (simp add: qoi_op_def qoi_consts)
  moreover have "length (q_index d) = 64" using assms(1) by (simp add: stream_def dec_ok_def)
  ultimately have "next_pixel d = Some (Some (q_previous d), ?e)"
    using next_pixel_op [OF assms(1)] assms(3) by simp
  moreover have "read_pixels k ?e = Some (replicate k (Some (q_previous d)),
      ?e \<lparr> q_run := 0, q_remaining := q_remaining d - Suc k \<rparr>)"
    using read_run [of ?e k] assms(3) by simp
  moreover have "q_run d = 0" using assms(1) by (simp add: stream_def)
  ultimately show "read_pixels (Suc k) d = Some (replicate (Suc k) (Some (q_previous d)), d')"
    by (simp add: d'_def)
  show "stream d' rest"
    using stream_byte(2) [OF assms(1)] by (simp add: d'_def stream_def dec_ok_def)
qed

section \<open>Encoder and decoder in step\<close>

text \<open>
  The encoder's table names the last pixel, except before the first; whatever the encoder finds in
  its table the decoder has too.  (The tables need not be equal: the decoder enters the initial pixel
  when a picture starts with a run of it, the encoder does not.)
\<close>

definition enc_ok :: "encoder \<Rightarrow> bool" where
  "enc_ok e \<longleftrightarrow> length (e_index e) = 64 \<and> e_run e < 62
     \<and> (e_index e ! qoi_hash (e_previous e) = e_previous e
        \<or> e_previous e = (0, 0, 0, 255) \<and> e_index e = replicate 64 (0, 0, 0, 0))"

definition agree :: "encoder \<Rightarrow> decoder \<Rightarrow> bool" where
  "agree e d \<longleftrightarrow> q_previous d = e_previous e \<and> length (q_index d) = 64
     \<and> (\<forall>p. e_index e ! qoi_hash p = p \<longrightarrow> q_index d ! qoi_hash p = p)"

definition run_bytes :: "nat \<Rightarrow> bytes" where
  "run_bytes k = (if k = 0 then [] else [OP_RUN OR word_of_nat (k - 1)])"

definition pixel_bytes :: "encoder \<Rightarrow> pixel \<Rightarrow> bytes" where
  "pixel_bytes e p =
     (if e_index e ! qoi_hash p = p then [OP_INDEX OR word_of_nat (qoi_hash p)]
      else fresh_bytes (e_previous e) p)"

lemma encode_step_new:
  assumes "enc_ok e" "p \<noteq> e_previous e"
  shows "encode_step n i p e = Some (e \<lparr> e_out := e_out e @ run_bytes (e_run e) @ pixel_bytes e p,
     e_index := (e_index e)[qoi_hash p := p], e_previous := p, e_run := 0 \<rparr>)"
proof -
  have "length (e_index e) = 64" using assms(1) by (simp add: enc_ok_def)
  with assms(2) show ?thesis
    by (cases e) (auto simp: encode_step_def run_bytes_def pixel_bytes_def idx_def set_idx_def
        list_update_same_conv [THEN iffD2, symmetric])
qed

lemma enc_ok_new: "enc_ok e \<Longrightarrow> enc_ok (e \<lparr> e_out := bs, e_index := (e_index e)[qoi_hash p := p],
     e_previous := p, e_run := 0 \<rparr>)"
  by (simp add: enc_ok_def)

lemma agree_run:
  assumes "enc_ok e" "agree e d"
  shows "agree e (d \<lparr> q_pos := a, q_remaining := b,
    q_index := (q_index d)[qoi_hash (q_previous d) := q_previous d] \<rparr>)"
proof -
  have "q = e_previous e"
    if "e_index e ! qoi_hash q = q" "qoi_hash q = qoi_hash (e_previous e)" for q
    using assms(1) that by (auto simp: enc_ok_def) (simp add: qoi_hash_def)
  then show ?thesis using assms by (auto simp: agree_def nth_list_update)
qed

lemma decode_pixel:
  assumes "enc_ok e" "agree e d" "stream d (pixel_bytes e p @ rest)" "0 < q_remaining d"
  shows "\<exists>d'. next_pixel d = Some (Some p, d') \<and> stream d' rest \<and> q_remaining d' = q_remaining d - 1
    \<and> agree (e \<lparr> e_out := bs, e_index := (e_index e)[qoi_hash p := p], e_previous := p, e_run := 0 \<rparr>) d'"
proof -
  have "pixel_bytes e p \<noteq> []"
    by (simp add: pixel_bytes_def fresh_bytes_def Let_def split: prod.split)
  then obtain op tail where b: "pixel_bytes e p = op # tail" by (cases "pixel_bytes e p") auto
  let ?d = "d \<lparr> q_remaining := q_remaining d - 1, q_pos := q_pos d + 1 \<rparr>"
  have st: "stream ?d (tail @ rest)"
    using stream_byte(2) [OF assms(3) [unfolded b append_Cons]] stream_remaining by fastforce
  have "\<exists>d'. qoi_op op ?d = Some (Some p, d') \<and> stream d' rest \<and> d' = ?d \<lparr> q_pos := q_pos d' \<rparr>"
  proof (cases "e_index e ! qoi_hash p = p")
    case True
    then have "op = OP_INDEX OR word_of_nat (qoi_hash p)" "tail = []"
      using b by (simp_all add: pixel_bytes_def)
    moreover have "(word_of_nat (qoi_hash p) :: u8) < 64" "unat (word_of_nat (qoi_hash p) :: u8) = qoi_hash p"
      using qoi_hash_less [of p] by (simp_all add: word_less_nat_alt unat_of_nat take_bit_eq_mod mod_less [OF less_trans [OF qoi_hash_less]])
    moreover have "q_index d ! qoi_hash p = p" "length (q_index d) = 64"
      using True assms(2) by (simp_all only: agree_def)
    ultimately show ?thesis
      using st index_op [of "word_of_nat (qoi_hash p)"]
      by (cases "q_previous d") (simp add: qoi_op_def qoi_consts idx_def)
  next
    case False
    then have "fresh_bytes (q_previous ?d) p = op # tail"
      using b assms(2) by (simp add: pixel_bytes_def agree_def)
    with st show ?thesis by (rule decode_fresh)
  qed
  then obtain d' where d': "qoi_op op ?d = Some (Some p, d')" "stream d' rest" "d' = ?d \<lparr> q_pos := q_pos d' \<rparr>"
    by blast
  have fields: "q_index d' = q_index d" "q_remaining d' = q_remaining d - 1"
    by (subst d'(3), simp)+
  have n: "next_pixel d = Some (Some p, d' \<lparr> q_index := (q_index d')[qoi_hash p := p], q_previous := p \<rparr>)"
    using next_pixel_op [OF assms(3) [unfolded b append_Cons] assms(4) d'(1)] fields assms(2)
    by (simp add: agree_def)
  show ?thesis
    using n stream_pixel [OF d'(2)] fields assms(1,2)
    by (auto simp: agree_def enc_ok_def nth_list_update)
qed


fun encode_pixels :: "nat \<Rightarrow> nat \<Rightarrow> pixel list \<Rightarrow> encoder \<Rightarrow> encoder option" where
  "encode_pixels n i [] e = Some e"
| "encode_pixels n i (p # ps) e = do { e \<leftarrow> encode_step n i p e; encode_pixels n (Suc i) ps e }"

text \<open>\<open>bs\<close> decodes, after the run still open at \<open>e\<close>, to the pixels \<open>ps\<close>.\<close>

definition decodes :: "encoder \<Rightarrow> bytes \<Rightarrow> pixel list \<Rightarrow> bool" where
  "decodes e bs ps \<longleftrightarrow> (\<forall>d rest. agree e d \<and> stream d (bs @ rest) \<and> e_run e + length ps \<le> q_remaining d \<longrightarrow>
     (\<exists>d'. read_pixels (e_run e + length ps) d
             = Some (map Some (replicate (e_run e) (e_previous e) @ ps), d')
         \<and> stream d' rest \<and> q_remaining d' = q_remaining d - (e_run e + length ps)))"

lemma decodes_flush:
  assumes "enc_ok e" "0 < k" "k \<le> 62" "decodes (e \<lparr> e_out := x, e_run := 0 \<rparr>) bs ps"
    "agree e d" "stream d (run_bytes k @ bs @ rest)" "k + length ps \<le> q_remaining d"
  shows "\<exists>d'. read_pixels (k + length ps) d = Some (map Some (replicate k (e_previous e) @ ps), d')
     \<and> stream d' rest \<and> q_remaining d' = q_remaining d - (k + length ps)"
proof -
  let ?e = "e \<lparr> e_out := x, e_run := 0 \<rparr>"
  let ?d = "d \<lparr> q_pos := q_pos d + 1, q_remaining := q_remaining d - Suc (k - 1),
     q_index := (q_index d)[qoi_hash (q_previous d) := q_previous d] \<rparr>"
  have "stream d ((OP_RUN OR word_of_nat (k - 1)) # bs @ rest)"
    using assms(2,6) by (simp add: run_bytes_def)
  note run = decode_run [OF this]
  have "read_pixels k d = Some (replicate k (Some (e_previous e)), ?d)"
    using run(1) assms by (simp add: agree_def)
  moreover have "stream ?d (bs @ rest)" using run(2) assms by simp
  moreover have "agree ?e ?d" using agree_run [OF assms(1,5)] by (auto simp: agree_def)
  ultimately show ?thesis
    using assms(4) assms(2,7) unfolding decodes_def
    by (auto simp: read_pixels_add map_replicate dest!: spec [of _ ?d] spec [of _ rest])
qed

lemma decodes_pixel:
  assumes "enc_ok e" "e_run e = 0" "agree e d" "stream d (pixel_bytes e p @ bs @ rest)"
    "decodes (e \<lparr> e_out := x, e_index := (e_index e)[qoi_hash p := p], e_previous := p, e_run := 0 \<rparr>) bs ps"
    "Suc (length ps) \<le> q_remaining d"
  shows "\<exists>d'. read_pixels (Suc (length ps)) d = Some (map Some (p # ps), d')
     \<and> stream d' rest \<and> q_remaining d' = q_remaining d - Suc (length ps)"
proof -
  let ?e = "e \<lparr> e_out := x, e_index := (e_index e)[qoi_hash p := p], e_previous := p, e_run := 0 \<rparr>"
  obtain d1 where d1: "next_pixel d = Some (Some p, d1)" "stream d1 (bs @ rest)"
      "q_remaining d1 = q_remaining d - 1" "agree ?e d1"
    using decode_pixel [OF assms(1,3,4), of x] assms(6) by auto
  then obtain d' where "read_pixels (length ps) d1 = Some (map Some ps, d')" "stream d' rest"
      "q_remaining d' = q_remaining d1 - length ps"
    using assms(5,6) unfolding decodes_def by (auto dest!: spec [of _ d1] spec [of _ rest])
  with d1 show ?thesis by auto
qed


lemma encode_pixels_decodes:
  assumes "enc_ok e" "i + length ps = n" "ps = [] \<longrightarrow> e_run e = 0"
  shows "\<exists>e' bs. encode_pixels n i ps e = Some e' \<and> e_out e' = e_out e @ bs
     \<and> length bs \<le> 5 * (e_run e + length ps) \<and> decodes e bs ps"
  using assms
proof (induction ps arbitrary: i e)
  case Nil
  then show ?case by (auto simp: decodes_def)
next
  case (Cons p ps)
  consider (flush) "p = e_previous e" "e_run e + 1 = 62 \<or> i = n - 1"
    | (longer) "p = e_previous e" "e_run e + 1 \<noteq> 62" "i \<noteq> n - 1"
    | (new) "p \<noteq> e_previous e" by blast
  then show ?case
  proof cases
    case flush
    let ?x = "e_out e @ run_bytes (e_run e + 1)"
    let ?e = "e \<lparr> e_out := ?x, e_run := 0 \<rparr>"
    have step: "encode_step n i p e = Some ?e" using flush by (simp add: encode_step_def run_bytes_def)
    have "enc_ok ?e" using Cons.prems(1) by (simp add: enc_ok_def)
    then obtain e' bs where e': "encode_pixels n (Suc i) ps ?e = Some e'" "e_out e' = ?x @ bs"
        "length bs \<le> 5 * length ps" "decodes ?e bs ps"
      using Cons.IH [of ?e "Suc i"] Cons.prems(2) by auto
    have "decodes e (run_bytes (e_run e + 1) @ bs) (p # ps)"
      unfolding decodes_def
      using decodes_flush [OF Cons.prems(1) _ _ e'(4), of "e_run e + 1"] Cons.prems(1) flush(1)
      by (simp add: enc_ok_def replicate_app_Cons_same)
    then show ?thesis using step e' by (intro exI [of _ e'] exI [of _ "run_bytes (e_run e + 1) @ bs"])
      (simp add: run_bytes_def)
  next
    case longer
    let ?e = "e \<lparr> e_run := e_run e + 1 \<rparr>"
    have step: "encode_step n i p e = Some ?e" using longer by (simp add: encode_step_def Let_def)
    have "enc_ok ?e" using Cons.prems(1) longer by (simp add: enc_ok_def)
    moreover have "ps \<noteq> []" using longer Cons.prems(2) by auto
    ultimately obtain e' bs where "encode_pixels n (Suc i) ps ?e = Some e'" "e_out e' = e_out e @ bs"
        "length bs \<le> 5 * (e_run e + 1 + length ps)" "decodes ?e bs ps"
      using Cons.IH [of ?e "Suc i"] Cons.prems(2) by auto
    with step longer(1) show ?thesis
      by (intro exI [of _ e'] exI [of _ bs]) (simp add: decodes_def agree_def replicate_app_Cons_same)
  next
    case new
    let ?x = "e_out e @ run_bytes (e_run e) @ pixel_bytes e p"
    let ?e = "e \<lparr> e_out := ?x, e_index := (e_index e)[qoi_hash p := p], e_previous := p, e_run := 0 \<rparr>"
    have step: "encode_step n i p e = Some ?e" by (rule encode_step_new [OF Cons.prems(1) new])
    have "enc_ok ?e" by (rule enc_ok_new [OF Cons.prems(1)])
    then obtain e' bs where e': "encode_pixels n (Suc i) ps ?e = Some e'" "e_out e' = ?x @ bs"
        "length bs \<le> 5 * length ps" "decodes ?e bs ps"
      using Cons.IH [of ?e "Suc i"] Cons.prems(2) by auto
    let ?e0 = "e \<lparr> e_out := e_out e, e_run := 0 \<rparr>"
    have e0: "enc_ok ?e0" using Cons.prems(1) by (simp add: enc_ok_def)
    have head: "decodes ?e0 (pixel_bytes e p @ bs) (p # ps)"
      unfolding decodes_def
      using decodes_pixel [OF e0, of _ p bs _ ?x ps] e'(4) by (simp add: pixel_bytes_def)
    have "decodes e (run_bytes (e_run e) @ pixel_bytes e p @ bs) (p # ps)"
    proof (cases "e_run e = 0")
      case True
      then have "?e0 = e" by simp
      from head [unfolded this] True show ?thesis by (simp add: run_bytes_def)
    next
      case False
      then show ?thesis
        unfolding decodes_def using decodes_flush [OF Cons.prems(1) _ _ head, of "e_run e"] Cons.prems(1)
        by (simp add: enc_ok_def)
    qed
    moreover have "length (pixel_bytes e p) \<le> 5"
      by (simp add: pixel_bytes_def fresh_bytes_def Let_def split: prod.split)
    ultimately show ?thesis using step e'
      by (intro exI [of _ e'] exI [of _ "run_bytes (e_run e) @ pixel_bytes e p @ bs"])
        (auto simp: run_bytes_def)
  qed
qed

section \<open>Whole pictures\<close>

lemma pixel_at_Some:
  assumes "step = 3 \<or> step = 4" "i < n" "length px = n * step"
  shows "\<exists>p. pixel_at px step i = Some p"
proof -
  have "i * step + step \<le> n * step" using mult_le_mono1 [of "Suc i" n step] assms(2) by simp
  then have "length (sub px (i * step) step) = step" using assms(3) by simp
  moreover from this have "sub px (i * step) step \<noteq> []" using assms(1) by auto
  ultimately show ?thesis
    using assms \<open>i * step + step \<le> n * step\<close> by (auto simp: pixel_at_def slice_sub idx_def)
qed

lemma encode_loop_pixels:
  assumes "\<And>j. j < n \<Longrightarrow> pixel_at px step j = Some (f j)" "i \<le> n"
  shows "encode_loop px step n [i..<n] e = encode_pixels n i (map f [i..<n]) e"
  using assms(2)
proof (induction "n - i" arbitrary: i e)
  case (Suc k)
  then have "i < n" by simp
  then have "[i..<n] = i # [Suc i..<n]" by (simp add: upt_conv_Cons)
  moreover have "encode_loop px step n [Suc i..<n] = encode_pixels n (Suc i) (map f [Suc i..<n])"
    using Suc \<open>i < n\<close> by (intro ext) simp
  ultimately show ?case using assms(1) [OF \<open>i < n\<close>] by simp
qed simp

lemma of_be32_be32 [simp]: "of_be32 (be32 v) = v"
  by (simp add: of_be32_def be32_def)

lemma length_be32 [simp]: "length (be32 v) = 4"
  by (simp add: be32_def)

lemma four_bytes: "length (b :: bytes) = 4 \<Longrightarrow> b = [b ! 0, b ! 1, b ! 2, b ! 3]"
  by (auto simp: length_Suc_conv eval_nat_numeral)

lemma read_header_written:
  assumes "ch = 3 \<or> ch = 4" "w \<noteq> 0" "h \<noteq> 0" "unat w * unat h \<le> MAX_PIXELS"
  shows "read_header (QOI_MAGIC @ be32 w @ be32 h @ [ch, 0] @ rest) =
    Inr \<lparr> width = w, height = h, channels = ch, colorspace = 0 \<rparr>"
proof -
  obtain a b c d where w: "be32 w = [a, b, c, d]" using four_bytes [OF length_be32] by blast
  obtain a' b' c' d' where h: "be32 h = [a', b', c', d']" using four_bytes [OF length_be32] by blast
  have "of_be32 [a, b, c, d] = w" "of_be32 [a', b', c', d'] = h"
    using of_be32_be32 [of w] of_be32_be32 [of h] unfolding w h .
  with assms show ?thesis
    by (auto simp: read_header_def w h QOI_MAGIC_def HEADER_LEN_def pixels_def Let_def)
qed

lemma decoder_new_written:
  assumes "ch = 3 \<or> ch = 4" "w \<noteq> 0" "h \<noteq> 0" "unat w * unat h \<le> MAX_PIXELS"
  shows "\<exists>d. decoder_new ((QOI_MAGIC @ be32 w @ be32 h @ [ch, 0]) @ bs @ END_MARKER) = Inr d
    \<and> q_header d = \<lparr> width = w, height = h, channels = ch, colorspace = 0 \<rparr> \<and> stream d bs
    \<and> q_remaining d = unat w * unat h \<and> q_index d = replicate 64 (0, 0, 0, 0) \<and> q_previous d = (0, 0, 0, 255)"
proof -
  let ?hd = "QOI_MAGIC @ be32 w @ be32 h @ [ch, 0]"
  have "length ?hd = 14" by (simp add: QOI_MAGIC_def)
  moreover have "read_header (?hd @ bs @ END_MARKER) = Inr \<lparr> width = w, height = h, channels = ch, colorspace = 0 \<rparr>"
    using read_header_written [OF assms, of "bs @ END_MARKER"] by simp
  moreover have "length END_MARKER = 8" by (simp add: END_MARKER_def)
  ultimately show ?thesis
    by (simp only: decoder_new_def sum.case HEADER_LEN_def) (simp add: stream_def dec_ok_def pixels_def)
qed

lemma qoi_decode_encode:
  assumes "ch = 3 \<or> ch = 4" "w \<noteq> 0" "h \<noteq> 0" "unat w * unat h \<le> MAX_PIXELS"
    "length px = unat w * unat h * unat ch"
  defines "n \<equiv> unat w * unat h"
  shows "\<exists>out ps d d'. qoi_encode px w h ch = Some out \<and> length out \<le> 22 + 5 * n \<and> decoder_new out = Inr d
    \<and> q_header d = \<lparr> width = w, height = h, channels = ch, colorspace = 0 \<rparr>
    \<and> length ps = n \<and> (\<forall>i < n. pixel_at px (unat ch) i = Some (ps ! i))
    \<and> read_pixels n d = Some (map Some ps, d') \<and> next_pixel d' = Some (None, d')
    \<and> \<not> q_damaged d' \<and> q_pos d' = q_end d'"
proof -
  define f where "f j = the (pixel_at px (unat ch) j)" for j
  have step: "unat ch = 3 \<or> unat ch = 4" using assms(1) by auto
  have f: "pixel_at px (unat ch) j = Some (f j)" if "j < n" for j
    using pixel_at_Some [OF step that] assms(5) unfolding f_def n_def by auto
  let ?hd = "QOI_MAGIC @ be32 w @ be32 h @ [ch, 0]"
  let ?e = "\<lparr> e_out = ?hd, e_index = replicate 64 (0, 0, 0, 0), e_previous = (0, 0, 0, 255), e_run = 0 \<rparr>"
  let ?ps = "map f [0..<n]"
  have "enc_ok ?e" by (simp add: enc_ok_def)
  then obtain e' bs where e': "encode_pixels n 0 ?ps ?e = Some e'" "e_out e' = ?hd @ bs" "length bs \<le> 5 * n"
      "decodes ?e bs ?ps"
    using encode_pixels_decodes [of ?e 0 ?ps n] by auto
  obtain d where d: "decoder_new (?hd @ bs @ END_MARKER) = Inr d" "stream d bs" "q_remaining d = n"
      "q_header d = \<lparr> width = w, height = h, channels = ch, colorspace = 0 \<rparr>"
      "q_index d = replicate 64 (0, 0, 0, 0)" "q_previous d = (0, 0, 0, 255)"
    using decoder_new_written [OF assms(1-4), of bs] n_def by auto
  then have "agree ?e d" by (simp add: agree_def)
  then obtain d' where d': "read_pixels n d = Some (map Some ?ps, d')" "stream d' []" "q_remaining d' = 0"
    using e'(4) d unfolding decodes_def by (auto dest!: spec [of _ d] spec [of _ "[]"])
  have "qoi_encode px w h ch = Some (?hd @ bs @ END_MARKER)"
    using e' encode_loop_pixels [OF f, where i = 0 and e = ?e] assms(1,5) by (auto simp: qoi_encode_def n_def Let_def)
  moreover have "q_pos d' = q_end d'" using d'(2) by (auto simp: stream_def dec_ok_def)
  moreover have "next_pixel d' = Some (None, d')" using d'(3) by (rule next_pixel_done)
  moreover have "\<not> q_damaged d'" using d'(2) by (simp add: stream_def)
  ultimately show ?thesis using d d' f e'(3)
    by (intro exI [of _ "?hd @ bs @ END_MARKER"] exI [of _ ?ps] exI [of _ d] exI [of _ d'])
      (simp add: QOI_MAGIC_def END_MARKER_def)
qed

text \<open>
  C28: a picture survives its encoding.  For every picture of acceptable size and matching buffer the
  encoder returns a file of at most five bytes a pixel besides header and end marker, the decoder
  accepts it with the dimensions given, and reading it yields exactly the pixels of the buffer in
  order, undamaged, consuming the whole stream.
\<close>

theorem qoi_round_trip:
  assumes "ch = 3 \<or> ch = 4" "w \<noteq> 0" "h \<noteq> 0" "unat w * unat h \<le> MAX_PIXELS"
    "length px = unat w * unat h * unat ch"
  shows "\<exists>out ps d d'. qoi_encode px w h ch = Some out \<and> length out \<le> 22 + 5 * (unat w * unat h)
    \<and> decoder_new out = Inr d
    \<and> q_header d = \<lparr> width = w, height = h, channels = ch, colorspace = 0 \<rparr>
    \<and> length ps = unat w * unat h \<and> (\<forall>i < unat w * unat h. pixel_at px (unat ch) i = Some (ps ! i))
    \<and> read_pixels (unat w * unat h) d = Some (map Some ps, d') \<and> next_pixel d' = Some (None, d')
    \<and> \<not> q_damaged d' \<and> q_pos d' = q_end d'"
  using assms by (rule qoi_decode_encode)

theorem qoi_round_trip_witness:
  "\<exists>out ps d d'. qoi_encode [1, 2, 3, 1, 2, 4] 2 1 3 = Some out \<and> length out \<le> 22 + 5 * 2
    \<and> decoder_new out = Inr d \<and> length ps = 2
    \<and> read_pixels 2 d = Some (map Some ps, d') \<and> \<not> q_damaged d'"
  using qoi_round_trip [of 3 2 1 "[1, 2, 3, 1, 2, 4]"] by (auto simp: MAX_PIXELS_def)

text \<open>
  C29: the decoder on hostile data.  Whatever the bytes, once the header is accepted any number of
  reads succeeds without leaving the data: the first \<^verbatim>\<open>width * height\<close> of them hand out pixels, the
  rest nothing; and a stream found damaged repeats its last pixel from then on.
\<close>

theorem qoi_decoder_total:
  assumes "decoder_new data = Inr d"
  shows "\<exists>ps d'. read_pixels k d = Some (map Some ps @ replicate (k - pixels (q_header d)) None, d')
    \<and> length ps = min k (pixels (q_header d)) \<and> q_data d' = data \<and> q_pos d' \<le> length data
    \<and> (q_damaged d' \<longrightarrow> (\<forall>m. \<exists>qs d''. read_pixels m d' =
          Some (map Some qs @ replicate (m - q_remaining d') None, d'') \<and> set qs \<subseteq> {q_previous d'}))"
proof -
  note new = dec_ok_new [OF assms]
  obtain ps d' where d': "read_pixels k d = Some (map Some ps @ replicate (k - q_remaining d) None, d')"
      "length ps = min k (q_remaining d)" "dec_ok d'" "q_data d' = q_data d"
    using read_pixels_total [OF new(1)] by blast
  have "\<exists>qs d''. read_pixels m d' = Some (map Some qs @ replicate (m - q_remaining d') None, d'')
      \<and> set qs \<subseteq> {q_previous d'}" if "q_damaged d'" for m
    using read_pixels_total [OF d'(3), of m] that by blast
  moreover have "q_pos d' \<le> length data" using d'(3,4) new(2) by (simp add: dec_ok_def)
  ultimately show ?thesis using d' new by auto
qed

theorem qoi_decoder_total_witness:
  "\<exists>d ps d'. decoder_new (QOI_MAGIC @ [0, 0, 0, 1, 0, 0, 0, 3, 4, 0, 0xFE, 9]) = Inr d
    \<and> read_pixels 5 d = Some (map Some ps @ replicate 2 None, d') \<and> length ps = 3"
proof -
  let ?data = "QOI_MAGIC @ [0, 0, 0, 1, 0, 0, 0, 3, 4, 0, 0xFE, 9]"
  let ?h = "\<lparr> width = 1, height = 3, channels = 4, colorspace = 0 \<rparr>"
  have "read_header ?data = Inr ?h"
    by (simp add: read_header_def QOI_MAGIC_def HEADER_LEN_def Let_def of_be32_def of_le32_def of_le16_def
        pixels_def MAX_PIXELS_def)
  then obtain d where "decoder_new ?data = Inr d" "q_header d = ?h"
    by (auto simp: decoder_new_def Let_def)
  then show ?thesis using qoi_decoder_total [of ?data d 5] by (auto simp: pixels_def)
qed

end
