(* ===== verification/Base64.thy ===== *)
theory Base64
  imports Bytes
begin

text \<open>
  Base64, \<^verbatim>\<open>nanochrono-core/src/ncpkg/base64.rs\<close>: the text form of signatures and public keys in a
  package manifest.  A text is its bytes; a buffer the caller provides is its capacity.  A panic (the
  subtraction \<^verbatim>\<open>3 - pad\<close> below zero) is the outer \<open>None\<close> of the decoder.  The result is that the
  decoder accepts exactly the encoder's output: a byte string has one spelling.
\<close>

definition ALPHABET :: bytes where
  "ALPHABET = map word_of_nat ([65..<91] @ [97..<123] @ [48..<58] @ [43, 47])"

abbreviation PAD :: u8 where
  "PAD \<equiv> 0x3D"

definition value_of :: "u8 \<Rightarrow> u32 option" where
  "value_of c =
     (if 65 \<le> c \<and> c \<le> 90 then Some (ucast (c - 65))
      else if 97 \<le> c \<and> c \<le> 122 then Some (ucast (c - 97 + 26))
      else if 48 \<le> c \<and> c \<le> 57 then Some (ucast (c - 48 + 52))
      else if c = 43 then Some 62
      else if c = 47 then Some 63
      else None)"

definition decoded_len :: "bytes \<Rightarrow> nat option" where
  "decoded_len text =
     (if length text mod 4 \<noteq> 0 then None
      else let pad = length (takeWhile (\<lambda>c. c = PAD) (rev text))
           in if pad > 2 then None else Some (length text div 4 * 3 - pad))"

text \<open>\<^verbatim>\<open>for &c in &quad[..4 - pad] { acc = (acc << 6) | value(c)?; }\<close>\<close>

fun gather :: "bytes \<Rightarrow> u32 \<Rightarrow> u32 option" where
  "gather [] acc = Some acc"
| "gather (c # cs) acc = do { v \<leftarrow> value_of c; gather cs (push_bit 6 acc OR v) }"

text \<open>One quad: the bytes it stands for, \<open>Some None\<close> for a malformed one.\<close>

definition decode_quad :: "bool \<Rightarrow> bytes \<Rightarrow> bytes option option" where
  "decode_quad final quad =
     (let pad = (if final then length (filter (\<lambda>c. c = PAD) quad) else 0) in
      if \<not> final \<and> PAD \<in> set quad \<or> PAD \<in> set (take (4 - pad) quad) then Some None
      else case gather (take (4 - pad) quad) 0 of
        None \<Rightarrow> Some None
      | Some acc \<Rightarrow>
          let acc = push_bit (6 * pad) acc;
              bs = [ucast (drop_bit 16 acc), ucast (drop_bit 8 acc), ucast acc] :: bytes
          in if pad > 3 then None
             else if pad > 0 \<and> list_ex (\<lambda>b. b \<noteq> 0) (drop (3 - pad) bs) then Some None
             else Some (Some (take (3 - pad) bs)))"

text \<open>The loop over \<^verbatim>\<open>text.chunks_exact(4)\<close>: \<open>m\<close> quads in all, \<open>i\<close> done, \<open>n\<close> the output's length.\<close>

function decode_loop :: "nat \<Rightarrow> nat \<Rightarrow> nat \<Rightarrow> bytes \<Rightarrow> bytes \<Rightarrow> bytes option option" where
  "decode_loop m n i text out =
     (if length text < 4 then Some (Some out)
      else case decode_quad (i = m - 1) (take 4 text) of
        None \<Rightarrow> None
      | Some None \<Rightarrow> Some None
      | Some (Some bs) \<Rightarrow>
          if length out + length bs \<le> n then decode_loop m n (i + 1) (drop 4 text) (out @ bs)
          else Some None)"
  by pat_completeness auto
termination by (relation "measure (\<lambda>(_, _, _, text, _). length text)") auto

definition base64_decode :: "bytes \<Rightarrow> nat \<Rightarrow> bytes option option" where
  "base64_decode text cap =
     (case decoded_len text of
        None \<Rightarrow> Some None
      | Some n \<Rightarrow> if n > cap then Some None else decode_loop (length text div 4) n 0 text [])"

definition encoded_len :: "nat \<Rightarrow> nat" where
  "encoded_len n = (n + 2) div 3 * 4"

text \<open>One chunk of at most three bytes as four characters.\<close>

definition encode_chunk :: "bytes \<Rightarrow> bytes" where
  "encode_chunk chunk =
     (let b0 = chunk ! 0;
          b1 = (if 1 < length chunk then chunk ! 1 else 0);
          b2 = (if 2 < length chunk then chunk ! 2 else 0);
          acc = (push_bit 16 (ucast b0) OR push_bit 8 (ucast b1) OR ucast b2) :: u32
      in map (\<lambda>j. if j \<le> length chunk then ALPHABET ! unat (drop_bit (18 - 6 * j) acc AND 63) else PAD)
           [0..<4])"

function encode_loop64 :: "bytes \<Rightarrow> bytes" where
  "encode_loop64 data = (if data = [] then [] else encode_chunk (take 3 data) @ encode_loop64 (drop 3 data))"
  by pat_completeness auto
termination by (relation "measure length") auto

definition base64_encode :: "bytes \<Rightarrow> nat \<Rightarrow> bytes option" where
  "base64_encode data cap = (if encoded_len (length data) > cap then None else Some (encode_loop64 data))"

definition encode_string :: "bytes \<Rightarrow> bytes" where
  "encode_string data =
     (case base64_encode data (encoded_len (length data)) of None \<Rightarrow> [] | Some t \<Rightarrow> t)"

definition decode_vec :: "bytes \<Rightarrow> bytes option option" where
  "decode_vec text = (case decoded_len text of None \<Rightarrow> Some None | Some n \<Rightarrow> base64_decode text n)"

declare decode_loop.simps [simp del] encode_loop64.simps [simp del]

section \<open>Characters and values\<close>

lemma alphabet_value: "i < 64 \<Longrightarrow> value_of (ALPHABET ! i) = Some (word_of_nat i) \<and> ALPHABET ! i \<noteq> PAD"
proof -
  assume "i < 64"
  moreover have "list_all (\<lambda>i. value_of (ALPHABET ! i) = Some (word_of_nat i) \<and> ALPHABET ! i \<noteq> PAD) [0..<64]"
    by code_simp
  ultimately show ?thesis by (simp add: list_all_iff)
qed

lemma value_alphabet:
  assumes "value_of c = Some v"
  shows "v < 64 \<and> ALPHABET ! unat v = c"
proof -
  have "list_all (\<lambda>c. case value_of c of None \<Rightarrow> True | Some v \<Rightarrow> v < 64 \<and> ALPHABET ! unat v = c)
      (map word_of_nat [0..<256])"
    by code_simp
  moreover have "c \<in> set (map word_of_nat [0..<256])"
    using unsigned_less [where 'a = nat, of c] by (auto intro!: image_eqI [of _ _ "unat c"])
  ultimately show ?thesis using assms by (auto simp only: list_all_iff split: option.splits)
qed


section \<open>Sextets and octets of 24 bits\<close>

definition glue6 :: "u32 \<Rightarrow> u32 \<Rightarrow> u32 \<Rightarrow> u32 \<Rightarrow> u32" where
  "glue6 v0 v1 v2 v3 = push_bit 6 (push_bit 6 (push_bit 6 v0 OR v1) OR v2) OR v3"

definition glue8 :: "u8 \<Rightarrow> u8 \<Rightarrow> u8 \<Rightarrow> u32" where
  "glue8 b0 b1 b2 = push_bit 16 (ucast b0) OR push_bit 8 (ucast b1) OR ucast b2"

definition sextet :: "nat \<Rightarrow> u32 \<Rightarrow> u32" where
  "sextet j acc = take_bit 6 (drop_bit (18 - 6 * j) acc)"

definition octet :: "nat \<Rightarrow> u32 \<Rightarrow> u8" where
  "octet j acc = ucast (drop_bit (16 - 8 * j) acc)"

lemma sextet_id: "(v :: u32) < 64 \<Longrightarrow> take_bit 6 v = v"
  by (simp add: word_unat_eq_iff word_less_nat_alt unsigned_take_bit_eq take_bit_nat_eq_self)

lemma sextet_less: "unat (sextet j acc) < 64"
proof -
  have "unat (sextet j acc) = take_bit 6 (unat (drop_bit (18 - 6 * j) acc))"
    by (simp only: sextet_def unsigned_take_bit_eq)
  then show ?thesis by (simp add: take_bit_eq_mod)
qed

lemma glue8_octets: "glue8 (octet 0 acc) (octet 1 acc) (octet 2 acc) = take_bit 24 acc"
proof (rule bit_word_eqI)
  fix n
  show "bit (glue8 (octet 0 acc) (octet 1 acc) (octet 2 acc)) n = bit (take_bit 24 acc) n"
    unfolding glue8_def octet_def by (cases "16 \<le> n") (auto simp: bit_simps)
qed

lemma octets_glue8:
  "octet 0 (glue8 b0 b1 b2) = b0" "octet 1 (glue8 b0 b1 b2) = b1" "octet 2 (glue8 b0 b1 b2) = b2"
  unfolding glue8_def octet_def
  by (rule bit_word_eqI; auto simp: bit_simps dest: bit_imp_le_length)+

lemma glue8_24: "take_bit 24 (glue8 b0 b1 b2) = glue8 b0 b1 b2"
  unfolding glue8_def by (rule bit_word_eqI) (auto simp: bit_simps dest: bit_imp_le_length)

lemma glue6_sextets: "glue6 (sextet 0 acc) (sextet 1 acc) (sextet 2 acc) (sextet 3 acc) = take_bit 24 acc"
proof (rule bit_word_eqI)
  fix n
  show "bit (glue6 (sextet 0 acc) (sextet 1 acc) (sextet 2 acc) (sextet 3 acc)) n = bit (take_bit 24 acc) n"
    unfolding glue6_def sextet_def by (cases "12 \<le> n"; cases "18 \<le> n") (auto simp: bit_simps)
qed

lemma sextets_glue6:
  assumes "v0 < 64" "v1 < 64" "v2 < 64" "v3 < 64"
  shows "sextet 0 (glue6 v0 v1 v2 v3) = v0" "sextet 1 (glue6 v0 v1 v2 v3) = v1"
    "sextet 2 (glue6 v0 v1 v2 v3) = v2" "sextet 3 (glue6 v0 v1 v2 v3) = v3"
    "take_bit 24 (glue6 v0 v1 v2 v3) = glue6 v0 v1 v2 v3"
proof -
  let ?t = "take_bit 6 :: u32 \<Rightarrow> u32"
  let ?g = "glue6 (?t v0) (?t v1) (?t v2) (?t v3)"
  have "sextet 0 ?g = ?t v0" "sextet 1 ?g = ?t v1" "sextet 2 ?g = ?t v2" "sextet 3 ?g = ?t v3"
    "take_bit 24 ?g = ?g"
    unfolding glue6_def sextet_def by (rule bit_word_eqI; auto simp: bit_simps)+
  then show "sextet 0 (glue6 v0 v1 v2 v3) = v0" "sextet 1 (glue6 v0 v1 v2 v3) = v1"
    "sextet 2 (glue6 v0 v1 v2 v3) = v2" "sextet 3 (glue6 v0 v1 v2 v3) = v3"
    "take_bit 24 (glue6 v0 v1 v2 v3) = glue6 v0 v1 v2 v3"
    using assms by (simp_all only: sextet_id)
qed

lemma short_sextets: "sextet 3 (glue8 b0 b1 0) = 0" "sextet 2 (glue8 b0 0 0) = 0"
  unfolding glue8_def sextet_def by (rule bit_word_eqI; auto simp: bit_simps)+

section \<open>One quad\<close>

abbreviation char_at :: "nat \<Rightarrow> u32 \<Rightarrow> u8" where
  "char_at j acc \<equiv> ALPHABET ! unat (sextet j acc)"

lemma char_at_value: "value_of (char_at j acc) = Some (sextet j acc)" "char_at j acc \<noteq> PAD"
  using alphabet_value [OF sextet_less] by simp_all

lemma encode_chunk_chars:
  "encode_chunk [b0, b1, b2] = [char_at 0 (glue8 b0 b1 b2), char_at 1 (glue8 b0 b1 b2),
     char_at 2 (glue8 b0 b1 b2), char_at 3 (glue8 b0 b1 b2)]"
  "encode_chunk [b0, b1] = [char_at 0 (glue8 b0 b1 0), char_at 1 (glue8 b0 b1 0), char_at 2 (glue8 b0 b1 0), PAD]"
  "encode_chunk [b0] = [char_at 0 (glue8 b0 0 0), char_at 1 (glue8 b0 0 0), PAD, PAD]"
proof -
  have "[0..<4] = [0, 1, 2, 3 :: nat]" by (simp add: upt_rec)
  moreover have "x AND 63 = take_bit 6 x" for x :: u32
    by (simp add: take_bit_eq_mask mask_eq_exp_minus_1)
  ultimately show
    "encode_chunk [b0, b1, b2] = [char_at 0 (glue8 b0 b1 b2), char_at 1 (glue8 b0 b1 b2),
       char_at 2 (glue8 b0 b1 b2), char_at 3 (glue8 b0 b1 b2)]"
    "encode_chunk [b0, b1] = [char_at 0 (glue8 b0 b1 0), char_at 1 (glue8 b0 b1 0), char_at 2 (glue8 b0 b1 0), PAD]"
    "encode_chunk [b0] = [char_at 0 (glue8 b0 0 0), char_at 1 (glue8 b0 0 0), PAD, PAD]"
    by (simp_all add: encode_chunk_def sextet_def glue8_def Let_def)
qed

text \<open>What the decoder makes of a quad with no, one and two padding characters.\<close>

lemma decode_quad_full:
  assumes "PAD \<notin> {c0, c1, c2, c3}"
  shows "decode_quad final [c0, c1, c2, c3] =
    Some (case (value_of c0, value_of c1, value_of c2, value_of c3) of
            (Some v0, Some v1, Some v2, Some v3) \<Rightarrow>
              let a = glue6 v0 v1 v2 v3 in Some [octet 0 a, octet 1 a, octet 2 a]
          | _ \<Rightarrow> None)"
  using assms by (auto simp: decode_quad_def octet_def glue6_def Let_def split: option.split)

lemma decode_quad_pad1:
  assumes "PAD \<notin> {c0, c1, c2}"
  shows "decode_quad True [c0, c1, c2, PAD] =
    Some (case (value_of c0, value_of c1, value_of c2) of
            (Some v0, Some v1, Some v2) \<Rightarrow>
              let a = glue6 v0 v1 v2 0 in if octet 2 a = 0 then Some [octet 0 a, octet 1 a] else None
          | _ \<Rightarrow> None)"
  using assms by (auto simp: decode_quad_def octet_def glue6_def Let_def split: option.split)

lemma decode_quad_pad2:
  assumes "PAD \<notin> {c0, c1}"
  shows "decode_quad True [c0, c1, PAD, PAD] =
    Some (case (value_of c0, value_of c1) of
            (Some v0, Some v1) \<Rightarrow>
              let a = glue6 v0 v1 0 0 in if octet 1 a = 0 \<and> octet 2 a = 0 then Some [octet 0 a] else None
          | _ \<Rightarrow> None)"
  using assms by (auto simp: decode_quad_def octet_def glue6_def Let_def split: option.split)


abbreviation trail :: "bytes \<Rightarrow> nat" where
  "trail t \<equiv> length (takeWhile (\<lambda>c. c = PAD) (rev t))"

lemma chunk_cases:
  assumes "chunk \<noteq> []" "length chunk \<le> 3"
  obtains (one) b0 where "chunk = [b0]" | (two) b0 b1 where "chunk = [b0, b1]"
    | (three) b0 b1 b2 where "chunk = [b0, b1, b2]"
  using assms by (auto simp: neq_Nil_conv length_Suc_conv le_Suc_eq numeral_3_eq_3)

lemma quad_cases:
  assumes "length (quad :: bytes) = 4"
  obtains c0 c1 c2 c3 where "quad = [c0, c1, c2, c3]"
  using assms by (auto simp: length_Suc_conv eval_nat_numeral)

lemma encode_chunk_shape:
  assumes "chunk \<noteq> []" "length chunk \<le> 3"
  shows "length (encode_chunk chunk) = 4" "trail (encode_chunk chunk) = 3 - length chunk"
    "\<exists>c \<in> set (encode_chunk chunk). c \<noteq> PAD"
  using assms by (cases rule: chunk_cases; simp add: encode_chunk_chars char_at_value)+

lemma decode_encode_chunk:
  assumes "chunk \<noteq> []" "length chunk \<le> 3" "final \<or> length chunk = 3"
  shows "decode_quad final (encode_chunk chunk) = Some (Some chunk)"
  using assms(1,2)
proof (cases rule: chunk_cases)
  case (one b0)
  let ?a = "glue8 b0 0 0"
  have "glue6 (sextet 0 ?a) (sextet 1 ?a) 0 0 = ?a"
    using glue6_sextets [of ?a] glue8_24 by (simp add: short_sextets)
  with one assms(3) show ?thesis
    by (simp add: encode_chunk_chars decode_quad_pad2 char_at_value octets_glue8 Let_def del: One_nat_def)
next
  case (two b0 b1)
  let ?a = "glue8 b0 b1 0"
  have "glue6 (sextet 0 ?a) (sextet 1 ?a) (sextet 2 ?a) 0 = ?a"
    using glue6_sextets [of ?a] glue8_24 by (simp add: short_sextets)
  with two assms(3) show ?thesis
    by (simp add: encode_chunk_chars decode_quad_pad1 char_at_value octets_glue8 Let_def del: One_nat_def)
next
  case (three b0 b1 b2)
  then show ?thesis
    by (simp add: encode_chunk_chars decode_quad_full char_at_value glue6_sextets glue8_24 octets_glue8 Let_def
        del: One_nat_def)
qed

lemma decode_quad_forms:
  assumes "quad = [c0, c1, c2, c3]" "final \<longrightarrow> trail quad \<le> 2" "decode_quad final quad = Some (Some bs)"
  obtains (full) "PAD \<notin> {c0, c1, c2, c3}" | (pad1) "final" "PAD \<notin> {c0, c1, c2}" "c3 = PAD"
    | (pad2) "final" "PAD \<notin> {c0, c1}" "c2 = PAD" "c3 = PAD"
proof -
  consider "PAD \<notin> {c0, c1, c2, c3}" | "final" "PAD \<notin> {c0, c1, c2}" "c3 = PAD"
    | "final" "PAD \<notin> {c0, c1}" "c2 = PAD" "c3 = PAD"
    using assms
    by (cases "c0 = PAD"; cases "c1 = PAD"; cases "c2 = PAD"; cases "c3 = PAD"; cases final)
      (auto simp: decode_quad_def)
  then show thesis using full pad1 pad2 by cases
qed

lemma encode_decode_quad:
  assumes "length quad = 4" "final \<longrightarrow> trail quad \<le> 2" "decode_quad final quad = Some (Some bs)"
  shows "bs \<noteq> [] \<and> length bs \<le> 3 \<and> (final \<or> length bs = 3) \<and> encode_chunk bs = quad"
proof -
  obtain c0 c1 c2 c3 where q: "quad = [c0, c1, c2, c3]" by (rule quad_cases [OF assms(1)])
  show ?thesis
    using q assms(2,3)
  proof (cases rule: decode_quad_forms)
    case full
    then obtain v0 v1 v2 v3 where v: "value_of c0 = Some v0" "value_of c1 = Some v1" "value_of c2 = Some v2"
        "value_of c3 = Some v3"
      using assms(3) q by (auto simp: decode_quad_full split: option.splits)
    note va = value_alphabet [OF v(1)] value_alphabet [OF v(2)] value_alphabet [OF v(3)] value_alphabet [OF v(4)]
    let ?a = "glue6 v0 v1 v2 v3"
    have "bs = [octet 0 ?a, octet 1 ?a, octet 2 ?a]"
      using assms(3) q full v by (simp add: decode_quad_full Let_def)
    moreover have "glue8 (octet 0 ?a) (octet 1 ?a) (octet 2 ?a) = ?a"
      using va by (simp only: glue8_octets sextets_glue6)
    ultimately show ?thesis using q va by (simp add: encode_chunk_chars sextets_glue6 del: One_nat_def)
  next
    case pad1
    then obtain v0 v1 v2 where v: "value_of c0 = Some v0" "value_of c1 = Some v1" "value_of c2 = Some v2"
      using assms(3) q by (auto simp: decode_quad_pad1 split: option.splits)
    note va = value_alphabet [OF v(1)] value_alphabet [OF v(2)] value_alphabet [OF v(3)]
    let ?a = "glue6 v0 v1 v2 0"
    have "bs = [octet 0 ?a, octet 1 ?a]" "octet 2 ?a = 0"
      using assms(3) q pad1 v by (auto simp: decode_quad_pad1 Let_def split: if_splits)
    moreover have "glue8 (octet 0 ?a) (octet 1 ?a) (octet 2 ?a) = ?a"
      using va by (simp only: glue8_octets sextets_glue6 word_zero_le) (simp add: sextets_glue6)
    ultimately show ?thesis using q va pad1 by (simp add: encode_chunk_chars sextets_glue6 del: One_nat_def)
  next
    case pad2
    then obtain v0 v1 where v: "value_of c0 = Some v0" "value_of c1 = Some v1"
      using assms(3) q by (auto simp: decode_quad_pad2 split: option.splits)
    note va = value_alphabet [OF v(1)] value_alphabet [OF v(2)]
    let ?a = "glue6 v0 v1 0 0"
    have "bs = [octet 0 ?a]" "octet 1 ?a = 0" "octet 2 ?a = 0"
      using assms(3) q pad2 v by (auto simp: decode_quad_pad2 Let_def split: if_splits)
    moreover have "glue8 (octet 0 ?a) (octet 1 ?a) (octet 2 ?a) = ?a"
      using va by (simp only: glue8_octets sextets_glue6 word_zero_le) (simp add: sextets_glue6)
    ultimately show ?thesis using q va pad2 by (simp add: encode_chunk_chars sextets_glue6 del: One_nat_def)
  qed
qed

lemma decode_quad_no_panic:
  assumes "length quad = 4" "final \<longrightarrow> trail quad \<le> 2"
  shows "decode_quad final quad \<noteq> None"
proof -
  obtain c0 c1 c2 c3 where q: "quad = [c0, c1, c2, c3]" by (rule quad_cases [OF assms(1)])
  have "length (filter (\<lambda>c. c = PAD) quad) \<le> 3" if final
    using that assms(2) q by (auto split: if_splits)
  then show ?thesis
    by (auto simp: decode_quad_def Let_def split: option.split)
qed


section \<open>Whole texts\<close>

lemma encode_loop64_step:
  "d \<noteq> [] \<Longrightarrow> encode_loop64 d = encode_chunk (take 3 d) @ encode_loop64 (drop 3 d)"
  by (subst encode_loop64.simps) simp

lemma encode_loop64_Nil [simp]: "encode_loop64 [] = []"
  by (subst encode_loop64.simps) simp

lemma take3_shape: "d \<noteq> [] \<Longrightarrow> take 3 d \<noteq> [] \<and> length (take 3 d) \<le> 3"
  by simp

lemma encode_loop64_eq_Nil [simp]: "encode_loop64 d = [] \<longleftrightarrow> d = []"
  using encode_chunk_shape(1) [of "take 3 d"] by (cases "d = []") (auto simp: encode_loop64_step)

lemma length_encode_loop64: "length (encode_loop64 d) = encoded_len (length d)"
proof (induction d rule: encode_loop64.induct)
  case (1 d)
  show ?case
  proof (cases "d = []")
    case False
    have "0 < n \<Longrightarrow> (n + 2) div 3 = Suc ((n - 3 + 2) div 3)" for n :: nat by presburger
    then have "encoded_len (length d) = 4 + encoded_len (length d - 3)"
      using False by (simp add: encoded_len_def)
    then show ?thesis using 1 [OF False] False encode_chunk_shape(1) [of "take 3 d"] by (simp add: encode_loop64_step)
  qed (simp add: encoded_len_def)
qed

lemma trail_append: "\<exists>c \<in> set b. c \<noteq> PAD \<Longrightarrow> trail (a @ b) = trail b"
  by (auto simp: takeWhile_append)

lemma trail_encode: "d \<noteq> [] \<Longrightarrow> trail (encode_loop64 d) = (3 - length d mod 3) mod 3
    \<and> (\<exists>c \<in> set (encode_loop64 d). c \<noteq> PAD)"
proof (induction d rule: encode_loop64.induct)
  case (1 d)
  note shape = encode_chunk_shape [OF take3_shape [OF 1(2), THEN conjunct1] take3_shape [OF 1(2), THEN conjunct2]]
  show ?case
  proof (cases "drop 3 d = []")
    case True
    then have "0 < length d \<and> length d \<le> 3" using 1(2) by simp
    then have "length d = 1 \<or> length d = 2 \<or> length d = 3" by arith
    then show ?thesis using shape 1(2) True by (auto simp: encode_loop64_step)
  next
    case False
    then have "3 < length d" by simp
    then have "length (drop 3 d) mod 3 = length d mod 3" by (simp add: mod_if)
    then show ?thesis
      using 1(1) [OF 1(2) False] shape(3) 1(2) trail_append [of "encode_loop64 (drop 3 d)" "encode_chunk (take 3 d)"]
      by (auto simp: encode_loop64_step)
  qed
qed

lemma pad_arith: "n + (3 - n mod 3) mod 3 = (n + 2) div 3 * (3::nat)"
proof -
  define q r where "q = n div 3" and "r = n mod 3"
  then have n: "n = r + 3 * q" "r < 3" by simp_all
  then have r: "n mod 3 = r" by simp
  from n have "r = 0 \<or> r = 1 \<or> r = 2" by linarith
  then show ?thesis unfolding r unfolding n(1) by (elim disjE) simp_all
qed
lemma decoded_len_encode: "decoded_len (encode_loop64 d) = Some (length d)"
proof (cases "d = []")
  case False
  have "(length d + 2) div 3 * 3 - (3 - length d mod 3) mod 3 = length d"
    using pad_arith [of "length d"] by linarith
  moreover have "(3 - length d mod 3) mod 3 \<le> 2"
    using mod_less_divisor [of 3 "3 - length d mod 3"] by linarith
  ultimately show ?thesis
    using trail_encode [OF False]
    by (simp only: decoded_len_def length_encode_loop64 encoded_len_def Let_def) simp
qed (simp add: decoded_len_def)


text \<open>The loop, with \<open>k\<close> quads to go: it accepts exactly the encodings, and never panics.\<close>

lemma quad_iff:
  assumes "length quad = 4" "final \<longrightarrow> trail quad \<le> 2"
  shows "\<exists>r. decode_quad final quad = Some r
    \<and> (\<forall>bs. r = Some bs \<longleftrightarrow> bs \<noteq> [] \<and> length bs \<le> 3 \<and> (final \<or> length bs = 3) \<and> encode_chunk bs = quad)"
proof -
  obtain r where r: "decode_quad final quad = Some r"
    using decode_quad_no_panic [OF assms] by auto
  have "r = Some bs \<longleftrightarrow> bs \<noteq> [] \<and> length bs \<le> 3 \<and> (final \<or> length bs = 3) \<and> encode_chunk bs = quad" for bs
    using encode_decode_quad [OF assms, of bs] decode_encode_chunk [of bs final] r by auto
  with r show ?thesis by blast
qed

lemma encode_loop64_split:
  assumes "encode_loop64 d = quad @ rest" "length quad = 4"
  shows "d \<noteq> []" "encode_chunk (take 3 d) = quad" "encode_loop64 (drop 3 d) = rest"
    "rest \<noteq> [] \<longrightarrow> length (take 3 d) = 3"
proof -
  show d: "d \<noteq> []" using assms by auto
  have "length (encode_chunk (take 3 d)) = 4" using encode_chunk_shape(1) [of "take 3 d"] d by simp
  then show "encode_chunk (take 3 d) = quad" and r: "encode_loop64 (drop 3 d) = rest"
    using assms d by (auto simp: encode_loop64_step append_eq_append_conv)
  from r show "rest \<noteq> [] \<longrightarrow> length (take 3 d) = 3" using encode_loop64_eq_Nil [of "drop 3 d"] by auto
qed

lemma decode_loop_iff:
  assumes "length tx = 4 * k" "i + k = m" "trail tx \<le> 2" "n + trail tx = length out + 3 * k"
  shows "\<exists>r. decode_loop m n i tx out = Some r
    \<and> (\<forall>res. r = Some res \<longleftrightarrow> (\<exists>d. res = out @ d \<and> tx = encode_loop64 d))"
  using assms
proof (induction k arbitrary: i tx out)
  case 0
  then show ?case using encode_loop64_eq_Nil by (subst decode_loop.simps) (auto dest: sym)
next
  case (Suc k)
  define quad rest where "quad = take 4 tx" and "rest = drop 4 tx"
  have tx: "tx = quad @ rest" and lens: "length quad = 4" "length rest = 4 * k"
    using Suc.prems(1) by (simp_all add: quad_def rest_def)
  have fin: "(i = m - Suc 0) = (k = 0)" using Suc.prems(2) by auto
  have tq: "k = 0 \<longrightarrow> trail quad \<le> 2" using Suc.prems(3) lens tx by auto
  obtain r where r: "decode_quad (k = 0) quad = Some r"
    "\<And>bs. r = Some bs \<longleftrightarrow> bs \<noteq> [] \<and> length bs \<le> 3 \<and> (k = 0 \<or> length bs = 3) \<and> encode_chunk bs = quad"
    using quad_iff [OF lens(1) tq] by blast
  have step: "decode_loop m n i tx out =
      (case r of None \<Rightarrow> Some None
       | Some bs \<Rightarrow> if length out + length bs \<le> n then decode_loop m n (i + 1) rest (out @ bs) else Some None)"
    using Suc.prems(1) r(1) unfolding quad_def rest_def by (subst decode_loop.simps) (simp add: fin split: option.split)
  have only: "r = Some (take 3 d)" if "tx = encode_loop64 d" for d
  proof -
    note sp = encode_loop64_split [OF that [unfolded tx, symmetric] lens(1)]
    then show ?thesis using lens(2) r(2) [of "take 3 d"] by (cases "k = 0") auto
  qed
  show ?case
  proof (cases r)
    case None
    with only step show ?thesis by auto
  next
    case (Some bs)
    then have bs: "bs \<noteq> []" "length bs \<le> 3" "k = 0 \<or> length bs = 3" "encode_chunk bs = quad"
      using r(2) by blast+
    have trail: "trail tx = (if k = 0 then 3 - length bs else trail rest)"
    proof (cases "k = 0")
      case True
      then show ?thesis using encode_chunk_shape(2) [OF bs(1,2)] bs(4) lens(2) tx by simp
    next
      case False
      have "\<exists>c \<in> set rest. c \<noteq> PAD"
      proof (rule ccontr)
        assume "\<not> (\<exists>c \<in> set rest. c \<noteq> PAD)"
        then have "length rest \<le> trail tx" unfolding tx by (auto simp: takeWhile_append)
        with Suc.prems(3) lens(2) False show False by simp
      qed
      then show ?thesis using trail_append [of rest quad] False by (simp only: tx if_False)
    qed
    have fits: "length out + length bs \<le> n"
      using trail Suc.prems(3,4) bs by (auto split: if_splits)
    have "trail rest \<le> 2" "n + trail rest = length (out @ bs) + 3 * k"
      using trail Suc.prems(3,4) bs lens(2) by (auto split: if_splits)
    then obtain r' where r': "decode_loop m n (i + 1) rest (out @ bs) = Some r'"
      "\<And>res. r' = Some res \<longleftrightarrow> (\<exists>d. res = (out @ bs) @ d \<and> rest = encode_loop64 d)"
      using Suc.IH [OF lens(2), of "i + 1" "out @ bs"] Suc.prems(2) by auto
    have backward: "tx = encode_loop64 (bs @ d)" if "rest = encode_loop64 d" for d
    proof -
      have "take 3 (bs @ d) = bs" "drop 3 (bs @ d) = d" using bs that lens(2) by auto
      then show ?thesis using encode_loop64_step [of "bs @ d"] bs that tx by (simp only:) simp
    qed
    have forward: "d = bs @ drop 3 d \<and> rest = encode_loop64 (drop 3 d)" if "tx = encode_loop64 d" for d
      using only [OF that] Some encode_loop64_split(3) [OF that [unfolded tx, symmetric] lens(1)]
      by (metis append_take_drop_id option.inject)
    have "(\<exists>d. res = (out @ bs) @ d \<and> rest = encode_loop64 d) \<longleftrightarrow> (\<exists>d. res = out @ d \<and> tx = encode_loop64 d)"
      for res
    proof
      assume "\<exists>d. res = (out @ bs) @ d \<and> rest = encode_loop64 d"
      then show "\<exists>d. res = out @ d \<and> tx = encode_loop64 d" using backward by auto
    next
      assume "\<exists>d. res = out @ d \<and> tx = encode_loop64 d"
      then obtain d where "res = out @ d" "tx = encode_loop64 d" by blast
      with forward [of d] show "\<exists>d. res = (out @ bs) @ d \<and> rest = encode_loop64 d"
        by (intro exI [of _ "drop 3 d"]) (metis append.assoc)
    qed
    with r' step fits Some show ?thesis by simp
  qed
qed

text \<open>
  C30: Base64 is canonical.  The decoder never panics, on any text; it accepts a text, into a buffer
  that is large enough, exactly if the text is the encoding of the bytes it returns, so a byte string
  has one spelling; and the encoder's text has the length announced.
\<close>

theorem base64_canonical:
  "(\<exists>r. base64_decode tx cap = Some r \<and> (\<forall>d. r = Some d \<longleftrightarrow> tx = encode_string d \<and> length d \<le> cap))
   \<and> decode_vec (encode_string data) = Some (Some data)
   \<and> length (encode_string data) = encoded_len (length data)"
proof -
  have enc: "encode_string d = encode_loop64 d" for d by (simp add: encode_string_def base64_encode_def)
  have dec: "\<exists>r. base64_decode tx cap = Some r \<and> (\<forall>d. r = Some d \<longleftrightarrow> tx = encode_loop64 d \<and> length d \<le> cap)"
    for tx cap
  proof (cases "decoded_len tx")
    case None
    then show ?thesis using decoded_len_encode by (auto simp: base64_decode_def)
  next
    case (Some n)
    have iff: "tx = encode_loop64 d \<Longrightarrow> length d = n" for d using decoded_len_encode [of d] Some by auto
    show ?thesis
    proof (cases "n \<le> cap")
      case True
      from Some have t: "length tx mod 4 = 0" "trail tx \<le> 2" "n = length tx div 4 * 3 - trail tx"
        by (auto simp: decoded_len_def Let_def split: if_splits)
      have "trail tx \<le> length tx" using length_takeWhile_le [of _ "rev tx"] by simp
      with t have "n + trail tx = 3 * (length tx div 4)" "length tx = 4 * (length tx div 4)" by auto
      then have "\<exists>r. decode_loop (length tx div 4) n 0 tx [] = Some r
          \<and> (\<forall>res. r = Some res \<longleftrightarrow> (\<exists>d. res = [] @ d \<and> tx = encode_loop64 d))"
        using t(2) by (intro decode_loop_iff [where k = "length tx div 4"]) simp_all
      then show ?thesis using Some True iff by (auto simp: base64_decode_def)
    next
      case False
      then show ?thesis using Some iff by (auto simp: base64_decode_def)
    qed
  qed
  have "decode_vec (encode_loop64 data) = Some (Some data)"
    using dec [of "encode_loop64 data" "length data"] by (auto simp: decode_vec_def decoded_len_encode)
  with dec [of tx cap] show ?thesis by (simp add: enc length_encode_loop64)
qed

end
