(* ===== verification/Space_Mode.thy ===== *)
theory Space_Mode
  imports Redundancy
begin

text \<open>
  When to check stored state, \<^verbatim>\<open>nanochrono-core/src/space_mode.rs\<close>: plain reads and a scrub a second
  in normal mode, verified reads for five minutes after a detection, and a latch for values that are
  lost.  The policy is a record and its operations; a history of what the owner reported is a list of
  events, and the theorems say what the mode is after a history.
\<close>

definition SCRUB_INTERVAL_NS :: u64 where
  "SCRUB_INTERVAL_NS = 1000000000"

definition EMERGENCY_HOLD_NS :: u64 where
  "EMERGENCY_HOLD_NS = 300000000000"

datatype mode = Normal | Emergency u64

record space_mode =
  sm_mode :: mode
  last_scrub_ns :: "u64 option"
  sm_unrecoverable :: bool
  detections :: u32

definition space_new :: space_mode where
  "space_new = \<lparr> sm_mode = Normal, last_scrub_ns = None, sm_unrecoverable = False, detections = 0 \<rparr>"

definition verify_reads :: "space_mode \<Rightarrow> bool" where
  "verify_reads s = (case sm_mode s of Emergency _ \<Rightarrow> True | Normal \<Rightarrow> False)"

definition scrub_due :: "space_mode \<Rightarrow> u64 \<Rightarrow> bool" where
  "scrub_due s now =
     (case last_scrub_ns s of
        None \<Rightarrow> True
      | Some t \<Rightarrow> saturating_sub now t \<ge> SCRUB_INTERVAL_NS)"

definition space_record :: "integrity \<Rightarrow> u64 \<Rightarrow> bool \<Rightarrow> space_mode \<Rightarrow> mode \<times> space_mode" where
  "space_record outcome now was_scrub s =
     (let s = (if was_scrub then s \<lparr> last_scrub_ns := Some now \<rparr> else s) in
      if outcome \<noteq> Clean then
        let s = s \<lparr> detections := saturating_add (detections s) 1, sm_mode := Emergency now \<rparr>;
            s = (if outcome = Unrecoverable then s \<lparr> sm_unrecoverable := True \<rparr> else s)
        in (sm_mode s, s)
      else
        let s = (case sm_mode s of
                   Emergency since \<Rightarrow>
                     if \<not> sm_unrecoverable s \<and> saturating_sub now since \<ge> EMERGENCY_HOLD_NS
                     then s \<lparr> sm_mode := Normal \<rparr> else s
                 | Normal \<Rightarrow> s)
        in (sm_mode s, s))"

definition clear_unrecoverable :: "space_mode \<Rightarrow> space_mode" where
  "clear_unrecoverable s = s \<lparr> sm_unrecoverable := False \<rparr>"

definition space_name :: "space_mode \<Rightarrow> string" where
  "space_name s =
     (case (sm_mode s, sm_unrecoverable s) of
        (_, True) \<Rightarrow> ''EMERGENCY: value lost''
      | (Emergency _, False) \<Rightarrow> ''EMERGENCY: verifying''
      | (Normal, False) \<Rightarrow> ''normal'')"

section \<open>Histories\<close>

datatype event = Recorded integrity u64 bool | Cleared

fun apply_event :: "event \<Rightarrow> space_mode \<Rightarrow> space_mode" where
  "apply_event (Recorded i now b) s = snd (space_record i now b s)"
| "apply_event Cleared s = clear_unrecoverable s"

definition history :: "event list \<Rightarrow> space_mode" where
  "history es = fold apply_event es space_new"

fun record_times :: "event list \<Rightarrow> nat list" where
  "record_times [] = []"
| "record_times (Recorded _ t _ # es) = unat t # record_times es"
| "record_times (Cleared # es) = record_times es"

fun hit :: "event \<Rightarrow> bool" where
  "hit (Recorded i _ _) = (i \<noteq> Clean)"
| "hit Cleared = False"

fun lost :: "event \<Rightarrow> bool" where
  "lost (Recorded i _ _) = (i = Unrecoverable)"
| "lost Cleared = False"

text \<open>The invariant: a lost value keeps the emergency on.\<close>

definition space_ok :: "space_mode \<Rightarrow> bool" where
  "space_ok s \<longleftrightarrow> (sm_unrecoverable s \<longrightarrow> verify_reads s)"

lemma space_ok_new: "space_ok space_new"
  by (simp add: space_ok_def space_new_def)

lemma space_ok_apply: "space_ok s \<Longrightarrow> space_ok (apply_event e s)"
  by (cases e) (auto simp: space_ok_def space_record_def verify_reads_def clear_unrecoverable_def Let_def
      split: mode.split)

lemma space_ok_fold: "space_ok s \<Longrightarrow> space_ok (fold apply_event es s)"
  by (induction es arbitrary: s) (simp_all add: space_ok_apply)

lemma detections_fold:
  "unat (detections (fold apply_event es s)) = min (unat (detections s) + length (filter hit es)) (2 ^ 32 - 1)"
proof (induction es arbitrary: s)
  case Nil
  then show ?case using unsigned_less [where 'a = nat, of "detections s"] by simp
next
  case (Cons e es)
  have "unat (detections (apply_event e s)) = min (unat (detections s) + (if hit e then 1 else 0)) (2 ^ 32 - 1)"
    using unsigned_less [where 'a = nat, of "detections s"]
    by (cases e) (auto simp: space_record_def clear_unrecoverable_def sat_arith Let_def split: mode.split)
  then show ?case by (auto simp: Cons.IH min_def)
qed

lemma latch_fold:
  "sm_unrecoverable s \<Longrightarrow> Cleared \<notin> set es \<Longrightarrow> sm_unrecoverable (fold apply_event es s)"
proof (induction es arbitrary: s)
  case (Cons e es)
  then have "sm_unrecoverable (apply_event e s)"
    by (cases e) (auto simp: space_record_def Let_def split: mode.split)
  with Cons show ?case by simp
qed simp

lemma unlatched_fold:
  "\<not> sm_unrecoverable s \<Longrightarrow> list_all (\<lambda>e. \<not> lost e) es \<Longrightarrow> \<not> sm_unrecoverable (fold apply_event es s)"
proof (induction es arbitrary: s)
  case (Cons e es)
  then have "\<not> sm_unrecoverable (apply_event e s)"
    by (cases e) (auto simp: space_record_def clear_unrecoverable_def Let_def split: mode.split)
  with Cons show ?case by simp
qed simp

text \<open>
  In time order, an emergency that started at \<open>since\<close> or later outlasts every record within the
  hold time of \<open>since\<close>.
\<close>

lemma emergency_fold:
  assumes "sm_mode s = Emergency u" "t \<le> unat u" "sorted (unat u # record_times es)" "\<forall>x \<in> set (record_times es). x < t + 300000000000"
  shows "\<exists>u'. sm_mode (fold apply_event es s) = Emergency u' \<and> t \<le> unat u'"
  using assms
proof (induction es arbitrary: s u)
  case (Cons e es)
  show ?case
  proof (cases e)
    case (Recorded i now b)
    have "\<exists>u'. sm_mode (apply_event e s) = Emergency u' \<and> t \<le> unat u' \<and> unat u' \<le> unat now"
      using Cons.prems Recorded
      by (auto simp: space_record_def EMERGENCY_HOLD_NS_def word_le_nat_alt sat_arith Let_def)
    then show ?thesis using Cons.IH [of "apply_event e s"] Cons.prems Recorded by fastforce
  next
    case Cleared
    then show ?thesis using Cons.IH [of "apply_event e s" u] Cons.prems by (simp add: clear_unrecoverable_def)
  qed
qed auto

lemma quiet_fold:
  "sm_mode s = Normal \<Longrightarrow> list_all (\<lambda>e. \<not> hit e) es \<Longrightarrow> sm_mode (fold apply_event es s) = Normal"
proof (induction es arbitrary: s)
  case (Cons e es)
  then have "sm_mode (apply_event e s) = Normal"
    by (cases e) (auto simp: space_record_def clear_unrecoverable_def Let_def)
  with Cons show ?case by simp
qed simp


section \<open>What the policy promises\<close>

text \<open>
  C31: A detection is not forgotten.  In a history in time order, once a check has found something
  reads are verified at least until a record comes 300 seconds after it; after a value is lost they
  are verified, and the loss is shown, until the owner clears it, however late the records; and the
  counter is the number of detections, saturating at its width.
\<close>

theorem detection_is_held:
  assumes "sorted (record_times (es @ Recorded i t b # fs))" "i \<noteq> Clean"
  shows "(list_all (\<lambda>x. x < unat t + 300000000000) (record_times fs) \<longrightarrow> verify_reads (history (es @ Recorded i t b # fs)))
    \<and> (i = Unrecoverable \<and> Cleared \<notin> set fs \<longrightarrow>
         verify_reads (history (es @ Recorded i t b # fs)) \<and> sm_unrecoverable (history (es @ Recorded i t b # fs)))
    \<and> unat (detections (history (es @ Recorded i t b # fs)))
        = min (length (filter hit (es @ Recorded i t b # fs))) (2 ^ 32 - 1)"
proof -
  let ?s = "apply_event (Recorded i t b) (history es)"
  have split: "history (es @ Recorded i t b # fs) = fold apply_event fs ?s"
    by (simp add: history_def)
  have "record_times (es @ gs) = record_times es @ record_times gs" for gs
    by (induction es rule: record_times.induct) simp_all
  then have order: "sorted (unat t # record_times fs)" using assms(1) by (simp add: sorted_append)
  have m: "sm_mode ?s = Emergency t" using assms(2) by (simp add: space_record_def Let_def)
  have held: "verify_reads (fold apply_event fs ?s)" if "list_all (\<lambda>x. x < unat t + 300000000000) (record_times fs)"
    using emergency_fold [OF m order_refl order] that by (auto simp: verify_reads_def list_all_iff)
  have latch: "sm_unrecoverable (fold apply_event fs ?s)" if "i = Unrecoverable" "Cleared \<notin> set fs"
    using that by (intro latch_fold) (simp add: space_record_def Let_def)
  have "space_ok (fold apply_event fs ?s)"
    unfolding history_def by (intro space_ok_fold space_ok_apply space_ok_new)
  then have on: "verify_reads (fold apply_event fs ?s)" if "i = Unrecoverable" "Cleared \<notin> set fs"
    using latch [OF that] by (simp add: space_ok_def)
  have "unat (detections (history es')) = min (length (filter hit es')) (2 ^ 32 - 1)" for es'
    by (simp add: history_def detections_fold space_new_def)
  then show ?thesis using held [folded split] latch [folded split] on [folded split] by blast
qed

theorem detection_is_held_witness:
  "verify_reads (history ([] @ Recorded (CorrectedByEcc 3) 5 True # [Recorded Clean 1000000005 True]))"
  using detection_is_held [of "[]" "CorrectedByEcc 3" 5 True "[Recorded Clean 1000000005 True]"] by simp

text \<open>
  C32: An emergency ends.  From any state a history can reach, once the owner has replaced what was
  lost, the first clean record 300 seconds or more after the last detection returns to plain reads,
  and plain reads last while nothing more is found; a scrub is then due again exactly one second
  after the last one.
\<close>

theorem emergency_ends:
  assumes "sm_mode (history es) = Emergency since" "unat since + 300000000000 \<le> unat t"
    "list_all (\<lambda>e. \<not> hit e) fs"
  shows "\<not> verify_reads (history (es @ Cleared # Recorded Clean t True # fs))
    \<and> \<not> sm_unrecoverable (history (es @ Cleared # Recorded Clean t True # fs))
    \<and> (scrub_due (history (es @ [Cleared, Recorded Clean t True])) now \<longleftrightarrow> unat t + 1000000000 \<le> unat now)"
proof -
  let ?s = "apply_event (Recorded Clean t True) (apply_event Cleared (history es))"
  have n: "sm_mode ?s = Normal" "\<not> sm_unrecoverable ?s" "last_scrub_ns ?s = Some t"
    using assms(1,2) by (simp_all add: space_record_def clear_unrecoverable_def EMERGENCY_HOLD_NS_def
        word_le_nat_alt sat_arith Let_def)
  have nl: "\<not> hit e \<Longrightarrow> \<not> lost e" for e by (cases e) auto
  have "sm_mode (fold apply_event fs ?s) = Normal" using n assms(3) by (intro quiet_fold)
  moreover have "\<not> sm_unrecoverable (fold apply_event fs ?s)"
    using n assms(3) nl by (intro unlatched_fold) (auto simp: list_all_iff)
  moreover have "history (es @ Cleared # Recorded Clean t True # gs) = fold apply_event gs ?s" for gs
    by (simp add: history_def)
  moreover have "scrub_due ?s now \<longleftrightarrow> unat t + 1000000000 \<le> unat now"
    using n(3) by (auto simp: scrub_due_def SCRUB_INTERVAL_NS_def word_le_nat_alt sat_arith)
  ultimately show ?thesis by (simp only: verify_reads_def mode.case fold.simps id_apply simp_thms)
qed

theorem emergency_ends_witness:
  "\<not> verify_reads (history ([Recorded Unrecoverable 5 True] @ Cleared # Recorded Clean 300000000005 True # []))"
  using emergency_ends [of "[Recorded Unrecoverable 5 True]" 5 300000000005 "[]" 0]
  by (simp add: history_def space_new_def space_record_def)

end
