(* ===== verification/Health.thy ===== *)
theory Health
  imports Bytes
begin

text \<open>
  The continuous health tests of the entropy source, \<^verbatim>\<open>nanochrono-core/src/rng/health.rs\<close>: repetition
  count, adaptive proportion and lag predictor, each a few counters updated per sample.  Samples are
  64-bit words, counters \<open>nat\<close>; the invariant \<open>health_ok\<close> keeps every counter within 32 bits and every
  index within its table, so that neither an overflow nor a panic of the source can occur.  The result
  is that the counters compute the tests as the standard words them, over the list of all samples.
\<close>

definition FAIL_RCT :: u32 where "FAIL_RCT = push_bit 0 1"

definition FAIL_APT :: u32 where "FAIL_APT = push_bit 1 1"

definition FAIL_LAG :: u32 where "FAIL_LAG = push_bit 2 1"

definition FAIL_RCT_PERMANENT :: u32 where "FAIL_RCT_PERMANENT = push_bit 3 1"

definition FAIL_APT_PERMANENT :: u32 where "FAIL_APT_PERMANENT = push_bit 4 1"

definition FAIL_LAG_PERMANENT :: u32 where "FAIL_LAG_PERMANENT = push_bit 5 1"

definition FAIL_INTERMITTENT :: u32 where "FAIL_INTERMITTENT = FAIL_RCT OR FAIL_APT OR FAIL_LAG"

definition FAIL_PERMANENT :: u32 where
  "FAIL_PERMANENT = FAIL_RCT_PERMANENT OR FAIL_APT_PERMANENT OR FAIL_LAG_PERMANENT"

definition OSR_MIN :: nat where "OSR_MIN = 1"

definition OSR_MAX :: nat where "OSR_MAX = 20"

definition APT_WINDOW :: nat where "APT_WINDOW = 512"

definition APT_INTERMITTENT :: "nat list" where
  "APT_INTERMITTENT = [325, 422, 459, 477, 488, 494, 499, 502, 505, 507, 508, 509, 510, 511, 512, 512, 512,
     512, 512, 512]"

definition APT_PERMANENT :: "nat list" where
  "APT_PERMANENT = [355, 447, 479, 494, 502, 507, 510, 512, 512, 512, 512, 512, 512, 512, 512, 512, 512, 512,
     512, 512]"

definition LAG_HISTORY :: nat where "LAG_HISTORY = 8"

definition LAG_WINDOW :: nat where "LAG_WINDOW = 131072"

definition LAG_GLOBAL_INTERMITTENT :: "nat list" where
  "LAG_GLOBAL_INTERMITTENT = [66443, 93504, 104761, 110875, 114707, 117330, 119237, 120686, 121823, 122739,
     123493, 124124, 124660, 125120, 125520, 125871, 126181, 126457, 126704, 126926]"

definition LAG_LOCAL_INTERMITTENT :: "nat list" where
  "LAG_LOCAL_INTERMITTENT = [38, 75, 111, 146, 181, 215, 250, 284, 318, 351, 385, 419, 452, 485, 518, 551,
     584, 617, 650, 683]"

definition LAG_GLOBAL_PERMANENT :: "nat list" where
  "LAG_GLOBAL_PERMANENT = [66876, 93896, 105108, 111188, 114993, 117596, 119486, 120920, 122045, 122951,
     123696, 124318, 124847, 125301, 125695, 126041, 126346, 126617, 126860, 127079]"

definition LAG_LOCAL_PERMANENT :: "nat list" where
  "LAG_LOCAL_PERMANENT = [60, 119, 177, 234, 291, 347, 404, 460, 516, 571, 627, 683, 738, 793, 848, 903, 958,
     1013, 1068, 1123]"

definition clamp_osr :: "nat \<Rightarrow> nat" where
  "clamp_osr osr = (if osr < OSR_MIN then OSR_MIN else if osr > OSR_MAX then OSR_MAX else osr)"

definition rct_cutoff :: "nat \<Rightarrow> bool \<Rightarrow> nat" where
  "rct_cutoff osr permanent = (if permanent then 60 else 30) * clamp_osr osr"

record health =
  h_osr :: nat
  rct_run :: nat
  apt_reference :: u64
  apt_count :: nat
  apt_seen :: nat
  lag_history :: "u64 list"
  lag_scores :: "nat list"
  lag_best :: nat
  lag_observed :: nat
  lag_hits :: nat
  lag_run :: nat

definition health_new :: "nat \<Rightarrow> health" where
  "health_new osr = \<lparr> h_osr = clamp_osr osr, rct_run = 0, apt_reference = 0, apt_count = 0, apt_seen = 0,
     lag_history = replicate LAG_HISTORY 0, lag_scores = replicate LAG_HISTORY 0, lag_best = 0,
     lag_observed = 0, lag_hits = 0, lag_run = 0 \<rparr>"

definition retune :: "nat \<Rightarrow> health \<Rightarrow> health" where
  "retune osr h = h \<lparr> h_osr := clamp_osr osr \<rparr>"

definition rct :: "bool \<Rightarrow> health \<Rightarrow> u32 \<times> health" where
  "rct stuck h =
     (if \<not> stuck then (0, h \<lparr> rct_run := 0 \<rparr>)
      else
        let h = h \<lparr> rct_run := min (rct_run h + 1) (2 ^ 32 - 1) \<rparr>
        in (if rct_run h \<ge> rct_cutoff (h_osr h) True then FAIL_RCT_PERMANENT
            else if rct_run h \<ge> rct_cutoff (h_osr h) False then FAIL_RCT
            else 0, h))"

definition apt :: "u64 \<Rightarrow> health \<Rightarrow> u32 \<times> health" where
  "apt delta h =
     (if apt_seen h = 0 then (0, h \<lparr> apt_reference := delta, apt_count := 1, apt_seen := 1 \<rparr>)
      else
        let h = (if delta = apt_reference h then h \<lparr> apt_count := apt_count h + 1 \<rparr> else h);
            h = h \<lparr> apt_seen := apt_seen h + 1 \<rparr>;
            index = h_osr h - 1;
            fail = (if apt_count h \<ge> APT_PERMANENT ! index then FAIL_APT_PERMANENT
                    else if apt_count h \<ge> APT_INTERMITTENT ! index then FAIL_APT
                    else 0);
            h = (if apt_seen h \<ge> APT_WINDOW then h \<lparr> apt_seen := 0 \<rparr> else h)
        in (fail, h))"

text \<open>One pass of the scoring loop of \<^verbatim>\<open>lag\<close>: \<open>old k\<close> is the sample \<open>k + 1\<close> back.\<close>

fun score_lags :: "(nat \<Rightarrow> u64) \<Rightarrow> u64 \<Rightarrow> nat list \<Rightarrow> nat list \<times> nat \<Rightarrow> nat list \<times> nat" where
  "score_lags old delta [] (scores, b) = (scores, b)"
| "score_lags old delta (k # ks) (scores, b) =
     (if old k = delta
      then
        let scores = scores[k := scores ! k + 1];
            best = scores ! b;
            b = (if scores ! k > best \<or> scores ! k = best \<and> k < b then k else b)
        in score_lags old delta ks (scores, b)
      else score_lags old delta ks (scores, b))"

definition lag :: "u64 \<Rightarrow> health \<Rightarrow> u32 \<times> health" where
  "lag delta h =
     (let n = lag_observed h in
      if n < LAG_HISTORY
      then (0, h \<lparr> lag_history := (lag_history h)[n := delta], lag_observed := n + 1 \<rparr>)
      else
        let back_k = (\<lambda>k. (n - k - 1) mod LAG_HISTORY);
            index = h_osr h - 1;
            (fail, h) =
              (if lag_history h ! back_k (lag_best h) = delta
               then
                 let h = h \<lparr> lag_hits := lag_hits h + 1, lag_run := lag_run h + 1 \<rparr>
                 in (if lag_run h \<ge> LAG_LOCAL_PERMANENT ! index \<or> lag_hits h \<ge> LAG_GLOBAL_PERMANENT ! index
                     then FAIL_LAG_PERMANENT
                     else if lag_run h \<ge> LAG_LOCAL_INTERMITTENT ! index \<or> lag_hits h \<ge> LAG_GLOBAL_INTERMITTENT ! index
                     then FAIL_LAG
                     else 0, h)
               else (0, h \<lparr> lag_run := 0 \<rparr>));
            (scores, b) = score_lags (\<lambda>k. lag_history h ! back_k k) delta [0..<LAG_HISTORY] (lag_scores h, lag_best h);
            h = h \<lparr> lag_scores := scores, lag_best := b,
                    lag_history := (lag_history h)[n mod LAG_HISTORY := delta], lag_observed := n + 1 \<rparr>;
            h = (if lag_observed h \<ge> LAG_WINDOW
                 then h \<lparr> lag_history := replicate LAG_HISTORY 0, lag_scores := replicate LAG_HISTORY 0,
                          lag_best := 0, lag_observed := 0, lag_hits := 0, lag_run := 0 \<rparr>
                 else h)
        in (fail, h))"

definition observe :: "u64 \<Rightarrow> bool \<Rightarrow> health \<Rightarrow> u32 \<times> health" where
  "observe delta stuck h =
     (let (a, h) = rct stuck h;
          (b, h) = apt delta h;
          (c, h) = lag delta h
      in (a OR b OR c, h))"

lemmas health_consts = OSR_MIN_def OSR_MAX_def APT_WINDOW_def LAG_HISTORY_def LAG_WINDOW_def

section \<open>The tests over all samples\<close>

type_synonym sample = "u64 \<times> bool"

text \<open>The length of the longest suffix whose elements satisfy \<open>P\<close>.\<close>

definition trailing :: "('a \<Rightarrow> bool) \<Rightarrow> 'a list \<Rightarrow> nat" where
  "trailing P xs = length (takeWhile P (rev xs))"

text \<open>The window of size \<open>w\<close> the last sample of \<open>xs\<close> falls in, up to it.\<close>

definition last_window :: "nat \<Rightarrow> 'a list \<Rightarrow> 'a list" where
  "last_window w xs = drop (w * ((length xs - 1) div w)) xs"

definition rct_test :: "nat \<Rightarrow> sample list \<Rightarrow> u32" where
  "rct_test osr xs =
     (let t = trailing snd xs
      in if t \<ge> 60 * osr then FAIL_RCT_PERMANENT else if t \<ge> 30 * osr then FAIL_RCT else 0)"

definition apt_test :: "nat \<Rightarrow> u64 list \<Rightarrow> u32" where
  "apt_test osr ds =
     (let w = last_window 512 ds; c = count_list w (hd w)
      in if length w = 1 then 0
         else if c \<ge> APT_PERMANENT ! (osr - 1) then FAIL_APT_PERMANENT
         else if c \<ge> APT_INTERMITTENT ! (osr - 1) then FAIL_APT
         else 0)"

text \<open>
  The lag predictor on a window \<open>w\<close>: how often lag \<open>k\<close> would have predicted right, the lag that did
  best (the shortest of several), and the positions at which the best lag so far predicted right.
\<close>

definition score :: "u64 list \<Rightarrow> nat \<Rightarrow> nat" where
  "score w k = length (filter (\<lambda>j. w ! j = w ! (j - k - 1)) [8..<length w])"

definition best_lag :: "u64 list \<Rightarrow> nat" where
  "best_lag w = Min {k. k < 8 \<and> (\<forall>j < 8. score w j \<le> score w k)}"

definition predicted :: "u64 list \<Rightarrow> nat \<Rightarrow> bool" where
  "predicted w j \<longleftrightarrow> w ! j = w ! (j - best_lag (take j w) - 1)"

definition lag_test :: "nat \<Rightarrow> u64 list \<Rightarrow> u32" where
  "lag_test osr ds =
     (let w = last_window 131072 ds;
          hits = length (filter (predicted w) [8..<length w]);
          run = trailing (predicted w) [8..<length w]
      in if length w \<le> 8 \<or> \<not> predicted w (length w - 1) then 0
         else if run \<ge> LAG_LOCAL_PERMANENT ! (osr - 1) \<or> hits \<ge> LAG_GLOBAL_PERMANENT ! (osr - 1)
         then FAIL_LAG_PERMANENT
         else if run \<ge> LAG_LOCAL_INTERMITTENT ! (osr - 1) \<or> hits \<ge> LAG_GLOBAL_INTERMITTENT ! (osr - 1)
         then FAIL_LAG
         else 0)"

text \<open>A source watched from the start.\<close>

definition watched :: "nat \<Rightarrow> sample list \<Rightarrow> health" where
  "watched osr xs = fold (\<lambda>(d, st) h. snd (observe d st h)) xs (health_new osr)"

section \<open>Windows\<close>

definition cur_window :: "nat \<Rightarrow> 'a list \<Rightarrow> 'a list" where
  "cur_window w xs = drop (w * (length xs div w)) xs"

lemma length_cur_window [simp]: "length (cur_window w xs) = length xs mod w"
  by (simp add: cur_window_def minus_mult_div_eq_mod)

lemma cur_window_Nil: "cur_window w xs = [] \<longleftrightarrow> length xs mod w = 0"
  by (metis length_cur_window length_0_conv)

lemma last_window_snoc: "0 < w \<Longrightarrow> last_window w (xs @ [x]) = cur_window w xs @ [x]"
  using times_div_less_eq_dividend [of w "length xs"]
  by (simp add: last_window_def cur_window_def)

lemma cur_window_snoc:
  assumes "0 < w"
  shows "cur_window w (xs @ [x]) = (if Suc (length xs mod w) = w then [] else cur_window w xs @ [x])"
proof (cases "Suc (length xs mod w) = w")
  case True
  then have "Suc (length xs) mod w = 0" by (simp add: mod_Suc)
  then show ?thesis using True by (simp add: cur_window_Nil)
next
  case False
  then have "Suc (length xs) div w = length xs div w" by (simp add: div_Suc mod_Suc)
  then show ?thesis
    using False times_div_less_eq_dividend [of w "length xs"] by (simp add: cur_window_def)
qed

lemma trailing_snoc: "trailing P (xs @ [x]) = (if P x then Suc (trailing P xs) else 0)"
  by (simp add: trailing_def)

lemma trailing_Nil [simp]: "trailing P [] = 0"
  by (simp add: trailing_def)

lemma trailing_cong: "(\<And>x. x \<in> set xs \<Longrightarrow> P x = Q x) \<Longrightarrow> trailing P xs = trailing Q xs"
  by (auto simp: trailing_def intro!: arg_cong [of _ _ length] takeWhile_cong)

section \<open>The repetition count\<close>

definition rct_inv :: "health \<Rightarrow> sample list \<Rightarrow> bool" where
  "rct_inv h xs \<longleftrightarrow> rct_run h = min (trailing snd xs) (2 ^ 32 - 1)"

lemma clamp_osr_range: "1 \<le> clamp_osr osr \<and> clamp_osr osr \<le> 20"
  by (simp add: clamp_osr_def health_consts)

lemma clamp_osr_id: "1 \<le> osr \<Longrightarrow> osr \<le> 20 \<Longrightarrow> clamp_osr osr = osr"
  by (simp add: clamp_osr_def health_consts)

lemma rct_step:
  assumes "rct_inv h xs" "1 \<le> h_osr h" "h_osr h \<le> 20"
  shows "fst (rct st h) = rct_test (h_osr h) (xs @ [(d, st)])" "rct_inv (snd (rct st h)) (xs @ [(d, st)])"
  using assms by (auto simp: rct_def rct_inv_def rct_test_def trailing_snoc rct_cutoff_def clamp_osr_id Let_def min_def)

section \<open>The adaptive proportion\<close>

definition apt_inv :: "health \<Rightarrow> u64 list \<Rightarrow> bool" where
  "apt_inv h ds \<longleftrightarrow> apt_seen h = length ds mod 512
     \<and> (apt_seen h \<noteq> 0 \<longrightarrow> apt_reference h = hd (cur_window 512 ds)
         \<and> apt_count h = count_list (cur_window 512 ds) (hd (cur_window 512 ds)))"

lemma count_list_snoc: "count_list (xs @ [x]) y = count_list xs y + (if x = y then 1 else 0)"
  by simp

lemma apt_step:
  assumes "apt_inv h ds"
  shows "fst (apt d h) = apt_test (h_osr h) (ds @ [d])" "apt_inv (snd (apt d h)) (ds @ [d])"
proof -
  let ?w = "cur_window 512 ds"
  have lw: "last_window 512 (ds @ [d]) = ?w @ [d]" by (simp add: last_window_snoc)
  have len: "length ?w = length ds mod 512" "length ?w = apt_seen h" using assms by (simp_all add: apt_inv_def)
  show "fst (apt d h) = apt_test (h_osr h) (ds @ [d])"
  proof (cases "apt_seen h = 0")
    case True
    then show ?thesis using len by (simp add: apt_def apt_test_def lw Let_def)
  next
    case False
    then have "?w \<noteq> []" using len by (metis list.size(3))
    with False assms show ?thesis
      by (auto simp: apt_def apt_test_def lw Let_def apt_inv_def health_consts)
  qed
  show "apt_inv (snd (apt d h)) (ds @ [d])"
  proof (cases "apt_seen h = 0")
    case True
    then have "?w = []" using len by (simp add: cur_window_Nil)
    then show ?thesis using True len by (simp add: apt_def apt_inv_def cur_window_snoc mod_Suc)
  next
    case False
    then have "?w \<noteq> []" using len by (metis list.size(3))
    moreover have "length ds mod 512 < 512" by simp
    ultimately show ?thesis
      using False assms by (auto simp: apt_def apt_inv_def cur_window_snoc mod_Suc health_consts Let_def)
  qed
qed


section \<open>The lag predictor\<close>

definition least_max :: "nat list \<Rightarrow> nat \<Rightarrow> bool" where
  "least_max xs b \<longleftrightarrow> b < length xs \<and> (\<forall>j < length xs. xs ! j \<le> xs ! b) \<and> (\<forall>j < b. xs ! j < xs ! b)"

lemma least_max_bump:
  assumes "least_max xs b" "k < length xs"
  defines "ys \<equiv> xs[k := xs ! k + 1]"
  shows "least_max ys (if ys ! k > ys ! b \<or> ys ! k = ys ! b \<and> k < b then k else b)"
  using assms(1,2) unfolding ys_def least_max_def
  by (auto simp: nth_list_update) (metis less_Suc_eq_le order_le_less_trans le_less_Suc_eq not_less_eq_eq
      less_or_eq_imp_le linorder_neqE_nat le_eq_less_or_eq leD leI)+

lemma score_lags_spec:
  assumes "least_max xs b" "\<forall>k \<in> set ks. k < length xs" "distinct ks"
    "score_lags old delta ks (xs, b) = (ys, c)"
  shows "least_max ys c \<and> length ys = length xs
    \<and> (\<forall>k < length xs. ys ! k = xs ! k + (if k \<in> set ks \<and> old k = delta then 1 else 0))"
  using assms
proof (induction ks arbitrary: xs b)
  case (Cons k ks)
  show ?case
  proof (cases "old k = delta")
    case True
    let ?xs = "xs[k := xs ! k + 1]"
    let ?b = "if ?xs ! k > ?xs ! b \<or> ?xs ! k = ?xs ! b \<and> k < b then k else b"
    have "least_max ?xs ?b" using Cons.prems by (intro least_max_bump) simp_all
    moreover have "score_lags old delta ks (?xs, ?b) = (ys, c)"
      using Cons.prems(4) True by (simp add: Let_def)
    ultimately have "least_max ys c \<and> length ys = length ?xs
        \<and> (\<forall>j < length ?xs. ys ! j = ?xs ! j + (if j \<in> set ks \<and> old j = delta then 1 else 0))"
      using Cons.prems by (intro Cons.IH) simp_all
    then show ?thesis using Cons.prems True by (auto simp: nth_list_update)
  next
    case False
    then show ?thesis using Cons.IH [of xs b] Cons.prems by auto
  qed
qed simp


lemma best_lag_least_max:
  assumes "length xs = 8" "\<forall>k < 8. xs ! k = score w k" "least_max xs b"
  shows "b = best_lag w"
proof -
  have b: "b < 8" "\<forall>j < 8. score w j \<le> score w b" "\<forall>j < b. score w j < score w b"
    using assms unfolding least_max_def by (metis order_less_trans)+
  let ?S = "{k. k < 8 \<and> (\<forall>j < 8. score w j \<le> score w k)}"
  have "finite ?S" by (rule finite_subset [of _ "{..<8}"]) auto
  moreover have "b \<in> ?S" using b by blast
  moreover have "b \<le> k" if "k \<in> ?S" for k
    using that b by (metis (mono_tags, lifting) leD leI mem_Collect_eq)
  ultimately show ?thesis unfolding best_lag_def by (intro Min_eqI [symmetric])
qed

lemma score_snoc:
  assumes "8 \<le> length w" "k < 8"
  shows "score (w @ [d]) k = score w k + (if w ! (length w - k - 1) = d then 1 else 0)"
proof -
  have "filter (\<lambda>j. (w @ [d]) ! j = (w @ [d]) ! (j - k - 1)) [8..<length w]
      = filter (\<lambda>j. w ! j = w ! (j - k - 1)) [8..<length w]"
    by (rule filter_cong) (auto simp: nth_append)
  then show ?thesis using assms by (auto simp: score_def nth_append)
qed

lemma score_short: "length w \<le> 8 \<Longrightarrow> score w k = 0"
  by (simp add: score_def)

lemma predicted_snoc_less: "j < length w \<Longrightarrow> predicted (w @ [d]) j = predicted w j"
  by (simp add: predicted_def nth_append less_imp_diff_less)

lemma predicted_snoc: "8 \<le> length w \<Longrightarrow> predicted (w @ [d]) (length w) \<longleftrightarrow> w ! (length w - best_lag w - 1) = d"
  by (auto simp: predicted_def nth_append)

definition hits :: "u64 list \<Rightarrow> nat" where
  "hits w = length (filter (predicted w) [8..<length w])"

definition run :: "u64 list \<Rightarrow> nat" where
  "run w = trailing (predicted w) [8..<length w]"

lemma hits_run_snoc:
  assumes "8 \<le> length w"
  shows "hits (w @ [d]) = hits w + (if w ! (length w - best_lag w - 1) = d then 1 else 0)"
    "run (w @ [d]) = (if w ! (length w - best_lag w - 1) = d then Suc (run w) else 0)"
proof -
  have "filter (predicted (w @ [d])) [8..<length w] = filter (predicted w) [8..<length w]"
    by (rule filter_cong) (auto simp: predicted_snoc_less)
  moreover have "trailing (predicted (w @ [d])) [8..<length w] = trailing (predicted w) [8..<length w]"
    by (rule trailing_cong) (simp add: predicted_snoc_less)
  ultimately show "hits (w @ [d]) = hits w + (if w ! (length w - best_lag w - 1) = d then 1 else 0)"
    "run (w @ [d]) = (if w ! (length w - best_lag w - 1) = d then Suc (run w) else 0)"
    using assms by (simp_all add: hits_def run_def trailing_snoc predicted_snoc)
qed

lemma hits_run_short: "length w \<le> 8 \<Longrightarrow> hits w = 0 \<and> run w = 0"
  by (simp add: hits_def run_def)

text \<open>The state of the predictor on a window.\<close>

definition lag_state :: "health \<Rightarrow> u64 list \<Rightarrow> bool" where
  "lag_state h w \<longleftrightarrow> lag_observed h = length w \<and> length (lag_history h) = 8 \<and> length (lag_scores h) = 8
     \<and> (\<forall>i < length w. length w \<le> i + 8 \<longrightarrow> lag_history h ! (i mod 8) = w ! i)
     \<and> (\<forall>k < 8. lag_scores h ! k = score w k) \<and> least_max (lag_scores h) (lag_best h)
     \<and> lag_hits h = hits w \<and> lag_run h = run w"

lemma lag_state_Nil:
  assumes "lag_observed h = 0" "lag_history h = replicate 8 0" "lag_scores h = replicate 8 0" "lag_best h = 0"
    "lag_hits h = 0" "lag_run h = 0"
  shows "lag_state h []"
  using assms by (simp add: lag_state_def score_short hits_run_short least_max_def)

lemma ring_update:
  assumes "length xs = 8" "\<forall>i < n. n \<le> i + 8 \<longrightarrow> xs ! (i mod 8) = w ! i" "length w = n"
    "i < Suc n" "Suc n \<le> i + 8"
  shows "xs[n mod 8 := d] ! (i mod 8) = (w @ [d]) ! i"
proof (cases "i = n")
  case False
  with assms(4,5) have "0 < n - i" "n - i < 8" by simp_all
  then have "n mod 8 \<noteq> i mod 8"
    by (metis assms(4) less_Suc_eq_le mod_eq_dvd_iff_nat nat_dvd_not_less)
  then show ?thesis using assms False by (simp add: nth_append)
next
  case True
  with assms show ?thesis by (auto simp: nth_append)
qed


lemma lag_fill:
  assumes "lag_state h w" "length w < 8"
  shows "lag d h = (0, h \<lparr> lag_history := (lag_history h)[length w := d], lag_observed := Suc (length w) \<rparr>)"
    "lag_state (snd (lag d h)) (w @ [d])"
proof -
  have n: "lag_observed h = length w" using assms(1) by (simp add: lag_state_def)
  show e: "lag d h = (0, h \<lparr> lag_history := (lag_history h)[length w := d], lag_observed := Suc (length w) \<rparr>)"
    using n assms(2) by (simp add: lag_def health_consts Let_def)
  have "\<forall>i < Suc (length w). (lag_history h)[length w := d] ! (i mod 8) = (w @ [d]) ! i"
    using ring_update [of "lag_history h" "length w" w _ d] assms by (auto simp: lag_state_def)
  then show "lag_state (snd (lag d h)) (w @ [d])"
    using assms unfolding e by (simp add: lag_state_def score_short hits_run_short)
qed

lemma lag_predict:
  assumes "lag_state h w" "8 \<le> length w"
  defines "osr \<equiv> h_osr h"
  shows "fst (lag d h) =
     (if w ! (length w - best_lag w - 1) \<noteq> d then 0
      else if run (w @ [d]) \<ge> LAG_LOCAL_PERMANENT ! (osr - 1) \<or> hits (w @ [d]) \<ge> LAG_GLOBAL_PERMANENT ! (osr - 1)
      then FAIL_LAG_PERMANENT
      else if run (w @ [d]) \<ge> LAG_LOCAL_INTERMITTENT ! (osr - 1) \<or> hits (w @ [d]) \<ge> LAG_GLOBAL_INTERMITTENT ! (osr - 1)
      then FAIL_LAG else 0)"
    "lag_state (snd (lag d h)) (if Suc (length w) \<ge> 131072 then [] else w @ [d])"
proof -
  let ?n = "length w"
  let ?old = "\<lambda>k. lag_history h ! ((?n - k - 1) mod 8)"
  obtain ys c where sl: "score_lags ?old d [0..<8] (lag_scores h, lag_best h) = (ys, c)"
    by (cases "score_lags ?old d [0..<8] (lag_scores h, lag_best h)")
  have st: "lag_observed h = ?n" "length (lag_history h) = 8" "length (lag_scores h) = 8"
      "\<forall>k < 8. lag_scores h ! k = score w k" "least_max (lag_scores h) (lag_best h)"
      "lag_hits h = hits w" "lag_run h = run w"
    using assms(1) by (simp_all add: lag_state_def)
  have best: "lag_best h = best_lag w" using best_lag_least_max st by blast
  then have b8: "best_lag w < 8" using st by (simp add: least_max_def)
  have old: "?old k = w ! (?n - k - 1)" if "k < 8" for k
    using assms(1,2) that by (auto simp: lag_state_def)
  have ys: "least_max ys c" "length ys = 8" "\<forall>k < 8. ys ! k = score (w @ [d]) k"
    using score_lags_spec [OF st(5) _ _ sl] st old assms(2) by (auto simp: score_snoc)
  have hist: "\<forall>i < Suc ?n. Suc ?n \<le> i + 8 \<longrightarrow> (lag_history h)[?n mod 8 := d] ! (i mod 8) = (w @ [d]) ! i"
    using ring_update [of "lag_history h" ?n w _ d] assms(1) by (auto simp: lag_state_def)
  have pred: "?old (lag_best h) = w ! (?n - best_lag w - 1)" using old [OF b8] best by simp
  note hr = hits_run_snoc [OF assms(2), of d]
  show "fst (lag d h) =
     (if w ! (length w - best_lag w - 1) \<noteq> d then 0
      else if run (w @ [d]) \<ge> LAG_LOCAL_PERMANENT ! (osr - 1) \<or> hits (w @ [d]) \<ge> LAG_GLOBAL_PERMANENT ! (osr - 1)
      then FAIL_LAG_PERMANENT
      else if run (w @ [d]) \<ge> LAG_LOCAL_INTERMITTENT ! (osr - 1) \<or> hits (w @ [d]) \<ge> LAG_GLOBAL_INTERMITTENT ! (osr - 1)
      then FAIL_LAG else 0)"
    using st sl pred hr assms(2) by (simp add: lag_def health_consts Let_def case_prod_unfold osr_def)
  show "lag_state (snd (lag d h)) (if Suc (length w) \<ge> 131072 then [] else w @ [d])"
  proof (cases "Suc ?n \<ge> 131072")
    case True
    then show ?thesis
      using st sl assms(2) by (auto simp: lag_def health_consts Let_def case_prod_unfold intro!: lag_state_Nil)
  next
    case False
    then show ?thesis
      using st sl pred hr ys hist assms(2)
      by (simp add: lag_def health_consts Let_def case_prod_unfold lag_state_def)
  qed
qed


lemma lag_step:
  assumes "lag_state h (cur_window 131072 ds)"
  shows "fst (lag d h) = lag_test (h_osr h) (ds @ [d])" "lag_state (snd (lag d h)) (cur_window 131072 (ds @ [d]))"
proof -
  let ?w = "cur_window 131072 ds"
  have lw: "last_window 131072 (ds @ [d]) = ?w @ [d]" by (simp add: last_window_snoc)
  have less: "length ?w < 131072" by simp
  have cw: "cur_window 131072 (ds @ [d]) = (if Suc (length ?w) \<ge> 131072 then [] else ?w @ [d])"
    using less by (auto simp: cur_window_snoc)
  have "fst (lag d h) = lag_test (h_osr h) (ds @ [d])
      \<and> lag_state (snd (lag d h)) (if Suc (length ?w) \<ge> 131072 then [] else ?w @ [d])"
  proof (cases "length ?w < 8")
    case True
    then show ?thesis
      using lag_fill [OF assms True] by (simp add: lag_test_def lw Let_def del: length_cur_window)
  next
    case False
    then have "8 \<le> length ?w" by simp
    then show ?thesis
      using lag_predict [OF assms] predicted_snoc [of ?w d]
      by (simp add: lag_test_def lw Let_def hits_def run_def del: length_cur_window upt_Suc)
  qed
  then show "fst (lag d h) = lag_test (h_osr h) (ds @ [d])" "lag_state (snd (lag d h)) (cur_window 131072 (ds @ [d]))"
    unfolding cw by blast+
qed

section \<open>All three\<close>

lemma rct_frame [simp]:
  "h_osr (snd (rct st h)) = h_osr h" "apt_inv (snd (rct st h)) ds = apt_inv h ds"
  "lag_state (snd (rct st h)) w = lag_state h w"
  by (simp_all add: rct_def apt_inv_def lag_state_def Let_def)

lemma apt_frame [simp]:
  "h_osr (snd (apt d h)) = h_osr h" "rct_inv (snd (apt d h)) xs = rct_inv h xs"
  "lag_state (snd (apt d h)) w = lag_state h w"
  by (simp_all add: apt_def rct_inv_def lag_state_def Let_def)

lemma lag_frame [simp]:
  "h_osr (snd (lag d h)) = h_osr h" "rct_inv (snd (lag d h)) xs = rct_inv h xs"
  "apt_inv (snd (lag d h)) ds = apt_inv h ds"
  by (simp_all add: lag_def rct_inv_def apt_inv_def Let_def case_prod_unfold)

definition health_inv :: "health \<Rightarrow> sample list \<Rightarrow> bool" where
  "health_inv h xs \<longleftrightarrow> 1 \<le> h_osr h \<and> h_osr h \<le> 20 \<and> rct_inv h xs \<and> apt_inv h (map fst xs)
     \<and> lag_state h (cur_window 131072 (map fst xs))"

definition all_tests :: "nat \<Rightarrow> sample list \<Rightarrow> u32" where
  "all_tests osr xs = rct_test osr xs OR apt_test osr (map fst xs) OR lag_test osr (map fst xs)"

lemma health_inv_new: "health_inv (health_new osr) []"
  using clamp_osr_range [of osr]
  by (auto simp: health_inv_def health_new_def rct_inv_def apt_inv_def cur_window_def health_consts intro!: lag_state_Nil)

lemma health_inv_retune: "health_inv h xs \<Longrightarrow> health_inv (retune osr h) xs"
  using clamp_osr_range [of osr]
  by (simp add: health_inv_def retune_def rct_inv_def apt_inv_def lag_state_def)

lemma observe_step:
  assumes "health_inv h xs"
  shows "fst (observe d st h) = all_tests (h_osr h) (xs @ [(d, st)])"
    "health_inv (snd (observe d st h)) (xs @ [(d, st)])"
proof -
  let ?h1 = "snd (rct st h)" and ?h2 = "snd (apt d (snd (rct st h)))"
  have i: "rct_inv h xs" "1 \<le> h_osr h" "h_osr h \<le> 20" "apt_inv ?h1 (map fst xs)"
      "lag_state ?h2 (cur_window 131072 (map fst xs))"
    using assms by (simp_all add: health_inv_def)
  note steps = rct_step [OF i(1-3), of st d] apt_step [OF i(4), of d] lag_step [OF i(5), of d]
  show "fst (observe d st h) = all_tests (h_osr h) (xs @ [(d, st)])"
    using steps by (simp add: observe_def all_tests_def case_prod_unfold Let_def)
  show "health_inv (snd (observe d st h)) (xs @ [(d, st)])"
    using steps i by (simp add: observe_def health_inv_def case_prod_unfold Let_def)
qed

lemma health_inv_watched: "health_inv (watched osr xs) xs"
proof (induction xs rule: rev_induct)
  case (snoc x xs)
  then show ?case using observe_step(2) by (cases x) (simp add: watched_def)
qed (simp add: watched_def health_inv_new)

text \<open>
  Every counter below its width and every index below the length of its table.
\<close>

definition health_ok :: "health \<Rightarrow> bool" where
  "health_ok h \<longleftrightarrow> h_osr h - 1 < length APT_PERMANENT \<and> 0 < h_osr h \<and> rct_run h < 2 ^ 32
     \<and> apt_seen h < 512 \<and> (apt_seen h \<noteq> 0 \<longrightarrow> apt_count h \<le> apt_seen h)
     \<and> length (lag_history h) = 8 \<and> length (lag_scores h) = 8 \<and> lag_best h < 8 \<and> lag_observed h < 131072
     \<and> lag_hits h \<le> lag_observed h \<and> lag_run h \<le> lag_observed h \<and> list_all (\<lambda>x. x \<le> lag_observed h) (lag_scores h)"

lemma health_inv_ok:
  assumes "health_inv h xs"
  shows "health_ok h"
proof -
  let ?w = "cur_window 131072 (map fst xs)"
  have l: "lag_state h ?w" using assms by (simp add: health_inv_def)
  have "score ?w k \<le> length ?w" for k
    unfolding score_def using length_filter_le [of _ "[8..<length ?w]"] by (rule order_trans) simp
  moreover have "hits ?w \<le> length ?w"
    unfolding hits_def using length_filter_le [of _ "[8..<length ?w]"] by (rule order_trans) simp
  moreover have "run ?w \<le> length ?w"
    unfolding run_def trailing_def using length_takeWhile_le [of _ "rev [8..<length ?w]"] by (rule order_trans) simp
  ultimately have "lag_hits h \<le> lag_observed h" "lag_run h \<le> lag_observed h" "lag_best h < 8"
      "list_all (\<lambda>x. x \<le> lag_observed h) (lag_scores h)"
    using l by (auto simp: lag_state_def least_max_def list_all_length simp del: length_cur_window)
  moreover have "apt_count h \<le> apt_seen h" if "apt_seen h \<noteq> 0"
    using assms that count_le_length [of "cur_window 512 (map fst xs)"]
    by (auto simp: health_inv_def apt_inv_def)
  ultimately show ?thesis
    using assms l by (auto simp: health_ok_def health_inv_def rct_inv_def apt_inv_def lag_state_def APT_PERMANENT_def)
qed


text \<open>
  C37: The health tests are the ones specified, at any time and after any change of the oversampling
  rate: the failure bits of a sample are those that the repetition count, the adaptive proportion and
  the lag predictor give over the list of all samples since the start, the lag used being the shortest
  of those that have predicted best in the window.
\<close>

theorem health_tests_exact:
  "fst (observe d st (retune osr' (watched osr xs))) = all_tests (clamp_osr osr') (xs @ [(d, st)])
   \<and> fst (observe d st (watched osr xs)) = all_tests (clamp_osr osr) (xs @ [(d, st)])"
proof -
  have "h_osr (watched osr ys) = clamp_osr osr" for ys
    by (induction ys rule: rev_induct)
      (simp_all add: watched_def health_new_def observe_def case_prod_unfold Let_def)
  then show ?thesis
    using observe_step(1) [OF health_inv_retune [OF health_inv_watched]] observe_step(1) [OF health_inv_watched]
    by (simp add: retune_def)
qed

text \<open>
  Nothing overflows: after any samples and with any rate every counter is within its 32 bits,
  every table index in range, and the windows are bounded.
\<close>

theorem health_well_formed: "health_ok (watched osr xs) \<and> health_ok (retune osr' (watched osr xs))"
  using health_inv_ok [OF health_inv_watched] health_inv_ok [OF health_inv_retune [OF health_inv_watched]] by blast

text \<open>
  A dead source is caught.  Whatever came before, a whole window of one and the same value raises
  the permanent failure of the adaptive proportion test with its last sample, at every rate.
\<close>

theorem dead_source_caught:
  assumes "length xs mod 512 = 0" "length ys = 511" "list_all (\<lambda>y. fst y = d) ys"
  shows "bit (fst (observe d st (watched osr (xs @ ys)))) 4"
proof -
  let ?h = "watched osr (xs @ ys)"
  let ?ds = "map fst (xs @ ys)"
  have "length xs + 511 = 512 * (length xs div 512) + 511"
    using assms(1) by (metis add_cancel_right_right mult_div_mod_eq)
  then have "(length xs + 511) div 512 = length xs div 512" by simp
  then have "cur_window 512 ?ds = map fst ys"
    using assms(1,2) by (simp add: cur_window_def minus_mod_eq_mult_div [symmetric])
  moreover have "map fst ys = replicate 511 d"
    using assms(2,3) by (intro replicate_eqI) (auto simp: list_all_iff)
  ultimately have w: "last_window 512 (?ds @ [d]) = replicate 512 d"
    by (simp only: last_window_snoc zero_less_numeral) (simp add: replicate_append_same flip: replicate_Suc)
  have inv: "health_inv ?h (xs @ ys)" by (rule health_inv_watched)
  then have "h_osr ?h - 1 < length APT_PERMANENT" by (auto simp: health_inv_def APT_PERMANENT_def)
  moreover have "list_all (\<lambda>x. x \<le> 512) APT_PERMANENT" by (simp add: APT_PERMANENT_def)
  ultimately have "APT_PERMANENT ! (h_osr ?h - 1) \<le> 512" by (simp add: list_all_length)
  have "apt_test (h_osr ?h) (?ds @ [d]) = FAIL_APT_PERMANENT"
  proof -
    have "count_list (replicate n d) d = n" for n by (induction n) simp_all
    with \<open>APT_PERMANENT ! (h_osr ?h - 1) \<le> 512\<close> show ?thesis unfolding apt_test_def w Let_def by simp
  qed
  then show ?thesis
    using observe_step(1) [OF inv, of d st]
    by (simp add: all_tests_def FAIL_APT_PERMANENT_def bit_or_iff)
qed

theorem dead_source_caught_witness:
  "bit (fst (observe 7 False (watched 3 ([] @ replicate 511 (7, False))))) 4"
  by (rule dead_source_caught) (simp_all add: list_all_iff)

end
