(* ===== verification/Ncfs_Node.thy ===== *)
theory Ncfs_Node
  imports Ncfs_Tree
begin

text \<open>
  Tree nodes in memory, from \<^verbatim>\<open>src/crates/nanochrono-core/src/ncfs/write.rs\<close>: the enumerations
  \<^verbatim>\<open>NodeRef\<close> and \<^verbatim>\<open>Mem\<close> with their measures, splitting, writing a node into a block and reading one
  back.  A written node passes the reader's checks and holds what it held in memory; splitting keeps
  the entries in order and yields nodes that fit.
\<close>

section \<open>Nodes\<close>

datatype node_ref = Disk ptr | InMem nat

datatype mem = Leaf "(key \<times> bytes) list" | Node u8 "(key \<times> node_ref) list"

fun mem_level :: "mem \<Rightarrow> u8" where
  "mem_level (Leaf _) = 0"
| "mem_level (Node l _) = l"

fun items_size :: "(key \<times> bytes) list \<Rightarrow> nat" where
  "items_size [] = 0"
| "items_size ((k, v) # items) = (ITEM_HEADER + length v) + items_size items"

fun mem_size :: "mem \<Rightarrow> nat" where
  "mem_size (Leaf items) = NODE_HEADER + items_size items"
| "mem_size (Node _ ch) = NODE_HEADER + length ch * CHILD_ENTRY"

fun mem_len :: "mem \<Rightarrow> nat" where
  "mem_len (Leaf items) = length items"
| "mem_len (Node _ ch) = length ch"

fun overfull :: "mem \<Rightarrow> bool" where
  "overfull (Leaf items) \<longleftrightarrow> mem_size (Leaf items) > BLOCK"
| "overfull (Node _ ch) \<longleftrightarrow> length ch > MAX_CHILDREN"

fun underfull :: "mem \<Rightarrow> bool" where
  "underfull (Leaf items) \<longleftrightarrow> mem_size (Leaf items) < BLOCK div 4"
| "underfull (Node _ ch) \<longleftrightarrow> length ch < MAX_CHILDREN div 4"

fun first_key :: "mem \<Rightarrow> key option" where
  "first_key (Leaf []) = None"
| "first_key (Leaf (i # _)) = Some (fst i)"
| "first_key (Node _ []) = None"
| "first_key (Node _ (c # _)) = Some (fst c)"

section \<open>Splitting\<close>

text \<open>
  The search for the best sofar of a leaf of \<open>n\<close> items and \<open>tot\<close> bytes, from item \<open>i\<close> on with \<open>acc\<close>
  bytes before it; \<open>best\<close> is the larger half of the best sofar so far, at first \<^verbatim>\<open>usize::MAX\<close>.
\<close>

fun find_cut :: "nat \<Rightarrow> nat \<Rightarrow> nat \<Rightarrow> (key \<times> bytes) list \<Rightarrow> nat \<Rightarrow> nat \<Rightarrow> nat option \<Rightarrow> nat option" where
  "find_cut n tot i [] acc best sofar = sofar"
| "find_cut n tot i ((_, v) # items) acc best sofar =
     (let acc = acc + (ITEM_HEADER + length v);
          l = acc;
          r = tot - acc;
          cap = BLOCK - NODE_HEADER
      in if i + 1 < n \<and> l \<le> cap \<and> r \<le> cap \<and> max l r < best
         then find_cut n tot (i + 1) items acc (max l r) (Some (i + 1))
         else find_cut n tot (i + 1) items acc best sofar)"

fun pack :: "(key \<times> bytes) list \<Rightarrow> (key \<times> bytes) list \<Rightarrow> nat \<Rightarrow> mem list" where
  "pack [] cur sz = [Leaf cur]"
| "pack (it # items) cur sz =
     (let s = ITEM_HEADER + length (snd it)
      in if sz + s > BLOCK - NODE_HEADER \<and> cur \<noteq> []
         then Leaf cur # pack items [it] s
         else pack items (cur @ [it]) (sz + s))"

definition div_ceil :: "nat \<Rightarrow> nat \<Rightarrow> nat" where
  "div_ceil a b = (a + b - 1) div b"

text \<open>The loop over an inner node; \<^verbatim>\<open>per\<close> is never 0 there, where the loop of the source would not end.\<close>

function cut_children :: "u8 \<Rightarrow> nat \<Rightarrow> (key \<times> node_ref) list \<Rightarrow> mem list" where
  "cut_children level per ch =
     (if ch = [] then []
      else if per = 0 then []
      else Node level (take (min per (length ch)) ch) # cut_children level per (drop (min per (length ch)) ch))"
  by pat_completeness auto
termination by (relation "measure (\<lambda>(_, _, ch). length ch)") auto

declare cut_children.simps [simp del]

fun mem_split :: "mem \<Rightarrow> mem list" where
  "mem_split (Leaf items) =
     (case find_cut (length items) (items_size items) 0 items 0 (2 ^ 64 - 1) None of
        Some c \<Rightarrow> [Leaf (take c items), Leaf (drop c items)]
      | None \<Rightarrow> pack items [] 0)"
| "mem_split (Node level ch) =
     (let parts = max (div_ceil (length ch) MAX_CHILDREN) 2;
          per = div_ceil (length ch) parts
      in cut_children level per ch)"

section \<open>Blocks\<close>

fun encode_items :: "nat \<Rightarrow> nat \<Rightarrow> (key \<times> bytes) list \<Rightarrow> bytes \<Rightarrow> bytes option" where
  "encode_items i stop [] out = Some out"
| "encode_items i stop ((k, v) # items) out = do {
     let at = NODE_HEADER + i * ITEM_HEADER;
     out \<leftarrow> key_write k at out;
     stop \<leftarrow> (if length v \<le> stop then Some (stop - length v) else None);
     out \<leftarrow> wr16 (at + KEY_LEN) (word_of_nat stop) out;
     out \<leftarrow> wr16 (at + KEY_LEN + 2) (word_of_nat (length v)) out;
     out \<leftarrow> copy_slice out stop (stop + length v) v;
     encode_items (i + 1) stop items out }"

fun encode_children :: "nat \<Rightarrow> (key \<times> node_ref) list \<Rightarrow> bytes \<Rightarrow> bytes option" where
  "encode_children i [] out = Some out"
| "encode_children i ((k, r) # ch) out = do {
     out \<leftarrow> (case r of Disk p \<Rightarrow> write_child out i k p | InMem _ \<Rightarrow> Some out);
     encode_children (i + 1) ch out }"

definition encode_mem :: "mem \<Rightarrow> node_header \<Rightarrow> bytes \<Rightarrow> bytes option" where
  "encode_mem m h out = do {
     let out = zeros (length out);
     out \<leftarrow> node_header_write h out;
     case m of
       Leaf items \<Rightarrow> encode_items 0 BLOCK items out
     | Node _ ch \<Rightarrow> encode_children 0 ch out }"

definition decode_node :: "bytes \<Rightarrow> node_header \<Rightarrow> mem option" where
  "decode_node b h =
     (let n = unat (n_count h)
      in if n_level h = 0
         then map_option Leaf (those (map (leaf_item b) [0..<n]))
         else map_option (Node (n_level h))
                (those (map (\<lambda>i. map_option (\<lambda>(k, p). (k, Disk p)) (child b i (n_level h))) [0..<n])))"

section \<open>Splitting keeps the entries and makes them fit\<close>

lemma items_size_append [simp]: "items_size (xs @ ys) = items_size xs + items_size ys"
  by (induction xs rule: items_size.induct) simp_all

lemma items_size_eq: "items_size xs = (\<Sum>(k, v) \<leftarrow> xs. 21 + length v)"
  by (induction xs rule: items_size.induct) (simp_all add: ncfs_sizes)

lemma div_ceil_bounds: "0 < b \<Longrightarrow> div_ceil a b \<le> n \<longleftrightarrow> a \<le> n * b"
proof -
  assume b: "0 < b"
  have "div_ceil a b \<le> n \<longleftrightarrow> a + b - 1 < (n + 1) * b"
    unfolding div_ceil_def using div_less_iff_less_mult [OF b, of "a + b - 1" "n + 1"] by linarith
  also have "\<dots> \<longleftrightarrow> a \<le> n * b" using b by (simp add: algebra_simps) linarith
  finally show ?thesis .
qed

text \<open>An item fits in a leaf of its own.\<close>

definition item_ok :: "key \<times> bytes \<Rightarrow> bool" where
  "item_ok it \<longleftrightarrow> length (snd it) \<le> MAX_ITEM"

lemma item_ok_size: "item_ok (k, v) \<Longrightarrow> ITEM_HEADER + length v \<le> 4032"
  by (simp add: item_ok_def MAX_ITEM_def ncfs_sizes)

text \<open>A place where both halves of a leaf fit.\<close>

definition good_cut :: "(key \<times> bytes) list \<Rightarrow> nat \<Rightarrow> bool" where
  "good_cut xs c \<longleftrightarrow> 0 < c \<and> c < length xs \<and> items_size (take c xs) \<le> 4032 \<and> items_size (drop c xs) \<le> 4032"

lemma find_cut_sound:
  assumes "find_cut (length xs) (items_size xs) i items acc best sofar = Some c"
    "items = drop i xs" "acc = items_size (take i xs)" "i \<le> length xs" "\<And>c. sofar = Some c \<Longrightarrow> good_cut xs c"
  shows "good_cut xs c"
  using assms
proof (induction items arbitrary: i acc best sofar)
  case (Cons it items)
  obtain k v where it: "it = (k, v)" by (cases it)
  have i: "i < length xs" using Cons.prems(2) by (cases "i < length xs") auto
  then have d: "xs ! i = it" "items = drop (Suc i) xs" using Cons.prems(2) by (simp_all add: Cons_nth_drop_Suc [symmetric])
  have acc: "acc + (ITEM_HEADER + length v) = items_size (take (Suc i) xs)"
    using Cons.prems(3) d(1) i it by (simp add: take_Suc_conv_app_nth)
  have "items_size xs = items_size (take (Suc i) xs) + items_size (drop (Suc i) xs)"
    by (metis append_take_drop_id items_size_append)
  then have rest: "items_size xs - items_size (take (Suc i) xs) = items_size (drop (Suc i) xs)" by simp
  show ?case
  proof (rule Cons.IH [OF _ d(2) refl])
    show "find_cut (length xs) (items_size xs) (Suc i) items (items_size (take (Suc i) xs))
       (if good_cut xs (Suc i) \<and> max (items_size (take (Suc i) xs)) (items_size (drop (Suc i) xs)) < best
        then max (items_size (take (Suc i) xs)) (items_size (drop (Suc i) xs)) else best)
       (if good_cut xs (Suc i) \<and> max (items_size (take (Suc i) xs)) (items_size (drop (Suc i) xs)) < best
        then Some (Suc i) else sofar) = Some c"
      using Cons.prems(1) unfolding it find_cut.simps Let_def acc rest
      by (auto simp: good_cut_def BLOCK_def NODE_HEADER_def split: if_splits)
  qed (use i Cons.prems(5) in \<open>auto split: if_splits\<close>)
qed auto

lemma pack_sound:
  assumes "items_size cur = sz" "sz \<le> 4032" "\<forall>it \<in> set items. item_ok it" "cur \<noteq> [] \<or> items \<noteq> []"
  obtains parts where "pack items cur sz = map Leaf parts" "concat parts = cur @ items"
    "\<forall>p \<in> set parts. p \<noteq> [] \<and> items_size p \<le> 4032" "length parts = 1 \<Longrightarrow> items_size (cur @ items) \<le> 4032"
  using assms
proof (induction items arbitrary: cur sz thesis)
  case Nil
  then show ?case by (intro Nil.prems(1) [of "[cur]"]) auto
next
  case (Cons it items)
  obtain k v where it: "it = (k, v)" by (cases it)
  then have s: "ITEM_HEADER + length v \<le> 4032" using Cons.prems(4) item_ok_size by auto
  show ?case
  proof (cases "sz + (ITEM_HEADER + length v) > 4032 \<and> cur \<noteq> []")
    case True
    obtain parts where p: "pack items [it] (ITEM_HEADER + length v) = map Leaf parts" "concat parts = [it] @ items"
        "\<forall>p \<in> set parts. p \<noteq> [] \<and> items_size p \<le> 4032"
      by (rule Cons.IH [of "[it]" "ITEM_HEADER + length v"]) (use s Cons.prems(4) it in auto)
    then have "parts \<noteq> []" by auto
    show ?thesis
      by (rule Cons.prems(1) [of "cur # parts"])
        (use p True Cons.prems it \<open>parts \<noteq> []\<close> in \<open>auto simp: Let_def ncfs_sizes\<close>)
  next
    case False
    then have small: "sz + (ITEM_HEADER + length v) \<le> 4032" using Cons.prems(2) s by (cases "cur = []") auto
    obtain parts where p: "pack items (cur @ [it]) (sz + (ITEM_HEADER + length v)) = map Leaf parts"
        "concat parts = (cur @ [it]) @ items" "\<forall>p \<in> set parts. p \<noteq> [] \<and> items_size p \<le> 4032"
        "length parts = 1 \<Longrightarrow> items_size ((cur @ [it]) @ items) \<le> 4032"
      by (rule Cons.IH [of "cur @ [it]" "sz + (ITEM_HEADER + length v)"]) (use small Cons.prems it in auto)
    show ?thesis
      by (rule Cons.prems(1) [of parts]) (use p False it in \<open>auto simp: Let_def ncfs_sizes\<close>)
  qed
qed

lemma cut_children_sound:
  assumes "0 < per"
  obtains parts where "cut_children level per ch = map (Node level) parts" "concat parts = ch"
    "\<forall>p \<in> set parts. p \<noteq> [] \<and> length p \<le> per" "length ch > per \<Longrightarrow> length parts \<ge> 2" "ch \<noteq> [] \<Longrightarrow> parts \<noteq> []"
proof (induction "length ch" arbitrary: ch thesis rule: less_induct)
  case less
  show ?case
  proof (cases "ch = []")
    case False
    obtain parts where p: "cut_children level per (drop (min per (length ch)) ch) = map (Node level) parts"
        "concat parts = drop (min per (length ch)) ch" "\<forall>p \<in> set parts. p \<noteq> [] \<and> length p \<le> per"
        "drop (min per (length ch)) ch \<noteq> [] \<Longrightarrow> parts \<noteq> []"
      by (rule less.hyps [of "drop (min per (length ch)) ch"]) (use assms False in auto)
    show ?thesis
    proof (rule less.prems [of "take (min per (length ch)) ch # parts"])
      show "length ch > per \<Longrightarrow> 2 \<le> length (take (min per (length ch)) ch # parts)"
        using p(4) by (cases parts) auto
    qed (use p assms False in \<open>auto simp: cut_children.simps [of level per ch]\<close>)
  qed (use less.prems [of "[]"] in \<open>simp add: cut_children.simps [of level per "[]"]\<close>)
qed

text \<open>
  What splitting makes of an overfull node: at least two non-empty nodes of the same kind that fit
  and together hold its entries in order.
\<close>

lemma split_leaf:
  assumes "overfull (Leaf items)" "\<forall>it \<in> set items. item_ok it"
  obtains parts where "mem_split (Leaf items) = map Leaf parts" "concat parts = items" "length parts \<ge> 2"
    "\<forall>p \<in> set parts. p \<noteq> [] \<and> \<not> overfull (Leaf p)"
proof -
  have big: "items_size items > 4032" using assms(1) by (simp add: ncfs_sizes)
  then have ne: "items \<noteq> []" by auto
  show thesis
  proof (cases "find_cut (length items) (items_size items) 0 items 0 (2 ^ 64 - 1) None")
    case None
    obtain parts where "pack items [] 0 = map Leaf parts" "concat parts = [] @ items"
        "\<forall>p \<in> set parts. p \<noteq> [] \<and> items_size p \<le> 4032" "length parts = 1 \<Longrightarrow> items_size ([] @ items) \<le> 4032"
      using ne assms(2) by (rule_tac pack_sound [of "[]" 0 items]) auto
    moreover from this have "length parts \<ge> 2" using big ne by (cases parts; cases "tl parts") auto
    ultimately show thesis using None by (intro that [of parts]) (auto simp: ncfs_sizes)
  next
    case (Some c)
    then have "good_cut items c" by (rule find_cut_sound) auto
    then show thesis
      using Some by (intro that [of "[take c items, drop c items]"]) (auto simp: good_cut_def ncfs_sizes)
  qed
qed

lemma split_inner:
  assumes "overfull (Node level ch)"
  obtains parts where "mem_split (Node level ch) = map (Node level) parts" "concat parts = ch" "length parts \<ge> 2"
    "\<forall>p \<in> set parts. p \<noteq> [] \<and> \<not> overfull (Node level p)"
proof -
  define parts where "parts = max (div_ceil (length ch) 62) 2"
  define per where "per = div_ceil (length ch) parts"
  have big: "length ch > 62" using assms by (simp add: ncfs_sizes)
  have parts2: "2 \<le> parts" "div_ceil (length ch) 62 \<le> parts" by (simp_all add: parts_def)
  then have "length ch \<le> parts * 62" using div_ceil_bounds [of 62 "length ch" parts] by simp
  then have per62: "per \<le> 62" using div_ceil_bounds [of parts "length ch" 62] parts2 by (simp add: per_def mult.commute)
  have per0: "0 < per" using div_ceil_bounds [of parts "length ch" 0] parts2 big by (cases ch) (auto simp: per_def)
  have split: "mem_split (Node level ch) = cut_children level per ch"
    by (simp add: per_def parts_def Let_def ncfs_sizes)
  obtain ps where "cut_children level per ch = map (Node level) ps" "concat ps = ch"
    "\<forall>p \<in> set ps. p \<noteq> [] \<and> length p \<le> per" "length ch > per \<Longrightarrow> length ps \<ge> 2"
    using cut_children_sound [OF per0, of level ch] by metis
  then show thesis using per62 big split by (intro that [of ps]) (auto simp: ncfs_sizes)
qed

section \<open>Writing a node and reading it back\<close>

text \<open>The header area and the data area of a leaf whose data ends at \<open>stop\<close>.\<close>

fun item_heads :: "nat \<Rightarrow> (key \<times> bytes) list \<Rightarrow> bytes" where
  "item_heads stop [] = []"
| "item_heads stop ((k, v) # items) =
     key_bytes k @ le16 (word_of_nat (stop - length v)) @ le16 (word_of_nat (length v)) @ item_heads (stop - length v) items"

definition data_size :: "(key \<times> bytes) list \<Rightarrow> nat" where
  "data_size items = (\<Sum>it \<leftarrow> items. length (snd it))"

definition item_data :: "(key \<times> bytes) list \<Rightarrow> bytes" where
  "item_data items = concat (rev (map snd items))"

lemma data_size_simps [simp]: "data_size [] = 0" "data_size ((k, v) # items) = length v + data_size items"
  by (simp_all add: data_size_def)

lemma item_data_simps [simp]: "item_data [] = []" "item_data ((k, v) # items) = item_data items @ v"
  by (simp_all add: item_data_def)

lemma length_item_data [simp]: "length (item_data items) = data_size items"
  by (induction items) auto

lemma length_item_heads [simp]: "length (item_heads stop items) = length items * 21"
  by (induction stop items rule: item_heads.induct) simp_all

lemma items_size_parts: "items_size items = length items * 21 + data_size items"
  by (induction items rule: items_size.induct) (simp_all add: ncfs_sizes)

lemma encode_items_layout:
  assumes "length pre = 64 + i * 21" "items_size items \<le> gap" "64 + i * 21 + gap = stop" "stop + length post = 4096"
  shows "encode_items i stop items (pre @ zeros gap @ post) =
    Some (pre @ item_heads stop items @ zeros (gap - items_size items) @ item_data items @ post)"
  using assms
proof (induction items arbitrary: pre i gap stop post)
  case (Cons it items)
  obtain k v where it: "it = (k, v)" by (cases it)
  define head where "head = key_bytes k @ le16 (word_of_nat (stop - length v)) @ le16 (word_of_nat (length v))"
  have head: "length head = 21" by (simp add: head_def)
  have room: "21 + length v \<le> gap" using Cons.prems(2) it by (simp add: ncfs_sizes)
  have gap: "stop - (85 + (length v + i * 21)) = gap - (21 + length v)" using Cons.prems(3) by simp
  have "encode_items i stop (it # items) (pre @ zeros gap @ post) =
      encode_items (i + 1) (stop - length v) items ((pre @ head) @ zeros (gap - 21 - length v) @ (v @ post))"
    using Cons.prems room
    by (simp add: it ncfs_sizes layout key_write_splice wr16_splice access head_def gap)
  also have "\<dots> = Some ((pre @ head) @ item_heads (stop - length v) items @
      zeros (gap - 21 - length v - items_size items) @ item_data items @ v @ post)"
    using Cons.prems room head by (intro Cons.IH) (auto simp: it ncfs_sizes)
  also have "gap - 21 - length v - items_size items = gap - items_size (it # items)" by (simp add: it ncfs_sizes)
  finally show ?case by (simp add: it head_def)
qed simp

lemma small_u16: "n \<le> 4096 \<Longrightarrow> unat (word_of_nat n :: u16) = n"
  by (simp add: unat_of_nat)

lemma check_items_layout:
  assumes "length pre = 64 + i * 21" "stop \<le> 4096" "64 + n * 21 + data_size items \<le> stop"
    "length b = 4096" "b = pre @ item_heads stop items @ rest" "sorted_wrt (<) (key_list prev @ map fst items)"
  shows "check_items b n [i..<i + length items] stop prev = Some (Some (stop - data_size items))"
  using assms
proof (induction items arbitrary: pre i stop prev)
  case (Cons it items)
  obtain k v where it: "it = (k, v)" by (cases it)
  define ofs where "ofs = stop - length v"
  define head where "head = key_bytes k @ le16 (word_of_nat ofs) @ le16 (word_of_nat (length v))"
  have ofs: "ofs + length v = stop" using Cons.prems(3) by (simp add: it ofs_def)
  have b: "b = (pre @ head) @ item_heads ofs items @ rest"
    using Cons.prems(5) unfolding it head_def ofs_def item_heads.simps by simp
  have sorted: "sorted_wrt (<) (k # map fst items)" using Cons.prems(6) by (simp add: it sorted_wrt_append)
  have "check_items b n [i + 1..<i + 1 + length items] ofs (Some k) = Some (Some (ofs - data_size items))"
    using Cons.prems(1-4) b sorted ofs by (intro Cons.IH) (auto simp: it head_def key_list_def)
  moreover have "\<not> not_above prev k" using Cons.prems(6) by (auto simp: it not_above_def key_list_def split: option.splits)
  moreover have "64 + i * 21 + 21 \<le> 4096" using arg_cong [OF b, of length] Cons.prems(1,4) by (simp add: head_def)
  moreover have "[i..<i + length (it # items)] = i # [i + 1..<i + 1 + length items]"
    by (simp add: upt_conv_Cons del: upt_Suc)
  moreover have "unat (word_of_nat ofs :: u16) = ofs" "unat (word_of_nat (length v) :: u16) = length v"
    using ofs Cons.prems(2) by (simp_all add: small_u16)
  ultimately show ?case
    using Cons.prems(1-4) ofs
    by (simp add: it ncfs_sizes key_read_sub rd16_sub b head_def layout)
qed simp

lemma leaf_item_layout:
  assumes "length pre = 64 + i * 21" "b = pre @ item_heads stop items @ zeros gap @ item_data items @ post"
    "stop + length post = 4096" "length b = 4096" "j < length items"
  shows "leaf_item b (i + j) = Some (items ! j)"
  using assms
proof (induction items arbitrary: pre i stop post j)
  case (Cons it items)
  obtain k v where it: "it = (k, v)" by (cases it)
  define ofs where "ofs = stop - length v"
  define head where "head = key_bytes k @ le16 (word_of_nat ofs) @ le16 (word_of_nat (length v))"
  have b: "b = (pre @ head) @ item_heads ofs items @ zeros gap @ item_data items @ (v @ post)"
    using Cons.prems(2) unfolding it head_def ofs_def item_heads.simps by simp
  have len: "64 + i * 21 + 21 + length items * 21 + gap + data_size items + length v = stop"
    using arg_cong [OF b, of length] Cons.prems(1,3,4) by (simp add: head_def)
  have ofs: "ofs + length v = stop" "64 + i * 21 + 21 + length items * 21 + gap + data_size items = ofs"
    using len by (simp_all add: ofs_def)
  have u: "unat (word_of_nat ofs :: u16) = ofs" "unat (word_of_nat (length v) :: u16) = length v"
    using ofs Cons.prems(3) by (simp_all add: small_u16)
  show ?case
  proof (cases j)
    case 0
    have "leaf_item b i = Some (k, v)"
      using Cons.prems(1,3,4) ofs u unfolding leaf_item_def
      by (simp add: ncfs_sizes key_read_sub rd16_sub access b head_def layout)
    then show ?thesis using 0 by (simp add: it)
  next
    case (Suc j')
    have "leaf_item b (i + 1 + j') = Some (items ! j')"
      using Cons.prems(1,3-) Suc ofs by (intro Cons.IH [OF _ b]) (auto simp: head_def)
    then show ?thesis using Suc by simp
  qed
qed simp

definition child_bytes :: "key \<times> ptr \<Rightarrow> bytes" where
  "child_bytes c = key_bytes (fst c) @ le64 (p_block (snd c)) @ le64 (p_gen (snd c)) @ p_hash (snd c)"

lemma length_child_bytes [simp]: "ptr_wf (snd c) \<Longrightarrow> length (child_bytes c) = 65"
  by (simp add: child_bytes_def ptr_wf_def)

lemma length_children [simp]: "\<forall>c \<in> set cs. ptr_wf (snd c) \<Longrightarrow> length (concat (map child_bytes cs)) = length cs * 65"
  by (induction cs) auto

lemma encode_children_layout:
  assumes "length pre = 64 + i * 65" "length cs * 65 \<le> gap" "64 + i * 65 + gap = 4096" "\<forall>c \<in> set cs. ptr_wf (snd c)"
  shows "encode_children i (map (\<lambda>(k, p). (k, Disk p)) cs) (pre @ zeros gap) =
    Some (pre @ concat (map child_bytes cs) @ zeros (gap - length cs * 65))"
  using assms
proof (induction cs arbitrary: pre i gap)
  case (Cons c cs)
  obtain k p where c: "c = (k, p)" by (cases c)
  have gap: "gap = 65 + (gap - 65)" using Cons.prems(2) by simp
  have "write_child (pre @ zeros gap) i k p = Some ((pre @ child_bytes c) @ zeros (gap - 65))"
    using Cons.prems
    by (simp add: c write_child_def ncfs_sizes layout key_write_splice wr64_splice access child_bytes_def ptr_wf_def)
  moreover have "encode_children (i + 1) (map (\<lambda>(k, p). (k, Disk p)) cs) ((pre @ child_bytes c) @ zeros (gap - 65)) =
      Some ((pre @ child_bytes c) @ concat (map child_bytes cs) @ zeros (gap - 65 - length cs * 65))"
    using Cons.prems by (intro Cons.IH) (auto simp: c)
  ultimately show ?case by (simp add: c)
qed simp

lemma child_layout:
  assumes "length pre = 64 + i * 65" "b = pre @ concat (map child_bytes cs) @ rest" "length b = 4096"
    "j < length cs" "\<forall>c \<in> set cs. ptr_wf (snd c) \<and> p_level (snd c) = l - 1" "l \<noteq> 0"
  shows "key_read b (64 + (i + j) * 65) = Some (fst (cs ! j))" "child b (i + j) l = Some (cs ! j)"
proof -
  define c where "c = cs ! j"
  define front where "front = pre @ concat (map child_bytes (take j cs))"
  define back_part where "back_part = concat (map child_bytes (drop (j + 1) cs)) @ rest"
  have wf: "ptr_wf (snd c)" "p_level (snd c) = l - 1" using assms(4,5) by (simp_all add: c_def)
  have "\<forall>c \<in> set (take j cs). ptr_wf (snd c)" using assms(5) by (auto dest: in_set_takeD)
  then have front: "length front = 64 + (i + j) * 65" using assms(1,4) by (simp add: front_def)
  have "cs = take j cs @ c # drop (j + 1) cs" using assms(4) by (simp add: c_def id_take_nth_drop)
  from arg_cong [OF this, of "\<lambda>cs. concat (map child_bytes cs)"]
  have "concat (map child_bytes cs) = concat (map child_bytes (take j cs)) @ child_bytes c @ concat (map child_bytes (drop (j + 1) cs))"
    by simp
  then have b: "b = front @ child_bytes c @ back_part" using assms(2) by (simp add: front_def back_part_def)
  have len: "64 + (i + j) * 65 + 65 \<le> 4096" using arg_cong [OF b, of length] assms(3) front wf(1) by simp
  show "key_read b (64 + (i + j) * 65) = Some (fst (cs ! j))"
    unfolding c_def [symmetric] using len assms(3) front wf(1)
    by (simp add: key_read_sub b child_bytes_def layout del: add_mult_distrib)
  show "child b (i + j) l = Some (cs ! j)"
    unfolding c_def [symmetric] child_def using len assms(3,6) front wf
    by (cases c; cases "snd c")
      (simp add: ncfs_sizes key_read_sub rd64_sub hash32_sub b child_bytes_def layout ptr_wf_def del: add_mult_distrib)
qed

lemma check_children_layout:
  assumes "length b = 4096" "i + length cs \<le> 62"
    "\<And>j. j < length cs \<Longrightarrow> key_read b (64 + (i + j) * 65) = Some (fst (cs ! j))"
    "sorted_wrt (<) (key_list prev @ map fst cs)"
  shows "check_children b [i..<i + length cs] prev = Some True"
  using assms
proof (induction cs arbitrary: i prev)
  case (Cons c cs)
  have sorted: "sorted_wrt (<) (fst c # map fst cs)" using Cons.prems(4) by (simp add: sorted_wrt_append)
  have "check_children b [i + 1..<i + 1 + length cs] (Some (fst c)) = Some True"
    using Cons.prems(1,2) Cons.prems(3) [of "Suc _"] sorted by (intro Cons.IH) (auto simp: key_list_def)
  moreover have "\<not> not_above prev (fst c)" using Cons.prems(4) by (auto simp: not_above_def key_list_def split: option.splits)
  moreover have "[i..<i + length (c # cs)] = i # [i + 1..<i + 1 + length cs]"
    by (simp add: upt_conv_Cons del: upt_Suc)
  moreover have "key_read b (NODE_HEADER + i * CHILD_ENTRY) = Some (fst c)"
    using Cons.prems(3) [of 0] by (simp add: ncfs_sizes)
  ultimately show ?case by simp
qed simp

text \<open>
  A node that can be written: what it holds is in order and fits, and every child is on disk.
\<close>

fun mem_ok :: "mem \<Rightarrow> bool" where
  "mem_ok (Leaf items) \<longleftrightarrow> sorted_wrt (<) (map fst items) \<and> \<not> overfull (Leaf items)"
| "mem_ok (Node l ch) \<longleftrightarrow> l \<noteq> 0 \<and> ch \<noteq> [] \<and> \<not> overfull (Node l ch) \<and> sorted_wrt (<) (map fst ch) \<and>
     list_all (\<lambda>(k, r). case r of Disk p \<Rightarrow> ptr_wf p \<and> p_level p = l - 1 | InMem _ \<Rightarrow> False) ch"

definition on_disk :: "(key \<times> ptr) list \<Rightarrow> (key \<times> node_ref) list" where
  "on_disk cs = map (\<lambda>(k, p). (k, Disk p)) cs"

lemma on_disk_simps [simp]:
  "on_disk [] = []" "on_disk ((k, p) # cs) = (k, Disk p) # on_disk cs"
  "map fst (on_disk cs) = map fst cs" "length (on_disk cs) = length cs"
  by (simp_all add: on_disk_def case_prod_unfold comp_def)

lemma all_on_disk:
  "list_all (\<lambda>(k, r). case r of Disk p \<Rightarrow> P p | InMem _ \<Rightarrow> False) ch \<Longrightarrow>
     \<exists>cs. ch = on_disk cs \<and> (\<forall>c \<in> set cs. P (snd c))"
proof (induction ch)
  case (Cons x ch)
  then obtain cs where "ch = on_disk cs" "\<forall>c \<in> set cs. P (snd c)" by auto
  moreover obtain k p where "x = (k, Disk p)" "P p" using Cons.prems by (cases x; cases "snd x") auto
  ultimately show ?case by (intro exI [of _ "(k, p) # cs"]) simp
qed (auto intro: exI [of _ "[]"])

lemma mem_ok_children:
  assumes "mem_ok (Node l ch)"
  obtains cs where "ch = on_disk cs" "\<forall>c \<in> set cs. ptr_wf (snd c) \<and> p_level (snd c) = l - 1"
  using all_on_disk [of "\<lambda>p. ptr_wf p \<and> p_level p = l - 1" ch] assms by auto

lemma those_map_Some: "(\<And>i. i < n \<Longrightarrow> f i = Some (g i)) \<Longrightarrow> those (map f [0..<n]) = Some (map g [0..<n])"
proof -
  assume "\<And>i. i < n \<Longrightarrow> f i = Some (g i)"
  then have fg: "map f [0..<n] = map (\<lambda>i. Some (g i)) [0..<n]" by simp
  have "those (map (\<lambda>i. Some (g i)) xs) = Some (map g xs)" for xs by (induction xs) simp_all
  then show ?thesis by (simp only: fg)
qed

text \<open>
  Writing a node and reading it back: the block has the header it was given, passes the reader's
  structural check, and decodes to the same node.
\<close>

lemma encode_mem_leaf:
  assumes "mem_ok (Leaf items)" "length out = 4096" "length (n_fsid h) = 16" "n_level h = 0"
    "n_count h = word_of_nat (length items)"
  obtains b where "encode_mem (Leaf items) h out = Some b" "length b = 4096" "node_header_read b = Some (Some h)"
    "check_body b h = Some True" "decode_node b h = Some (Leaf items)" "leaf_holds b items"
    "length items = unat (n_count h)"
proof -
  let ?b = "header_bytes h @ item_heads 4096 items @ zeros (4032 - items_size items) @ item_data items"
  have fits: "items_size items \<le> 4032" "sorted_wrt (<) (map fst items)"
    using assms(1) by (simp_all add: ncfs_sizes)
  then have n: "length items * 21 \<le> 4032" "64 + length items * 21 + data_size items \<le> 4096" by (simp_all add: items_size_parts)
  then have count: "unat (n_count h) = length items" using assms(5) by (simp add: small_u16)
  have "splice (zeros 4096) 0 (header_bytes h) = header_bytes h @ zeros 4032 @ []"
    using splice_append_left [of 0 "header_bytes h" "zeros 64" "zeros 4032"] assms(3)
    by (simp add: splice_whole zeros_def flip: replicate_add)
  then have enc: "encode_mem (Leaf items) h out = Some ?b"
    using encode_items_layout [of "header_bytes h" 0 items 4032 4096 "[]"] assms(2,3) fits(1)
    by (simp add: encode_mem_def node_header_write_bytes BLOCK_def)
  have len: "length ?b = 4096" using assms(3) fits(1) by (simp add: items_size_parts)
  have items: "leaf_item ?b j = Some (items ! j)" if "j < length items" for j
    using leaf_item_layout [of "header_bytes h" 0 ?b 4096 items "4032 - items_size items" "[]" j] that assms(3) len by simp
  have stop: "4096 - data_size items - (64 + length items * 21) = 4032 - items_size items"
    by (simp add: items_size_parts)
  have heads: "sub ?b 0 (64 + length items * 21) = header_bytes h @ item_heads 4096 items"
    using assms(3) by (simp add: layout sub_append_cover)
  have gap: "sub ?b (64 + length items * 21) (4032 - items_size items) = zeros (4032 - items_size items)"
    using assms(3) by (simp add: layout)
  have "check_items ?b (length items) [0..<length items] 4096 None = Some (Some (4096 - data_size items))"
    using check_items_layout [of "header_bytes h" 0 4096 "length items" items ?b _ None] n fits(2) len assms(3)
    by (simp add: key_list_def)
  then have "check_body ?b h = Some True"
    using n len gap stop assms(4) count
    by (simp add: check_body_def ncfs_sizes access)
  moreover have "node_header_read ?b = Some (Some h)"
    using node_header_read_bytes [of "item_heads 4096 items @ zeros (4032 - items_size items) @ item_data items" h] len assms(3) by simp
  moreover have "those (map (leaf_item ?b) [0..<length items]) = Some items"
    using those_map_Some [of "length items" "leaf_item ?b" "\<lambda>j. items ! j"] items by (simp add: map_nth)
  moreover have "leaf_holds ?b items"
    unfolding leaf_holds_def heads
    by (intro conjI exI [of _ "4032 - items_size items"] allI impI items fits(2))
      (simp_all add: item_data_def)
  ultimately show thesis
    using assms(4) count by (intro that [OF enc len]) (simp_all add: decode_node_def)
qed

lemma encode_mem_inner:
  assumes "mem_ok (Node l ch)" "length out = 4096" "length (n_fsid h) = 16" "n_level h = l"
    "n_count h = word_of_nat (length ch)"
  obtains b cs where "encode_mem (Node l ch) h out = Some b" "length b = 4096" "node_header_read b = Some (Some h)"
    "check_body b h = Some True" "decode_node b h = Some (Node l ch)" "ch = on_disk cs" "inner_holds b l cs"
    "length cs = unat (n_count h)"
proof -
  obtain cs where cs: "ch = on_disk cs" "\<forall>c \<in> set cs. ptr_wf (snd c) \<and> p_level (snd c) = l - 1"
    using mem_ok_children [OF assms(1)] .
  have ok: "l \<noteq> 0" "cs \<noteq> []" "length cs \<le> 62" "sorted_wrt (<) (map fst cs)"
    using assms(1) cs(1) by (auto simp: ncfs_sizes)
  then have count: "unat (n_count h) = length cs" using assms(5) cs(1) by (simp add: small_u16)
  let ?g = "4032 - length cs * 65"
  let ?b = "header_bytes h @ concat (map child_bytes cs) @ zeros ?g"
  have "splice (zeros 4096) 0 (header_bytes h) = header_bytes h @ zeros 4032"
    using splice_append_left [of 0 "header_bytes h" "zeros 64" "zeros 4032"] assms(3)
    by (simp add: splice_whole zeros_def flip: replicate_add)
  then have enc: "encode_mem (Node l ch) h out = Some ?b"
    using encode_children_layout [of "header_bytes h" 0 cs 4032] assms(2,3) ok(3) cs
    by (simp add: encode_mem_def node_header_write_bytes on_disk_def)
  have wf: "\<forall>c \<in> set cs. ptr_wf (snd c)" using cs(2) by blast
  have len: "length ?b = 4096" using assms(3) ok(3) wf by simp
  have "length (header_bytes h) = 64 + 0 * 65" using assms(3) by simp
  note ch = child_layout [OF this refl len _ cs(2) ok(1), unfolded add_0]
  have rest: "drop (64 + length cs * 65) ?b = zeros ?g" using assms(3) wf by simp
  have "check_children ?b [0..<length cs] None = Some True"
    using check_children_layout [of ?b 0 cs None, unfolded add_0] ch(1) len ok by (simp add: key_list_def)
  moreover have "slice ?b (64 + length cs * 65) 4096 = Some (zeros ?g)"
    using len ok(3) rest slice_tail [of "64 + length cs * 65" ?b] by simp
  ultimately have "check_body ?b h = Some True"
    using ok assms(4) count len by (simp add: check_body_def ncfs_sizes)
  moreover have "node_header_read ?b = Some (Some h)"
    using node_header_read_bytes [of "concat (map child_bytes cs) @ zeros ?g" h] len assms(3) by simp
  moreover have "decode_node ?b h = Some (Node l ch)"
    using those_map_Some [of "length cs" "\<lambda>i. map_option (\<lambda>(k, p). (k, Disk p)) (child ?b i l)"
        "\<lambda>j. (\<lambda>(k, p). (k, Disk p)) (cs ! j)"] ch(2) ok(1) assms(4) count cs(1)
    by (simp add: decode_node_def on_disk_def map_nth flip: map_map [of _ "(!) cs", unfolded comp_def])
  moreover have "inner_holds ?b l cs"
    unfolding inner_holds_def rest using ok ch(2) cs(2) by (auto simp: case_prod_unfold)
  ultimately show thesis using that [OF enc len] cs(1) count by simp
qed

text \<open>The header \<^verbatim>\<open>write_tree\<close> gives a node, and the pointer it makes to the block.\<close>

definition header_of :: "mem \<Rightarrow> u64 \<Rightarrow> u64 \<Rightarrow> u64 \<Rightarrow> bytes \<Rightarrow> node_header" where
  "header_of m block gen owner fsid = \<lparr> n_level = mem_level m, n_count = word_of_nat (mem_len m), n_block = block,
     n_gen = gen, n_owner = owner, n_fsid = fsid \<rparr>"

definition ptr_to :: "bytes \<Rightarrow> u64 \<Rightarrow> u64 \<Rightarrow> u8 \<Rightarrow> ptr" where
  "ptr_to b block gen level = \<lparr> p_block = block, p_gen = gen, p_hash = b3 b, p_level = level \<rparr>"

lemma encode_mem_checks:
  fixes block gen owner :: u64
  assumes "mem_ok m" "mem_level m < MAX_LEVEL" "length fsid = 16" "length out = 4096"
  defines "h \<equiv> header_of m block gen owner fsid"
  obtains b where "encode_mem m h out = Some b" "length b = 4096" "decode_node b h = Some m"
    "check_node b (ptr_to b block gen (mem_level m)) fsid owner = Some (Inr h)"
    "\<And>items. m = Leaf items \<Longrightarrow> leaf_holds b items \<and> length items = unat (n_count h)"
    "\<And>l ch. m = Node l ch \<Longrightarrow> \<exists>cs. ch = on_disk cs \<and> inner_holds b l cs \<and> length cs = unat (n_count h)"
proof -
  have h: "length (n_fsid h) = 16" "n_level h = mem_level m" "n_count h = word_of_nat (mem_len m)"
    using assms(3) by (simp_all add: h_def header_of_def)
  have check: "check_node b (ptr_to b block gen (mem_level m)) fsid owner = Some (Inr h)"
    if "node_header_read b = Some (Some h)" "check_body b h = Some True" "length b = 4096" for b
    using that assms(2)
    by (simp add: check_node_def blake3_hash_b3 ptr_to_def ct_eq_iff h_def header_of_def not_le)
  show thesis
  proof (cases m)
    case (Leaf items)
    show thesis
      by (rule encode_mem_leaf [of items out h]) (use Leaf assms(1,4) h check that in auto)
  next
    case (Node l ch)
    show thesis
      by (rule encode_mem_inner [of l ch out h]) (use Node assms(1,4) h check that in auto)
  qed
qed

text \<open>
  C38: A node written out is the node that is read.  Any node whose entries are in order, fit in a
  block and point to disk encodes without a panic into a block that the reader accepts under the
  pointer made for it and decodes to the same node.
\<close>

theorem written_node_reads_back:
  assumes "mem_ok m" "mem_level m < MAX_LEVEL" "length fsid = 16" "length out = BLOCK"
  shows "\<exists>b. encode_mem m (header_of m block gen owner fsid) out = Some b \<and> length b = BLOCK \<and>
    check_node b (ptr_to b block gen (mem_level m)) fsid owner = Some (Inr (header_of m block gen owner fsid)) \<and>
    decode_node b (header_of m block gen owner fsid) = Some m"
  using encode_mem_checks [OF assms(1-3), of out block gen owner] assms(4) by (metis BLOCK_def)

theorem written_node_reads_back_witness:
  "\<exists>b. encode_mem (Leaf [(Key 1 1 0, [7])]) (header_of (Leaf [(Key 1 1 0, [7])]) 20 3 1 (zeros 16)) (zeros 4096) = Some b \<and>
     length b = BLOCK \<and>
     check_node b (ptr_to b 20 3 (mem_level (Leaf [(Key 1 1 0, [7])]))) (zeros 16) 1 =
       Some (Inr (header_of (Leaf [(Key 1 1 0, [7])]) 20 3 1 (zeros 16))) \<and>
     decode_node b (header_of (Leaf [(Key 1 1 0, [7])]) 20 3 1 (zeros 16)) = Some (Leaf [(Key 1 1 0, [7])])"
  by (rule written_node_reads_back) (simp_all add: ncfs_sizes MAX_LEVEL_def)

fun mem_items :: "mem \<Rightarrow> (key \<times> bytes) list" where
  "mem_items (Leaf items) = items"
| "mem_items (Node _ _) = []"

fun mem_children :: "mem \<Rightarrow> (key \<times> node_ref) list" where
  "mem_children (Leaf _) = []"
| "mem_children (Node _ ch) = ch"

lemma concat_empty_parts: "concat (map (\<lambda>x. []) xs) = []"
  by (induction xs) auto

text \<open>
  C39: Splitting an overfull node yields two or more nodes of its level that are not empty, each fit
  in a block, and together hold exactly its entries in order, however large the single items are (up
  to the largest an insertion accepts).
\<close>

theorem split_fits:
  assumes "overfull m" "list_all item_ok (mem_items m)"
  shows "2 \<le> length (mem_split m) \<and>
    list_all (\<lambda>p. \<not> overfull p \<and> mem_len p \<noteq> 0 \<and> mem_level p = mem_level m) (mem_split m) \<and>
    concat (map mem_items (mem_split m)) = mem_items m \<and> concat (map mem_children (mem_split m)) = mem_children m"
proof (cases m)
  case (Leaf items)
  show ?thesis
    by (rule split_leaf [of items]) (use Leaf assms in \<open>auto simp: list_all_iff comp_def concat_empty_parts\<close>)
next
  case (Node l ch)
  show ?thesis
    by (rule split_inner [of l ch]) (use Node assms in \<open>auto simp: list_all_iff comp_def concat_empty_parts\<close>)
qed

definition demo_overfull :: mem where
  "demo_overfull = Leaf [(Key 1 1 0, zeros 4000), (Key 2 1 0, zeros 4000)]"

theorem split_fits_witness:
  "2 \<le> length (mem_split demo_overfull) \<and>
    list_all (\<lambda>p. \<not> overfull p \<and> mem_len p \<noteq> 0 \<and> mem_level p = mem_level demo_overfull) (mem_split demo_overfull) \<and>
    concat (map mem_items (mem_split demo_overfull)) = mem_items demo_overfull \<and>
    concat (map mem_children (mem_split demo_overfull)) = mem_children demo_overfull"
  by (rule split_fits) (simp_all add: demo_overfull_def ncfs_sizes item_ok_def MAX_ITEM_def)

end
