(* ===== verification/Ordered_Map.thy ===== *)
theory Ordered_Map
  imports Main "HOL-Library.Multiset"
begin

text \<open>
  \<^verbatim>\<open>BTreeMap\<close> of the Rust standard library, as the association list in key order that its iterators
  yield: insertion, removal, and how both act on the lookup function \<open>map_of\<close> and on the multiset of
  entries.
\<close>

type_synonym ('k, 'v) omap = "('k \<times> 'v) list"

fun om_insert :: "'k::linorder \<Rightarrow> 'v \<Rightarrow> ('k, 'v) omap \<Rightarrow> ('k, 'v) omap" where
  "om_insert k v [] = [(k, v)]"
| "om_insert k v ((k', v') # m) =
     (if k < k' then (k, v) # (k', v') # m
      else if k = k' then (k, v) # m
      else (k', v') # om_insert k v m)"

definition om_remove :: "'k \<Rightarrow> ('k, 'v) omap \<Rightarrow> ('k, 'v) omap" where
  "om_remove k m = filter (\<lambda>(k', _). k' \<noteq> k) m"

text \<open>The entries below a key and those from it on: \<^verbatim>\<open>range(..k)\<close> and \<^verbatim>\<open>range(k..)\<close>.\<close>

definition om_below :: "'k::linorder \<Rightarrow> ('k, 'v) omap \<Rightarrow> ('k, 'v) omap" where
  "om_below k m = filter (\<lambda>(k', _). k' < k) m"

definition om_from :: "'k::linorder \<Rightarrow> ('k, 'v) omap \<Rightarrow> ('k, 'v) omap" where
  "om_from k m = filter (\<lambda>(k', _). k \<le> k') m"

definition om_ok :: "('k::linorder, 'v) omap \<Rightarrow> bool" where
  "om_ok m \<longleftrightarrow> sorted_wrt (<) (map fst m)"

lemma om_ok_simps [simp]:
  "om_ok []" "om_ok ((k, v) # m) \<longleftrightarrow> om_ok m \<and> (\<forall>x \<in> set m. k < fst x)"
  by (auto simp: om_ok_def)

lemma om_distinct: "om_ok m \<Longrightarrow> distinct (map fst m)"
  by (simp add: om_ok_def strict_sorted_iff)

lemma om_get_iff: "om_ok m \<Longrightarrow> map_of m k = Some v \<longleftrightarrow> (k, v) \<in> set m"
  by (simp add: om_distinct)

lemma om_get_insert [simp]: "map_of (om_insert k v m) = (map_of m)(k \<mapsto> v)"
  by (induction m rule: om_insert.induct) (auto simp: fun_eq_iff)

lemma om_get_remove [simp]: "map_of (om_remove k m) = (map_of m)(k := None)"
  by (induction m) (auto simp: om_remove_def fun_eq_iff)

lemma set_om_insert: "set (om_insert k v m) \<subseteq> insert (k, v) (set m)"
  by (induction m rule: om_insert.induct) auto

lemma om_ok_insert [simp]: "om_ok m \<Longrightarrow> om_ok (om_insert k v m)"
  by (induction m rule: om_insert.induct) (use set_om_insert in \<open>fastforce+\<close>)

lemma om_ok_filter [simp]: "om_ok m \<Longrightarrow> om_ok (filter P m)"
  by (simp add: om_ok_def sorted_wrt_map sorted_wrt_filter)

lemma om_ok_remove [simp]: "om_ok m \<Longrightarrow> om_ok (om_remove k m)"
  by (simp add: om_remove_def)

lemma mset_om_insert: "map_of m k = None \<Longrightarrow> mset (om_insert k v m) = add_mset (k, v) (mset m)"
  by (induction m rule: om_insert.induct) (auto split: if_splits)

lemma om_remove_simps [simp]:
  "om_remove k [] = []" "om_remove k (x # m) = (if fst x = k then om_remove k m else x # om_remove k m)"
  by (auto simp: om_remove_def)

lemma om_remove_absent: "map_of m k = None \<Longrightarrow> om_remove k m = m"
  unfolding om_remove_def by (rule filter_True) (auto simp: map_of_eq_None_iff rev_image_eqI)

lemma mset_om_remove: "om_ok m \<Longrightarrow> map_of m k = Some v \<Longrightarrow> mset m = add_mset (k, v) (mset (om_remove k m))"
proof (induction m)
  case (Cons x m)
  have "om_remove k m = m" if "fst x = k"
    using Cons.prems(1) that by (cases x) (auto intro!: om_remove_absent simp: map_of_eq_None_iff)
  with Cons show ?case by (cases x) (auto split: if_splits)
qed simp

lemma mset_om_replace:
  "om_ok m \<Longrightarrow> map_of m k = Some v \<Longrightarrow> mset (om_insert k v' m) = add_mset (k, v') (mset (om_remove k m))"
proof (induction m)
  case (Cons x m)
  have "om_remove k m = m" if "fst x = k"
    using Cons.prems(1) that by (cases x) (auto intro!: om_remove_absent simp: map_of_eq_None_iff)
  moreover have "fst x < k" if "fst x \<noteq> k" using Cons.prems that by (cases x) (auto dest!: map_of_SomeD)
  ultimately show ?case using Cons by (cases x) (auto split: if_splits)
qed simp

end
