(* ===== verification/Ncfs_Space.thy ===== *)
theory Ncfs_Space
  imports Ncfs_Node Ordered_Map
begin

text \<open>
  The free map and the reference counts of a volume open for writing, from
  \<^verbatim>\<open>src/crates/nanochrono-core/src/ncfs/write.rs\<close>.  Block numbers and counts are \<open>nat\<close>, all below the
  size of the volume by the invariant \<open>space_ok\<close>; an overflow of a count of references is \<open>None\<close>, like a
  panic.  The invariant is that the free runs, the referenced extents and the extents pinned until the
  next commit partition the volume behind its fixed blocks, block by block.
\<close>

section \<open>Fallible operations on a state\<close>

type_synonym ('a, 's) act = "'s \<Rightarrow> ((ncfs_error + 'a) \<times> 's) option"

definition abind :: "('a, 's) act \<Rightarrow> ('a \<Rightarrow> ('b, 's) act) \<Rightarrow> ('b, 's) act" where
  "abind m f s = (case m s of None \<Rightarrow> None | Some (Inl e, s') \<Rightarrow> Some (Inl e, s') | Some (Inr x, s') \<Rightarrow> f x s')"

definition aret :: "'a \<Rightarrow> ('a, 's) act" where
  "aret x s = Some (Inr x, s)"

definition afail :: "ncfs_error \<Rightarrow> ('a, 's) act" where
  "afail e s = Some (Inl e, s)"

definition aget :: "('s \<Rightarrow> 'a) \<Rightarrow> ('a, 's) act" where
  "aget f s = Some (Inr (f s), s)"

definition aset :: "('s \<Rightarrow> 's) \<Rightarrow> (unit, 's) act" where
  "aset f s = Some (Inr (), f s)"

text \<open>\<^verbatim>\<open>ok_or\<close> of an optional value, and a value whose absence is a panic.\<close>

definition aneed :: "ncfs_error \<Rightarrow> 'a option \<Rightarrow> ('a, 's) act" where
  "aneed e v s = (case v of None \<Rightarrow> Some (Inl e, s) | Some x \<Rightarrow> Some (Inr x, s))"

definition apanic :: "'a option \<Rightarrow> ('a, 's) act" where
  "apanic v s = (case v of None \<Rightarrow> None | Some x \<Rightarrow> Some (Inr x, s))"

lemma act_simps [simp]:
  "m s = None \<Longrightarrow> abind m f s = None"
  "m s = Some (Inl e, s') \<Longrightarrow> abind m f s = Some (Inl e, s')"
  "m s = Some (Inr x, s') \<Longrightarrow> abind m f s = f x s'"
  "aret x s = Some (Inr x, s)" "afail e s = Some (Inl e, s)" "aget g s = Some (Inr (g s), s)"
  "aset h s = Some (Inr (), h s)" "aneed e (Some x) s = Some (Inr x, s)" "aneed e None s = Some (Inl e, s)"
  "apanic (Some x) s = Some (Inr x, s)" "apanic None s = None"
  by (simp_all add: abind_def aret_def afail_def aget_def aset_def aneed_def apanic_def)

lemma abind_Inr:
  "abind m f s = Some (Inr y, t) \<longleftrightarrow> (\<exists>x s'. m s = Some (Inr x, s') \<and> f x s' = Some (Inr y, t))"
  by (auto simp: abind_def split: option.splits sum.splits prod.splits)

lemma abind_cong [fundef_cong]:
  "m s = m' s' \<Longrightarrow> s = s' \<Longrightarrow> (\<And>x t. m' s' = Some (Inr x, t) \<Longrightarrow> f x t = g x t) \<Longrightarrow> abind m f s = abind m' g s'"
  by (auto simp: abind_def split: option.splits sum.splits)

section \<open>The state\<close>

record block_ref =
  rf_count :: nat
  rf_blocks :: nat

record dedup_key =
  dk_compression :: u8
  dk_len :: u32
  dk_stored :: u32
  dk_hash :: bytes

record write_options =
  opt_compression :: compression
  opt_dedup :: bool
  opt_max_dirty :: nat

record wspace =
  w_opts :: write_options
  w_sb :: superblock
  w_refs :: "(nat, block_ref) omap"
  w_used :: nat
  w_free :: "(nat, nat) omap"
  w_cursor :: nat
  w_pinned :: "(nat \<times> nat) list"
  w_fresh :: "nat set"
  w_cache :: "(nat, ptr \<times> mem) omap"
  w_dedup :: "dedup_key \<rightharpoonup> nat \<times> u64"
  w_dedup_rev :: "nat \<rightharpoonup> dedup_key"

record space_report =
  sp_total :: nat
  sp_used :: nat
  sp_free :: nat

section \<open>Operations\<close>

definition count_ref :: "nat \<Rightarrow> nat \<Rightarrow> (unit, 'a wspace_scheme) act" where
  "count_ref block blocks w =
     (case map_of (w_refs w) block of
        Some r \<Rightarrow>
          if rf_blocks r \<noteq> blocks then Some (Inl (Corrupt (word_of_nat block)), w)
          else if rf_count r + 1 \<ge> 2 ^ 32 then None
          else Some (Inr (), w \<lparr> w_refs := om_insert block (r \<lparr> rf_count := rf_count r + 1 \<rparr>) (w_refs w) \<rparr>)
      | None \<Rightarrow>
          Some (Inr (), w \<lparr> w_refs := om_insert block \<lparr> rf_count = 1, rf_blocks = blocks mod 2 ^ 32 \<rparr> (w_refs w),
                            w_used := w_used w + blocks \<rparr>))"

definition region_key :: "region \<Rightarrow> dedup_key" where
  "region_key r = \<lparr> dk_compression = compression_u8 (r_compression r), dk_len = r_len r, dk_stored = r_stored r, dk_hash = r_hash r \<rparr>"

definition index_region :: "region \<Rightarrow> 'a wspace_scheme \<Rightarrow> 'a wspace_scheme" where
  "index_region r w =
     (if opt_dedup (w_opts w)
      then
        let k = region_key r;
            b = unat (r_block r)
        in w \<lparr> w_dedup := (case w_dedup w k of None \<Rightarrow> (w_dedup w)(k \<mapsto> (b, r_birth r)) | Some _ \<Rightarrow> w_dedup w),
               w_dedup_rev := (w_dedup_rev w)(b \<mapsto> k) \<rparr>
      else w)"

definition incref :: "nat \<Rightarrow> (unit, 'a wspace_scheme) act" where
  "incref block w =
     (case map_of (w_refs w) block of
        None \<Rightarrow> Some (Inl (Corrupt (word_of_nat block)), w)
      | Some r \<Rightarrow>
          if rf_count r + 1 \<ge> 2 ^ 32 then None
          else Some (Inr (), w \<lparr> w_refs := om_insert block (r \<lparr> rf_count := rf_count r + 1 \<rparr>) (w_refs w) \<rparr>))"

definition free_insert :: "nat \<Rightarrow> nat \<Rightarrow> 'a wspace_scheme \<Rightarrow> 'a wspace_scheme" where
  "free_insert start len w =
     (let (s, l, free) =
            (case rev (om_below start (w_free w)) of
               [] \<Rightarrow> (start, len, w_free w)
             | (ps, pl) # _ \<Rightarrow>
                 if ps + pl = start then (ps, len + pl, om_remove ps (w_free w)) else (start, len, w_free w));
          (l, free) =
            (case map_of free (s + l) of
               None \<Rightarrow> (l, free)
             | Some nl \<Rightarrow> (l + nl, om_remove (s + l) free))
      in w \<lparr> w_free := om_insert s l free \<rparr>)"

definition forget_dedup :: "nat \<Rightarrow> 'a wspace_scheme \<Rightarrow> 'a wspace_scheme" where
  "forget_dedup block w =
     (case w_dedup_rev w block of
        None \<Rightarrow> w
      | Some k \<Rightarrow>
          let w = w \<lparr> w_dedup_rev := (w_dedup_rev w)(block := None) \<rparr>
          in case w_dedup w k of
               Some (b, _) \<Rightarrow> if b = block then w \<lparr> w_dedup := (w_dedup w)(k := None) \<rparr> else w
             | None \<Rightarrow> w)"

definition decref :: "nat \<Rightarrow> (unit, 'a wspace_scheme) act" where
  "decref block w =
     (case map_of (w_refs w) block of
        None \<Rightarrow> Some (Inl (Corrupt (word_of_nat block)), w)
      | Some r \<Rightarrow>
          if rf_count r = 0 then None
          else if rf_count r - 1 > 0
          then Some (Inr (), w \<lparr> w_refs := om_insert block (r \<lparr> rf_count := rf_count r - 1 \<rparr>) (w_refs w) \<rparr>)
          else if w_used w < rf_blocks r then None
          else
            let blocks = rf_blocks r;
                w = w \<lparr> w_refs := om_remove block (w_refs w), w_used := w_used w - blocks,
                        w_cache := om_remove block (w_cache w) \<rparr>;
                w = forget_dedup block w
            in Some (Inr (),
                 if block \<in> w_fresh w then free_insert block blocks (w \<lparr> w_fresh := w_fresh w - {block} \<rparr>)
                 else w \<lparr> w_pinned := w_pinned w @ [(block, blocks)] \<rparr>))"

definition pick_run :: "nat \<Rightarrow> nat \<Rightarrow> (nat, nat) omap \<Rightarrow> (nat \<times> nat) option" where
  "pick_run cursor n free =
     (case find (\<lambda>(_, l). l \<ge> n) (om_from cursor free) of
        Some x \<Rightarrow> Some x
      | None \<Rightarrow> find (\<lambda>(_, l). l \<ge> n) (om_below cursor free))"

definition alloc_blocks :: "nat \<Rightarrow> (nat, 'a wspace_scheme) act" where
  "alloc_blocks n w =
     (case pick_run (w_cursor w) n (w_free w) of
        None \<Rightarrow> Some (Inl NoSpace, w)
      | Some (s, l) \<Rightarrow>
          let free = om_remove s (w_free w);
              free = (if l > n then om_insert (s + n) (l - n) free else free)
          in Some (Inr s, w \<lparr> w_free := free, w_cursor := s + n,
               w_refs := om_insert s \<lparr> rf_count = 1, rf_blocks = n mod 2 ^ 32 \<rparr> (w_refs w),
               w_used := w_used w + n, w_fresh := insert s (w_fresh w) \<rparr>))"

definition high_water :: "'a wspace_scheme \<Rightarrow> nat" where
  "high_water w = (case rev (w_refs w) of [] \<Rightarrow> unat FIRST_FREE | (b, r) # _ \<Rightarrow> b + rf_blocks r)"

definition space_of :: "'a wspace_scheme \<Rightarrow> space_report" where
  "space_of w = \<lparr> sp_total = unat (total_blocks (w_sb w)), sp_used = w_used w, sp_free = sum_list (map snd (w_free w)) \<rparr>"

text \<open>The end of a commit: the pinned extents go back to the free map.\<close>

definition release_pinned :: "'a wspace_scheme \<Rightarrow> 'a wspace_scheme" where
  "release_pinned w =
     (fold (\<lambda>(b, n). free_insert b n) (w_pinned w) (w \<lparr> w_pinned := [] \<rparr>)) \<lparr> w_fresh := {} \<rparr>"

section \<open>The partition of the volume\<close>

definition tiles :: "(nat \<times> nat) multiset \<Rightarrow> nat multiset" where
  "tiles M = (\<Sum>(s, l) \<in># M. mset_set {s..<s + l})"

lemma tiles_simps [simp]:
  "tiles {#} = {#}" "tiles (add_mset (s, l) M) = mset_set {s..<s + l} + tiles M" "tiles (M + N) = tiles M + tiles N"
  by (simp_all add: tiles_def)

lemma tiles_join: "a + m = b \<Longrightarrow> mset_set {a..<a + m} + mset_set {b..<b + n} = mset_set {a..<a + (m + n)}"
  for a :: nat
proof -
  assume "a + m = b"
  then have "{a..<a + (m + n)} = {a..<a + m} \<union> {b..<b + n}" by auto
  with \<open>a + m = b\<close> show ?thesis by (simp add: mset_set_Union)
qed

definition ref_spans :: "(nat, block_ref) omap \<Rightarrow> (nat \<times> nat) multiset" where
  "ref_spans m = image_mset (\<lambda>(b, r). (b, rf_blocks r)) (mset m)"

definition free_blocks :: "'a wspace_scheme \<Rightarrow> nat set" where
  "free_blocks w = set_mset (tiles (mset (w_free w)))"

definition ref_blocks :: "'a wspace_scheme \<Rightarrow> nat set" where
  "ref_blocks w = set_mset (tiles (ref_spans (w_refs w)))"

definition pinned_blocks :: "'a wspace_scheme \<Rightarrow> nat set" where
  "pinned_blocks w = set_mset (tiles (mset (w_pinned w)))"

definition all_blocks :: "'a wspace_scheme \<Rightarrow> nat multiset" where
  "all_blocks w = tiles (mset (w_free w)) + tiles (ref_spans (w_refs w)) + tiles (mset (w_pinned w))"

definition ref_ok :: "nat \<times> block_ref \<Rightarrow> bool" where
  "ref_ok x \<longleftrightarrow> 0 < rf_count (snd x) \<and> rf_count (snd x) < 2 ^ 32 \<and> 0 < rf_blocks (snd x)"

definition space_ok :: "nat \<Rightarrow> 'a wspace_scheme \<Rightarrow> bool" where
  "space_ok tot w \<longleftrightarrow> om_ok (w_free w) \<and> om_ok (w_refs w) \<and>
     all_blocks w = mset_set {unat FIRST_FREE..<tot} \<and>
     list_all (\<lambda>(s, l). 0 < l) (w_free w) \<and> list_all (\<lambda>(s, l). 0 < l) (w_pinned w) \<and>
     (\<forall>x \<in># mset (w_refs w). ref_ok x) \<and>
     w_used w = (\<Sum>x \<in># mset (w_refs w). rf_blocks (snd x)) \<and> w_fresh w \<subseteq> dom (map_of (w_refs w))"

lemma in_tiles: "x \<in># tiles M \<longleftrightarrow> (\<exists>p \<in># M. fst p \<le> x \<and> x < fst p + snd p)"
proof (induction M)
  case (add p M)
  then show ?case by (cases p) simp
qed simp

lemma tiles_absent: "list_all (\<lambda>(s, l). 0 < l) m \<Longrightarrow> x \<notin># tiles (mset m) \<Longrightarrow> map_of m x = None"
  unfolding in_tiles by (rule ccontr) (fastforce simp: list_all_iff dest: map_of_SomeD)

text \<open>Inserting a run only joins it with its neighbours.\<close>

lemma free_insert_tiles:
  assumes "om_ok (w_free w)" "list_all (\<lambda>(s, l). 0 < l) (w_free w)" "0 < len"
    and disjoint: "start \<notin># tiles (mset (w_free w))"
  shows "\<exists>free. free_insert start len w = w \<lparr> w_free := free \<rparr> \<and> om_ok free \<and> list_all (\<lambda>(s, l). 0 < l) free \<and>
    tiles (mset free) = mset_set {start..<start + len} + tiles (mset (w_free w))"
proof -
  define f0 where "f0 = w_free w"
  define lower where "lower = (case rev (om_below start f0) of
      [] \<Rightarrow> (start, len, f0)
    | (ps, pl) # _ \<Rightarrow> if ps + pl = start then (ps, len + pl, om_remove ps f0) else (start, len, f0))"
  obtain s l f1 where l1: "lower = (s, l, f1)" by (cases lower)
  have fi: "free_insert start len w = (let (l, free) = (case map_of f1 (s + l) of None \<Rightarrow> (l, f1)
      | Some nl \<Rightarrow> (l + nl, om_remove (s + l) f1)) in w \<lparr> w_free := om_insert s l free \<rparr>)"
    unfolding free_insert_def f0_def [symmetric] lower_def [symmetric] l1 Let_def by simp
  have ok0: "om_ok f0" "list_all (\<lambda>(s, l). 0 < l) f0" using assms by (simp_all add: f0_def)
  have "om_ok f1 \<and> list_all (\<lambda>(s, l). 0 < l) f1 \<and> 0 < l \<and> map_of f1 s = None \<and>
      mset_set {s..<s + l} + tiles (mset f1) = mset_set {start..<start + len} + tiles (mset f0)"
  proof (cases "\<exists>ps pl xs. rev (om_below start f0) = (ps, pl) # xs \<and> ps + pl = start")
    case True
    then obtain ps pl xs where p: "rev (om_below start f0) = (ps, pl) # xs" "ps + pl = start" by blast
    then have "(ps, pl) \<in> set (om_below start f0)" by (metis list.set_intros(1) set_rev)
    then have "(ps, pl) \<in> set f0" by (simp add: om_below_def)
    then have "mset f0 = add_mset (ps, pl) (mset (om_remove ps f0))" using ok0(1) by (simp add: mset_om_remove om_get_iff)
    then have "tiles (mset f0) = mset_set {ps..<ps + pl} + tiles (mset (om_remove ps f0))" by (simp only: tiles_simps)
    moreover have "mset_set {ps..<ps + pl} + mset_set {start..<start + len} = mset_set {ps..<ps + (pl + len)}"
      using p(2) by (rule tiles_join)
    moreover have "s = ps" "l = len + pl" "f1 = om_remove ps f0" using l1 p by (auto simp: lower_def)
    moreover have "list_all (\<lambda>(s, l). 0 < l) (om_remove ps f0)" using ok0(2) by (simp add: om_remove_def list_all_iff)
    ultimately show ?thesis
      using ok0(1) assms(3) by (simp add: add.commute [of len] add.left_commute [of "mset_set {start..<start + len}"])
  next
    case False
    then have "s = start" "l = len" "f1 = f0" using l1 by (auto simp: lower_def split: list.splits if_splits)
    moreover have "map_of f0 start = None" using tiles_absent [OF ok0(2)] disjoint by (simp add: f0_def)
    ultimately show ?thesis
      using ok0 assms(3) by simp
  qed
  then have step1: "om_ok f1" "list_all (\<lambda>(s, l). 0 < l) f1" "0 < l" "map_of f1 s = None"
    "mset_set {s..<s + l} + tiles (mset f1) = mset_set {start..<start + len} + tiles (mset f0)" by blast+
  show ?thesis
  proof (cases "map_of f1 (s + l)")
    case None
    then have "free_insert start len w = w \<lparr> w_free := om_insert s l f1 \<rparr>"
      using fi by simp
    moreover have "tiles (mset (om_insert s l f1)) = mset_set {start..<start + len} + tiles (mset f0)"
      using step1(4,5) by (simp add: mset_om_insert)
    moreover have "list_all (\<lambda>(s, l). 0 < l) (om_insert s l f1)"
      using step1(2,3) set_om_insert [of s l f1] by (auto simp: list_all_iff)
    ultimately show ?thesis using step1(1) by (auto simp: f0_def)
  next
    case (Some nl)
    let ?f2 = "om_remove (s + l) f1"
    have "free_insert start len w = w \<lparr> w_free := om_insert s (l + nl) ?f2 \<rparr>"
      using fi Some by simp
    moreover have "tiles (mset f1) = mset_set {s + l..<s + l + nl} + tiles (mset ?f2)"
      using mset_om_remove [OF step1(1) Some] by (simp only: tiles_simps)
    then have "tiles (mset (om_insert s (l + nl) ?f2)) = mset_set {start..<start + len} + tiles (mset f0)"
      using step1(4,5) tiles_join [OF refl, of s l nl] by (simp add: mset_om_insert add.assoc [symmetric])
    moreover have "list_all (\<lambda>(s, l). 0 < l) (om_insert s (l + nl) ?f2)"
      using step1(2,3) set_om_insert [of s "l + nl" ?f2] by (auto simp: list_all_iff om_remove_def)
    ultimately show ?thesis using step1(1) by (auto simp: f0_def)
  qed
qed

lemma block_once: "space_ok tot w \<Longrightarrow> M \<subseteq># all_blocks w \<Longrightarrow> count M x \<le> 1"
proof -
  assume "space_ok tot w" "M \<subseteq># all_blocks w"
  then have "count M x \<le> count (mset_set {unat FIRST_FREE..<tot}) x"
    using mset_subset_eq_count [of M "all_blocks w" x] by (simp add: space_ok_def)
  also have "\<dots> \<le> 1" by (simp add: count_mset_set')
  finally show ?thesis .
qed

lemma disjoint_by_count:
  assumes "finite A" "\<And>x. count (mset_set A + M) x \<le> 1"
  shows "A \<inter> set_mset M = {}"
proof (rule ccontr)
  assume "A \<inter> set_mset M \<noteq> {}"
  then obtain x where "x \<in> A" "x \<in># M" by blast
  then show False using assms(1) assms(2) [of x] by (simp add: count_mset_set' count_eq_zero_iff)
qed

lemma space_disjoint:
  assumes "space_ok tot w"
  shows "free_blocks w \<inter> ref_blocks w = {}" "free_blocks w \<inter> pinned_blocks w = {}" "ref_blocks w \<inter> pinned_blocks w = {}"
    "free_blocks w \<union> ref_blocks w \<union> pinned_blocks w = {unat FIRST_FREE..<tot}"
proof -
  have all: "all_blocks w = mset_set {unat FIRST_FREE..<tot}" using assms by (simp add: space_ok_def)
  have one: "count (tiles (mset (w_free w))) x + count (tiles (ref_spans (w_refs w))) x + count (tiles (mset (w_pinned w))) x \<le> 1" for x
    using arg_cong [OF all, of "\<lambda>M. count M x"] by (simp add: all_blocks_def count_mset_set' split: if_splits)
  have "x \<notin># tiles (mset (w_free w)) \<or> x \<notin># tiles (ref_spans (w_refs w))"
    "x \<notin># tiles (mset (w_free w)) \<or> x \<notin># tiles (mset (w_pinned w))"
    "x \<notin># tiles (ref_spans (w_refs w)) \<or> x \<notin># tiles (mset (w_pinned w))" for x
    using one [of x] by (auto simp: count_eq_zero_iff [symmetric] simp del: count_greater_zero_iff count_eq_zero_iff)
  then show "free_blocks w \<inter> ref_blocks w = {}" "free_blocks w \<inter> pinned_blocks w = {}" "ref_blocks w \<inter> pinned_blocks w = {}"
    by (auto simp: free_blocks_def ref_blocks_def pinned_blocks_def)
  show "free_blocks w \<union> ref_blocks w \<union> pinned_blocks w = {unat FIRST_FREE..<tot}"
    using arg_cong [OF all, of set_mset]
    by (simp add: all_blocks_def free_blocks_def ref_blocks_def pinned_blocks_def)
qed

lemma ref_spans_simps [simp]:
  "ref_spans [] = {#}"
  "map_of m b = None \<Longrightarrow> ref_spans (om_insert b r m) = add_mset (b, rf_blocks r) (ref_spans m)"
  by (simp_all add: ref_spans_def mset_om_insert)

lemma ref_spans_remove:
  "om_ok m \<Longrightarrow> map_of m b = Some r \<Longrightarrow> ref_spans m = add_mset (b, rf_blocks r) (ref_spans (om_remove b m))"
  unfolding ref_spans_def by (subst mset_om_remove) auto

lemma ref_in_blocks:
  assumes "space_ok tot w" "map_of (w_refs w) b = Some r"
  shows "{b..<b + rf_blocks r} \<subseteq> ref_blocks w" "ref_ok (b, r)" "b \<in> ref_blocks w" "rf_blocks r \<le> w_used w"
proof -
  have ok: "om_ok (w_refs w)" using assms(1) by (simp add: space_ok_def)
  show ro: "ref_ok (b, r)"
    using assms by (auto simp: space_ok_def dest!: map_of_SomeD)
  show "{b..<b + rf_blocks r} \<subseteq> ref_blocks w"
    unfolding ref_blocks_def ref_spans_remove [OF ok assms(2)] by auto
  then show "b \<in> ref_blocks w" using ro by (auto simp: ref_ok_def)
  show "rf_blocks r \<le> w_used w"
    using assms(1) mset_om_remove [OF ok assms(2)] by (simp add: space_ok_def)
qed

lemma find_in: "find P xs = Some x \<Longrightarrow> x \<in> set xs \<and> P x"
  by (metis find_Some_iff nth_mem)

lemma pick_run_sound: "pick_run cursor n free = Some (s, l) \<Longrightarrow> (s, l) \<in> set free \<and> n \<le> l"
  by (auto simp: pick_run_def om_from_def om_below_def split: option.splits dest!: find_in)

lemma pick_run_complete: "pick_run cursor n free = None \<longleftrightarrow> (\<forall>x \<in> set free. snd x < n)"
proof -
  have none: "find (\<lambda>(_, l). n \<le> l) xs = None \<longleftrightarrow> (\<forall>x \<in> set xs. snd x < n)" for xs :: "(nat, nat) omap"
    by (simp add: find_None_iff case_prod_unfold Ball_def not_le)
  have "set free = set (om_from cursor free) \<union> set (om_below cursor free)" by (auto simp: om_from_def om_below_def)
  then show ?thesis
    using none [of "om_from cursor free"] none [of "om_below cursor free"]
    by (auto simp: pick_run_def split: option.splits)
qed

section \<open>Every operation keeps the partition\<close>

text \<open>What an operation on the space may do to a state of which the rest is kept.\<close>

lemma space_ok_extend [simp]: "space_ok tot (w \<lparr> w_cursor := c, w_dedup := d, w_dedup_rev := r, w_cache := ch \<rparr>) = space_ok tot w"
  by (simp add: space_ok_def all_blocks_def)

lemma forget_dedup_space [simp]:
  "w_refs (forget_dedup b w) = w_refs w" "w_used (forget_dedup b w) = w_used w" "w_free (forget_dedup b w) = w_free w"
  "w_pinned (forget_dedup b w) = w_pinned w" "w_fresh (forget_dedup b w) = w_fresh w" "w_cache (forget_dedup b w) = w_cache w"
  "w_sb (forget_dedup b w) = w_sb w" "w_opts (forget_dedup b w) = w_opts w" "w_cursor (forget_dedup b w) = w_cursor w"
  by (auto simp: forget_dedup_def Let_def split: option.splits)

lemma alloc_ok:
  assumes "space_ok tot w" "0 < n" "n < 2 ^ 32" "alloc_blocks n w = Some (Inr s, w')"
  shows "space_ok tot w'" "{s..<s + n} \<subseteq> free_blocks w" "map_of (w_refs w) s = None"
    "w_refs w' = om_insert s \<lparr> rf_count = 1, rf_blocks = n \<rparr> (w_refs w)" "w_fresh w' = insert s (w_fresh w)"
    "w_pinned w' = w_pinned w" "free_blocks w' = free_blocks w - {s..<s + n}"
proof -
  obtain l where pick: "pick_run (w_cursor w) n (w_free w) = Some (s, l)"
    using assms(4) by (auto simp: alloc_blocks_def Let_def split: option.splits prod.splits)
  define free where "free = om_remove s (w_free w)"
  define free' where "free' = (if l > n then om_insert (s + n) (l - n) free else free)"
  have ok: "om_ok (w_free w)" "om_ok (w_refs w)" "list_all (\<lambda>(s, l). 0 < l) (w_free w)"
    using assms(1) by (simp_all add: space_ok_def)
  have run: "(s, l) \<in> set (w_free w)" "n \<le> l" using pick_run_sound [OF pick] by auto
  then have f: "mset (w_free w) = add_mset (s, l) (mset free)" using ok(1) by (simp add: mset_om_remove om_get_iff free_def)
  show sub: "{s..<s + n} \<subseteq> free_blocks w" using run unfolding free_blocks_def f by auto
  have w': "w' = w \<lparr> w_free := free', w_cursor := s + n,
      w_refs := om_insert s \<lparr> rf_count = 1, rf_blocks = n \<rparr> (w_refs w), w_used := w_used w + n, w_fresh := insert s (w_fresh w) \<rparr>"
    using assms(3,4) pick by (auto simp: alloc_blocks_def Let_def free'_def free_def)
  then show "w_refs w' = om_insert s \<lparr> rf_count = 1, rf_blocks = n \<rparr> (w_refs w)" "w_fresh w' = insert s (w_fresh w)"
    "w_pinned w' = w_pinned w" by simp_all
  show new: "map_of (w_refs w) s = None"
  proof (rule ccontr)
    assume "map_of (w_refs w) s \<noteq> None"
    then have "s \<in> ref_blocks w" using ref_in_blocks(3) [OF assms(1)] by blast
    moreover have "s \<in> free_blocks w" using sub assms(2) by fastforce
    ultimately show False using space_disjoint(1) [OF assms(1)] by blast
  qed
  have cov: "mset_set {s..<s + n} + tiles (mset free') = tiles (mset (w_free w))"
  proof (cases "l > n")
    case True
    have "mset_set {s..<s + l} + tiles (mset free) \<subseteq># all_blocks w" unfolding all_blocks_def f by simp
    then have "count (mset_set {s..<s + l} + tiles (mset free)) (s + n) \<le> 1"
      by (rule block_once [OF assms(1)])
    then have "s + n \<notin># tiles (mset free)" using True by (simp add: not_in_iff)
    moreover have "list_all (\<lambda>(s, l). 0 < l) free" using ok(3) by (auto simp: free_def list_all_iff om_remove_def)
    ultimately have "map_of free (s + n) = None" by (rule tiles_absent [rotated])
    then show ?thesis
      using True f tiles_join [OF refl, of s n "l - n"] by (simp add: free'_def mset_om_insert flip: add.assoc)
  qed (use f run free'_def in auto)
  have "om_ok free'" "list_all (\<lambda>(s, l). 0 < l) free'"
    using ok set_om_insert [of "s + n" "l - n" free]
    by (auto simp: free'_def free_def list_all_iff om_remove_def)
  moreover have "all_blocks w' = all_blocks w"
    using cov new unfolding all_blocks_def w' by (simp add: add.assoc [symmetric] add.commute [of "mset_set {s..<s + n}"])
  ultimately show "space_ok tot w'"
    using assms(1,2) new ok(2) unfolding w' space_ok_def by (auto simp: mset_om_insert ref_ok_def)
  have "mset_set {s..<s + n} + tiles (mset free') \<subseteq># all_blocks w" unfolding all_blocks_def cov by simp
  then have "count (mset_set {s..<s + n} + tiles (mset free')) x \<le> 1" for x
    by (rule block_once [OF assms(1)])
  then have "{s..<s + n} \<inter> set_mset (tiles (mset free')) = {}"
    by (rule disjoint_by_count [OF finite_atLeastLessThan])
  then show "free_blocks w' = free_blocks w - {s..<s + n}"
    unfolding free_blocks_def cov [symmetric] w' by auto
qed

lemma alloc_total:
  "alloc_blocks n w = (case pick_run (w_cursor w) n (w_free w) of
     None \<Rightarrow> Some (Inl NoSpace, w) | Some (s, l) \<Rightarrow> Some (Inr s, snd (the (alloc_blocks n w))))"
  by (auto simp: alloc_blocks_def Let_def split: option.splits)

text \<open>Changing the count of an extent keeps the partition.\<close>

lemma set_count_ok:
  assumes "space_ok tot w" "map_of (w_refs w) b = Some r" "0 < c" "c < 2 ^ 32"
  defines "w' \<equiv> w \<lparr> w_refs := om_insert b (r \<lparr> rf_count := c \<rparr>) (w_refs w) \<rparr>"
  shows "space_ok tot w'" "ref_blocks w' = ref_blocks w"
proof -
  have ok: "om_ok (w_refs w)" using assms(1) by (simp add: space_ok_def)
  note old = mset_om_remove [OF ok assms(2)]
  have new: "mset (w_refs w') = add_mset (b, r \<lparr> rf_count := c \<rparr>) (mset (om_remove b (w_refs w)))"
    using mset_om_replace [OF ok assms(2)] by (simp add: w'_def)
  then have spans: "ref_spans (w_refs w') = ref_spans (w_refs w)" unfolding ref_spans_def old by simp
  then show "ref_blocks w' = ref_blocks w" by (simp add: ref_blocks_def)
  have "ref_ok (b, r)" using ref_in_blocks(2) [OF assms(1,2)] .
  moreover have "dom (map_of (w_refs w')) = dom (map_of (w_refs w))" using assms(2) by (auto simp: w'_def)
  moreover have "\<forall>x \<in># mset (om_remove b (w_refs w)). ref_ok x"
    using assms(1) by (auto simp: space_ok_def om_remove_def)
  moreover have "(\<Sum>x \<in># mset (w_refs w'). rf_blocks (snd x)) = (\<Sum>x \<in># mset (w_refs w). rf_blocks (snd x))"
    unfolding new old by simp
  moreover have "all_blocks w' = all_blocks w" unfolding all_blocks_def spans by (simp add: w'_def)
  moreover have "om_ok (w_refs w')" using ok by (simp add: w'_def)
  ultimately show "space_ok tot w'"
    using assms(1,3,4) unfolding space_ok_def new by (auto simp: w'_def ref_ok_def)
qed

lemma incref_eq:
  assumes "map_of (w_refs w) b = Some r" "rf_count r + 1 < 2 ^ 32"
  shows "incref b w = Some (Inr (), w \<lparr> w_refs := om_insert b (r \<lparr> rf_count := rf_count r + 1 \<rparr>) (w_refs w) \<rparr>)"
  using assms by (simp add: incref_def)

lemma decref_shared:
  assumes "map_of (w_refs w) b = Some r" "rf_count r > 1"
  shows "decref b w = Some (Inr (), w \<lparr> w_refs := om_insert b (r \<lparr> rf_count := rf_count r - 1 \<rparr>) (w_refs w) \<rparr>)"
  using assms by (simp add: decref_def)

text \<open>Giving up the last reference moves the extent to the free or to the pinned blocks.\<close>

lemma decref_last:
  assumes "space_ok tot w" "map_of (w_refs w) b = Some r" "rf_count r = 1"
  obtains w' where "decref b w = Some (Inr (), w')" "space_ok tot w'" "w_refs w' = om_remove b (w_refs w)"
    "w_cache w' = om_remove b (w_cache w)" "w_fresh w' = w_fresh w - {b}" "w_sb w' = w_sb w"
    "ref_blocks w' = ref_blocks w - {b..<b + rf_blocks r}"
    "free_blocks w' = free_blocks w \<union> (if b \<in> w_fresh w then {b..<b + rf_blocks r} else {})"
    "pinned_blocks w' = pinned_blocks w \<union> (if b \<in> w_fresh w then {} else {b..<b + rf_blocks r})"
proof -
  define n where "n = rf_blocks r"
  define w1 where "w1 = forget_dedup b (w \<lparr> w_refs := om_remove b (w_refs w), w_used := w_used w - n, w_cache := om_remove b (w_cache w) \<rparr>)"
  have ok: "om_ok (w_refs w)" "om_ok (w_free w)" "list_all (\<lambda>(s, l). 0 < l) (w_free w)"
    using assms(1) by (simp_all add: space_ok_def)
  note r = ref_in_blocks [OF assms(1,2), folded n_def]
  have n: "0 < n" using r(2) by (simp add: ref_ok_def n_def)
  have spans: "tiles (ref_spans (w_refs w)) = mset_set {b..<b + n} + tiles (ref_spans (w_refs w1))"
    using ref_spans_remove [OF ok(1) assms(2)] by (simp add: w1_def n_def)
  have refs: "\<forall>x \<in># mset (w_refs w1). ref_ok x" "w_used w1 = (\<Sum>x \<in># mset (w_refs w1). rf_blocks (snd x))" "om_ok (w_refs w1)"
    using assms(1) mset_om_remove [OF ok(1) assms(2)] by (auto simp: space_ok_def w1_def n_def)
  have blocks: "all_blocks w = tiles (mset (w_free w)) + (mset_set {b..<b + n} + tiles (ref_spans (w_refs w1))) + tiles (mset (w_pinned w))"
    unfolding all_blocks_def spans ..
  have "count (mset_set {b..<b + n} + tiles (ref_spans (w_refs w1))) x \<le> 1" for x
    by (rule block_once [OF assms(1)]) (simp add: blocks)
  then have disj: "{b..<b + n} \<inter> set_mset (tiles (ref_spans (w_refs w1))) = {}"
    by (rule disjoint_by_count [OF finite_atLeastLessThan])
  have dec: "decref b w = Some (Inr (), if b \<in> w_fresh w then free_insert b n (w1 \<lparr> w_fresh := w_fresh w1 - {b} \<rparr>)
      else w1 \<lparr> w_pinned := w_pinned w1 @ [(b, n)] \<rparr>)"
    using assms(2,3) r(4) by (simp add: decref_def Let_def w1_def n_def)
  have fresh: "w_fresh w - {b} \<subseteq> dom (map_of (w_refs w1))" using assms(1) by (auto simp: space_ok_def w1_def)
  show thesis
  proof (cases "b \<in> w_fresh w")
    case True
    let ?v = "w1 \<lparr> w_fresh := w_fresh w1 - {b} \<rparr>"
    have "b \<notin># tiles (mset (w_free ?v))"
      using r(3) space_disjoint(1) [OF assms(1)] by (auto simp: w1_def free_blocks_def)
    then obtain free where free: "free_insert b n ?v = ?v \<lparr> w_free := free \<rparr>" "om_ok free" "list_all (\<lambda>(s, l). 0 < l) free"
        "tiles (mset free) = mset_set {b..<b + n} + tiles (mset (w_free w))"
      using free_insert_tiles [of ?v n b] ok n by (auto simp: w1_def)
    have "all_blocks (?v \<lparr> w_free := free \<rparr>) = all_blocks w"
      unfolding blocks by (simp add: all_blocks_def free(4) w1_def add.commute add.left_commute)
    then have "space_ok tot (?v \<lparr> w_free := free \<rparr>)"
      using assms(1) refs free(2,3) fresh unfolding space_ok_def by (simp add: w1_def)
    then show thesis
    proof (rule that [of "?v \<lparr> w_free := free \<rparr>", rotated])
    qed (use True dec free spans disj in \<open>auto simp: free_blocks_def ref_blocks_def pinned_blocks_def w1_def n_def\<close>)
  next
    case False
    let ?v = "w1 \<lparr> w_pinned := w_pinned w1 @ [(b, n)] \<rparr>"
    have "all_blocks ?v = all_blocks w"
      unfolding blocks by (simp add: all_blocks_def w1_def add.commute add.left_commute)
    then have "space_ok tot ?v"
      using assms(1) refs ok fresh False n unfolding space_ok_def by (simp add: w1_def)
    then show thesis
    proof (rule that [of ?v, rotated])
    qed (use False dec spans disj in \<open>auto simp: free_blocks_def ref_blocks_def pinned_blocks_def w1_def n_def\<close>)
  qed
qed

lemma release_pinned_fields [simp]:
  "w_refs (release_pinned w) = w_refs w" "w_fresh (release_pinned w) = {}" "w_sb (release_pinned w) = w_sb w"
  "w_cache (release_pinned w) = w_cache w" "w_used (release_pinned w) = w_used w"
proof -
  have "w_refs (fold (\<lambda>(b, n). free_insert b n) ps v) = w_refs v \<and> w_sb (fold (\<lambda>(b, n). free_insert b n) ps v) = w_sb v \<and>
    w_cache (fold (\<lambda>(b, n). free_insert b n) ps v) = w_cache v \<and> w_used (fold (\<lambda>(b, n). free_insert b n) ps v) = w_used v"
    for ps :: "(nat \<times> nat) list" and v :: "'a wspace_scheme"
    by (induction ps arbitrary: v) (auto simp: free_insert_def Let_def split: prod.splits)
  then show "w_refs (release_pinned w) = w_refs w" "w_fresh (release_pinned w) = {}" "w_sb (release_pinned w) = w_sb w"
    "w_cache (release_pinned w) = w_cache w" "w_used (release_pinned w) = w_used w"
    by (simp_all add: release_pinned_def)
qed

lemma free_insert_all:
  assumes "om_ok (w_free w)" "list_all (\<lambda>(s, l). 0 < l) (w_free w)" "list_all (\<lambda>(s, l). 0 < l) ps"
    "\<And>x. count (tiles (mset (w_free w)) + tiles (mset ps)) x \<le> 1"
  shows "\<exists>free. fold (\<lambda>(b, n). free_insert b n) ps w = w \<lparr> w_free := free \<rparr> \<and> om_ok free \<and> list_all (\<lambda>(s, l). 0 < l) free \<and>
    tiles (mset free) = tiles (mset (w_free w)) + tiles (mset ps)"
  using assms
proof (induction ps arbitrary: w)
  case (Cons p ps)
  obtain b n where p: "p = (b, n)" by (cases p)
  have n: "0 < n" using Cons.prems(3) p by simp
  have "b \<notin># tiles (mset (w_free w))"
    using Cons.prems(4) [of b] n by (simp add: p count_eq_zero_iff count_mset_set' split: if_splits) 
  then obtain free where free: "free_insert b n w = w \<lparr> w_free := free \<rparr>" "om_ok free" "list_all (\<lambda>(s, l). 0 < l) free"
      "tiles (mset free) = mset_set {b..<b + n} + tiles (mset (w_free w))"
    using free_insert_tiles [OF Cons.prems(1,2) n] by blast
  have "\<exists>free'. fold (\<lambda>(b, n). free_insert b n) ps (w \<lparr> w_free := free \<rparr>) = w \<lparr> w_free := free \<rparr> \<lparr> w_free := free' \<rparr> \<and> om_ok free' \<and>
      list_all (\<lambda>(s, l). 0 < l) free' \<and> tiles (mset free') = tiles (mset (w_free (w \<lparr> w_free := free \<rparr>))) + tiles (mset ps)"
    using Cons.prems free by (intro Cons.IH) (auto simp: p add.commute add.left_commute add.assoc)
  then show ?case using free by (auto simp: p add.commute add.left_commute)
next
  case Nil
  then show ?case by (intro exI [of _ "w_free w"]) simp
qed

lemma release_pinned_ok:
  assumes "space_ok tot w"
  shows "space_ok tot (release_pinned w)" "free_blocks (release_pinned w) = free_blocks w \<union> pinned_blocks w"
    "pinned_blocks (release_pinned w) = {}" "ref_blocks (release_pinned w) = ref_blocks w"
proof -
  have "count (tiles (mset (w_free w)) + tiles (mset (w_pinned w))) x \<le> 1" for x
    by (rule block_once [OF assms]) (simp add: all_blocks_def)
  then obtain free where free: "fold (\<lambda>(b, n). free_insert b n) (w_pinned w) (w \<lparr> w_pinned := [] \<rparr>) = w \<lparr> w_pinned := [], w_free := free \<rparr>"
      "om_ok free" "list_all (\<lambda>(s, l). 0 < l) free" "tiles (mset free) = tiles (mset (w_free w)) + tiles (mset (w_pinned w))"
    using free_insert_all [of "w \<lparr> w_pinned := [] \<rparr>" "w_pinned w"] assms by (auto simp: space_ok_def)
  then show "space_ok tot (release_pinned w)"
    using assms by (simp add: space_ok_def release_pinned_def all_blocks_def add.commute add.left_commute)
  show "free_blocks (release_pinned w) = free_blocks w \<union> pinned_blocks w"
    "pinned_blocks (release_pinned w) = {}" "ref_blocks (release_pinned w) = ref_blocks w"
    using free by (simp_all add: release_pinned_def free_blocks_def pinned_blocks_def ref_blocks_def)
qed

section \<open>A transaction\<close>

definition fresh_blocks :: "'a wspace_scheme \<Rightarrow> nat set" where
  "fresh_blocks w = {x. \<exists>b \<in> w_fresh w. \<exists>r. map_of (w_refs w) b = Some r \<and> b \<le> x \<and> x < b + rf_blocks r}"

text \<open>What a transaction does to the space: it allocates, shares and gives up extents.\<close>

inductive space_step :: "'a wspace_scheme \<Rightarrow> 'a wspace_scheme \<Rightarrow> bool" where
  step_alloc: "alloc_blocks n w = Some (r, w') \<Longrightarrow> 0 < n \<Longrightarrow> n < 2 ^ 32 \<Longrightarrow> space_step w w'"
| step_incref: "incref b w = Some (r, w') \<Longrightarrow> space_step w w'"
| step_decref: "decref b w = Some (r, w') \<Longrightarrow> space_step w w'"

text \<open>
  The contract of copy on write: only blocks that were free or new in this transaction become free,
  and only free blocks become new.  So what is neither when the transaction begins is never handed
  out in it.
\<close>

locale cow_space =
  fixes ok :: "'s \<Rightarrow> bool" and free fresh :: "'s \<Rightarrow> nat set" and step :: "'s \<Rightarrow> 's \<Rightarrow> bool"
  assumes step_ok: "ok w \<Longrightarrow> step w w' \<Longrightarrow> ok w'"
    and step_free: "ok w \<Longrightarrow> step w w' \<Longrightarrow> free w' \<subseteq> free w \<union> fresh w"
    and step_fresh: "ok w \<Longrightarrow> step w w' \<Longrightarrow> fresh w' \<subseteq> free w \<union> fresh w"
begin

lemma transaction: "step\<^sup>*\<^sup>* w w' \<Longrightarrow> ok w \<Longrightarrow> ok w' \<and> free w' \<union> fresh w' \<subseteq> free w \<union> fresh w"
proof (induction rule: rtranclp_induct)
  case (step v v')
  then show ?case using step_ok [of v v'] step_free [of v v'] step_fresh [of v v'] by blast
qed simp

end

lemma fresh_blocks_remove: "fresh_blocks w' \<subseteq> fresh_blocks w"
  if "w_fresh w' \<subseteq> w_fresh w" "\<And>b r'. b \<in> w_fresh w' \<Longrightarrow> map_of (w_refs w') b = Some r' \<Longrightarrow>
    \<exists>r. map_of (w_refs w) b = Some r \<and> rf_blocks r = rf_blocks r'"
  using that unfolding fresh_blocks_def by fastforce

lemma space_step_ok:
  assumes "space_step w w'" "space_ok tot w"
  shows "space_ok tot w' \<and> free_blocks w' \<subseteq> free_blocks w \<union> fresh_blocks w \<and> fresh_blocks w' \<subseteq> free_blocks w \<union> fresh_blocks w"
  using assms(1)
proof cases
  case (step_alloc n r)
  show ?thesis
  proof (cases r)
    case (Inr s)
    note a = alloc_ok [OF assms(2) step_alloc(2,3) step_alloc(1) [unfolded Inr]]
    have "fresh_blocks w' \<subseteq> {s..<s + n} \<union> fresh_blocks w"
      unfolding fresh_blocks_def a(4,5) by (auto split: if_splits)
    then show ?thesis using a(1,2,7) by blast
  next
    case (Inl e)
    then have "w' = w" using step_alloc(1) by (auto simp: alloc_blocks_def Let_def split: option.splits prod.splits)
    then show ?thesis using assms(2) by simp
  qed
next
  case (step_incref b r)
  show ?thesis
  proof (cases "map_of (w_refs w) b")
    case (Some x)
    then have c: "rf_count x + 1 < 2 ^ 32" "w' = w \<lparr> w_refs := om_insert b (x \<lparr> rf_count := rf_count x + 1 \<rparr>) (w_refs w) \<rparr>"
      using step_incref by (auto simp: incref_def split: if_splits)
    have "fresh_blocks w' \<subseteq> fresh_blocks w" using Some by (intro fresh_blocks_remove) (auto simp: c(2) split: if_splits)
    then show ?thesis using set_count_ok(1) [OF assms(2) Some _ c(1)] c(2) by (auto simp: free_blocks_def)
  qed (use step_incref assms(2) in \<open>auto simp: incref_def\<close>)
next
  case (step_decref b r)
  show ?thesis
  proof (cases "map_of (w_refs w) b")
    case (Some x)
    note ok = ref_in_blocks(2) [OF assms(2) Some]
    show ?thesis
    proof (cases "rf_count x = 1")
      case True
      obtain v where v: "decref b w = Some (Inr (), v)" "space_ok tot v" "w_refs v = om_remove b (w_refs w)"
        "w_fresh v = w_fresh w - {b}"
        "free_blocks v = free_blocks w \<union> (if b \<in> w_fresh w then {b..<b + rf_blocks x} else {})"
        using decref_last [OF assms(2) Some True] by metis
      have "{b..<b + rf_blocks x} \<subseteq> fresh_blocks w" if "b \<in> w_fresh w"
        using that Some unfolding fresh_blocks_def by (intro subsetI CollectI bexI [of _ b] exI [of _ x]) auto
      moreover have "fresh_blocks v \<subseteq> fresh_blocks w" by (intro fresh_blocks_remove) (auto simp: v split: if_splits)
      moreover have "w' = v" using step_decref v(1) by simp
      ultimately show ?thesis using v(2,5) by auto
    next
      case False
      then have c: "1 < rf_count x" "rf_count x - 1 < 2 ^ 32" using ok by (auto simp: ref_ok_def)
      have w': "w' = w \<lparr> w_refs := om_insert b (x \<lparr> rf_count := rf_count x - 1 \<rparr>) (w_refs w) \<rparr>"
        using step_decref decref_shared [OF Some c(1)] by simp
      have "fresh_blocks w' \<subseteq> fresh_blocks w" using Some by (intro fresh_blocks_remove) (auto simp: w' split: if_splits)
      then show ?thesis using set_count_ok(1) [OF assms(2) Some _ c(2)] c(1) by (auto simp: w' free_blocks_def)
    qed
  qed (use step_decref assms(2) in \<open>auto simp: decref_def\<close>)
qed

interpretation space: cow_space "space_ok tot" free_blocks fresh_blocks space_step for tot
  by unfold_locales (use space_step_ok in blast)+

lemma size_tiles: "size (tiles M) = (\<Sum>x \<in># M. snd x)"
proof (induction M)
  case (add x M)
  then show ?case by (cases x) simp
qed simp

text \<open>
  C40: Copy on write.  During a transaction, whatever is allocated, shared or given up and in whatever
  order, the free, the referenced and the pinned blocks partition the volume; no block that was in use
  or pinned when the transaction began becomes free, and what is allocated is disjoint from all of
  them.  Only the end of the commit returns the pinned blocks, and then exactly what is not referenced
  is free.
\<close>

theorem committed_blocks_kept:
  assumes "space_ok tot w0" "w_fresh w0 = {}" "space_step\<^sup>*\<^sup>* w0 w"
  shows "space_ok tot w \<and> ref_blocks w0 \<union> pinned_blocks w0 \<subseteq> ref_blocks w \<union> pinned_blocks w \<and>
    (\<forall>n s w'. 0 < n \<and> n < 2 ^ 32 \<and> alloc_blocks n w = Some (Inr s, w') \<longrightarrow>
       {s..<s + n} \<inter> (ref_blocks w0 \<union> pinned_blocks w0 \<union> ref_blocks w \<union> pinned_blocks w) = {}) \<and>
    space_ok tot (release_pinned w) \<and> free_blocks (release_pinned w) = {unat FIRST_FREE..<tot} - ref_blocks w"
proof -
  have "fresh_blocks w0 = {}" using assms(2) by (simp add: fresh_blocks_def)
  then have w: "space_ok tot w" "free_blocks w \<subseteq> free_blocks w0" using space.transaction [OF assms(3,1)] by auto
  note d0 = space_disjoint [OF assms(1)] and d = space_disjoint [OF w(1)]
  have kept: "ref_blocks w0 \<union> pinned_blocks w0 \<subseteq> ref_blocks w \<union> pinned_blocks w"
  proof
    fix x
    assume x: "x \<in> ref_blocks w0 \<union> pinned_blocks w0"
    then have "x \<notin> free_blocks w" using d0(1,2) w(2) by auto
    moreover have "x \<in> free_blocks w \<union> ref_blocks w \<union> pinned_blocks w"
      using x unfolding d(4) d0(4) [symmetric] by blast
    ultimately show "x \<in> ref_blocks w \<union> pinned_blocks w" by blast
  qed
  moreover have "{s..<s + n} \<inter> (ref_blocks w0 \<union> pinned_blocks w0 \<union> ref_blocks w \<union> pinned_blocks w) = {}"
    if "0 < n" "n < 2 ^ 32" "alloc_blocks n w = Some (Inr s, w')" for n s w'
  proof -
    have "free_blocks w \<inter> (ref_blocks w0 \<union> pinned_blocks w0 \<union> ref_blocks w \<union> pinned_blocks w) = {}" using kept d(1,2) by auto
    with alloc_ok(2) [OF w(1) that] show ?thesis by blast
  qed
  moreover have "free_blocks (release_pinned w) = {unat FIRST_FREE..<tot} - ref_blocks w"
    using release_pinned_ok(2) [OF w(1)] d(1,3) unfolding d(4) [symmetric] by blast
  ultimately show ?thesis using w(1) release_pinned_ok(1) [OF w(1)] by blast
qed

definition demo_space :: "superblock \<Rightarrow> wspace" where
  "demo_space sb = \<lparr> w_opts = \<lparr> opt_compression = Lz4, opt_dedup = True, opt_max_dirty = 0 \<rparr>, w_sb = sb, w_refs = [], w_used = 0,
     w_free = [(19, 237)], w_cursor = 19, w_pinned = [], w_fresh = {}, w_cache = [], w_dedup = Map.empty, w_dedup_rev = Map.empty \<rparr>"

lemma demo_space_ok: "space_ok 256 (demo_space sb)"
  by (simp add: space_ok_def demo_space_def all_blocks_def ref_spans_def FIRST_FREE_def SIG_FIRST_def SIG_BLOCKS_def)

theorem committed_blocks_kept_witness:
  "let w0 = demo_space demo_sb; w = snd (the (alloc_blocks 2 w0)) in
    space_ok 256 w \<and> ref_blocks w0 \<union> pinned_blocks w0 \<subseteq> ref_blocks w \<union> pinned_blocks w \<and>
    (\<forall>n s w'. 0 < n \<and> n < 2 ^ 32 \<and> alloc_blocks n w = Some (Inr s, w') \<longrightarrow>
       {s..<s + n} \<inter> (ref_blocks w0 \<union> pinned_blocks w0 \<union> ref_blocks w \<union> pinned_blocks w) = {}) \<and>
    space_ok 256 (release_pinned w) \<and> free_blocks (release_pinned w) = {unat FIRST_FREE..<256} - ref_blocks w"
  unfolding Let_def
  by (rule committed_blocks_kept [OF demo_space_ok _ r_into_rtranclp [of space_step], OF _ step_alloc [of 2 _ "Inr 19"]])
    (simp_all add: demo_space_def alloc_blocks_def pick_run_def om_from_def Let_def)

text \<open>
  The books of the space are right: what is reported used and free, with what is pinned, makes up
  the whole volume, and an allocation fails exactly when no free run is long enough.
\<close>

theorem space_accounted:
  assumes "space_ok (unat (total_blocks (w_sb w))) w"
  shows "sp_used (space_of w) + sp_free (space_of w) + (\<Sum>(b, n) \<leftarrow> w_pinned w. n) =
      sp_total (space_of w) - unat FIRST_FREE \<and>
    (alloc_blocks n w = Some (Inl NoSpace, w) \<longleftrightarrow> (\<forall>(s, l) \<in> set (w_free w). l < n))"
proof -
  have sum: "(\<Sum>x \<leftarrow> xs. f x) = (\<Sum>x \<in># mset xs. f x)" for xs :: "'b list" and f :: "'b \<Rightarrow> nat"
    by (induction xs) simp_all
  have "size (all_blocks w) = unat (total_blocks (w_sb w)) - unat FIRST_FREE"
    using assms by (simp add: space_ok_def)
  moreover have "w_used w = (\<Sum>x \<in># mset (w_refs w). rf_blocks (snd x))" using assms by (simp add: space_ok_def)
  ultimately have "sp_used (space_of w) + sp_free (space_of w) + (\<Sum>(b, n) \<leftarrow> w_pinned w. n) =
      sp_total (space_of w) - unat FIRST_FREE"
    by (simp add: all_blocks_def size_tiles space_of_def ref_spans_def sum case_prod_unfold image_mset.compositionality comp_def)
  then show ?thesis
    using pick_run_complete [of "w_cursor w" n "w_free w"]
    by (auto simp: alloc_blocks_def Let_def split: option.splits prod.splits)
qed

end
