(* ===== verification/Spec2Isabelle.thy ===== *)
theory Spec2Isabelle
  imports Stopwatch Power_Confirm Version Lz4 Frames Ncfs_Volume Qoi Base64 Kernel_Clocks Health Ncfs_Space
begin

text \<open>
  Verification library of NanoChronometer (\<^verbatim>\<open>src/crates/nanochrono-core\<close> and the clocks of
  \<^verbatim>\<open>src/crates/nanochrono-baremetal\<close>).

  \<^bold>\<open>The program.\<close>  NanoChronometer measures time on a calibrated processor counter, hosted and on bare
  metal.  Its core keeps the words a measurement rests on under a code and two replicas, checks them
  by a policy, and formats them; around it are the services of a small system: a page allocator, the
  filesystem NCFS with its checksums and codecs, pictures, package versions and signatures, and the
  confirmation that guards restart and power-off.  The library follows that structure.

  \<^bold>\<open>Theories and sources.\<close>
  \<^item> \<open>Prelude\<close>, \<open>Strings\<close>, \<open>Bytes\<close>: Rust's machine integers (saturating and checked operations), text
    and byte buffers (checked indices and slices, little-endian words, buffers as concatenations of
    fields).  \<open>Strings\<close> has the locale \<open>total_comparison\<close> of three-way comparisons, interpreted on the
    comparisons of \<open>Version\<close>.
  \<^item> \<open>Redundancy\<close> (\<^verbatim>\<open>redundancy.rs\<close>): the SECDED(72,64) code, replicas, vote, repair.  A flip is a bit
    of the 216 that \<open>inject_flip\<close> addresses.  One flip is corrected, two are detected, a damage budget
    per word is survived, the vote is sound.  The locale \<open>protected_cell\<close> states what clients rely on
    and is interpreted on the protected word.
  \<^item> \<open>Chronometer\<close> (\<^verbatim>\<open>context.rs\<close>): calibration, conversions at full precision, the once-a-second
    checkpoint.  Readings of counter and clock are arguments; a busy-wait is a list of polls.
  \<^item> \<open>Stopwatch\<close> (\<^verbatim>\<open>stopwatch.rs\<close>): the state machine over protected words, refined to a stopwatch on
    plain words under damage between operations (\<open>sw_reachable\<close>).
  \<^item> \<open>Time_Format\<close> (\<^verbatim>\<open>format.rs\<close>): civil dates against a day count, timestamps that read back.
  \<^item> \<open>Space_Mode\<close> (\<^verbatim>\<open>space_mode.rs\<close>): when stored words are checked; theorems over histories of reports.
  \<^item> \<open>Kernel_Clocks\<close> (\<^verbatim>\<open>nanochrono-baremetal/src/gui_frame.rs\<close>): the kernel's stopwatch and countdown
    and the loop, keys and readout that drive them by the policy; a reachability relation \<open>tracked\<close>
    interleaves them with damage.  It also proves where the countdown acts on unverified words.
  \<^item> \<open>Power_Confirm\<close> (\<^verbatim>\<open>power_confirm.rs\<close>): codes, lockouts and the cost of guessing, over runs of the
    interface as a step relation.
  \<^item> \<open>Version\<close> (\<^verbatim>\<open>ncpkg/version.rs\<close>), \<open>Base64\<close> (\<^verbatim>\<open>ncpkg/base64.rs\<close>): parsing, printing and order of
    SemVer versions and requirements; canonical Base64.
  \<^item> \<open>Health\<close> (\<^verbatim>\<open>rng/health.rs\<close>): the health tests of the entropy source, counters against the tests over
    the list of all samples.
  \<^item> \<open>Frames\<close> (\<^verbatim>\<open>frames.rs\<close>): the page allocator over sorted ranges, against sets of addresses.
  \<^item> \<open>Lz4\<close> (\<^verbatim>\<open>lz4.rs\<close>): compressor and decoder, round trip, bounds and safety on any input.
  \<^item> \<open>Qoi\<close> (\<^verbatim>\<open>qoi.rs\<close>): picture decoder and encoder, round trip and totality on hostile data.
  \<^item> \<open>Blake3\<close> (\<^verbatim>\<open>blake3.rs\<close>): the incremental hasher against the recursive tree of its specification.
  \<^item> \<open>Ncfs_Format\<close>, \<open>Ncfs_Items\<close> (\<^verbatim>\<open>ncfs/format.rs\<close>): on-disk structures and their canonical decoders;
    \<open>Ncfs_Read\<close>, \<open>Ncfs_Tree\<close>, \<open>Ncfs_Volume\<close> (\<^verbatim>\<open>ncfs/read.rs\<close>): superblocks, searches, ranges,
    directories, paths and file reads, refined to an ordered map of items and a function from windows
    to bytes.  The locale \<open>block_device\<close> of \<open>Ncfs_Tree\<close> is the contract of a device, interpreted on the
    memory-backed one.

  \<^item> \<open>Ordered_Map\<close>, \<open>Ncfs_Node\<close>, \<open>Ncfs_Space\<close> (\<^verbatim>\<open>ncfs/write.rs\<close>): tree nodes in memory, which encode into
    blocks the reader accepts, and the free map and reference counts.  The locale \<open>cow_space\<close> is the
    contract of copy on write, interpreted on them: what is in use when a transaction begins is never
    handed out in it.

  \<^bold>\<open>Conventions.\<close>  A panic of the source is \<open>None\<close> (the outer one where the source itself returns an
  option), an error of the source is \<open>Inl\<close> of its error type; theorems of safety say that the first
  does not occur.  Loops are structural recursions or functions with a measure; there is no fuel: the
  measures of the filesystem walks are the level of a node, the distance of a key from the largest
  one, and the budget of forty links the source itself counts.  The process-wide integrity counters
  are threaded through every operation that updates them.

  \<^bold>\<open>Assumptions.\<close>  Theorems about reading NCFS take the Zstandard decoder as a parameter \<open>zd\<close> and assume of
  it only what they name.  The read cache is keyed by subvolume, inode and window and not by volume, so
  theorems about reads assume that a scratch buffer was used with one volume.  Time stamps of inodes
  stay the 64 bits they are stored as.  The cookie of a directory listing wraps, as in a release build.
  Sizes are those of a 64-bit machine.

  \<^bold>\<open>Not modelled.\<close>  The writer and checker of NCFS, the package manager and its JSON, DEFLATE, Zstandard
  and PNG, the generators and ciphers, firmware and device parsers, drivers, user interfaces and foreign
  interfaces; floating-point statistics and formatting (\<^verbatim>\<open>format_bytes\<close>, \<^verbatim>\<open>format_rate\<close>), for which there
  is no executable model of \<^verbatim>\<open>f64\<close> here; counters and system clocks, whose readings are arguments.
\<close>

end
